(* ===== verification/RE_Prelude.thy ===== *)
theory RE_Prelude
  imports Main "HOL-Library.Word" "HOL-Library.Multiset"
begin

text \<open>
  Shared vocabulary of the development: Rust's \<open>usize\<close> as a 64-bit word with the operations the
  crate uses on it (\<open>checked_add\<close>, \<open>saturating_sub\<close>, \<open>min\<close>, wrapping \<open>+\<close>), the length of a
  collection read as a \<open>usize\<close>, and the generic lemmas on words, finite sets and multisets that
  the component theories use. The collection \<open>usize_simps\<close> holds the rules that read the machine
  operations back as natural numbers.
\<close>

named_theorems usize_simps

type_synonym usize = "64 word"
type_synonym u64 = "64 word"

definition saturating_sub :: "usize \<Rightarrow> usize \<Rightarrow> usize" where
  "saturating_sub a b = (if b \<le> a then a - b else 0)"

definition checked_add :: "usize \<Rightarrow> usize \<Rightarrow> usize option" where
  "checked_add a b = (if unat a + unat b < 2 ^ 64 then Some (a + b) else None)"

definition list_len :: "'a list \<Rightarrow> usize" where
  "list_len xs = of_nat (length xs)"

definition set_len :: "'a set \<Rightarrow> usize" where
  "set_len A = of_nat (card A)"

section \<open>Reading machine arithmetic as natural numbers\<close>

lemma unat_less_64: "unat (a :: usize) < 2 ^ 64"
  using unsigned_less [of a] by simp

lemma unat_saturating_sub [usize_simps]: "unat (saturating_sub a b) = unat a - unat b"
  by (auto simp: saturating_sub_def unat_sub word_le_nat_alt)

lemma unat_add_small: "unat a + unat b < 2 ^ 64 \<Longrightarrow> unat (a + b :: usize) = unat a + unat b"
  by (simp add: unat_word_ariths)

lemma unat_add_le_word:
  "unat a + unat b \<le> unat (c :: usize) \<Longrightarrow> unat (a + b :: usize) = unat a + unat b"
  using unat_less_64 [of c] by (intro unat_add_small) linarith

lemma unat_inc_less: "unat a < unat (c :: usize) \<Longrightarrow> unat (a + 1 :: usize) = Suc (unat a)"
  using unat_add_le_word [of a 1 c] by simp

lemma checked_add_Some: "checked_add a b = Some c \<Longrightarrow> c = a + b \<and> unat c = unat a + unat b"
  by (auto simp: checked_add_def unat_add_small split: if_splits)

lemma checked_add_None: "checked_add a b = None \<longleftrightarrow> 2 ^ 64 \<le> unat a + unat b"
  by (auto simp: checked_add_def not_less)

lemma unat_of_nat_small: "n < 2 ^ 64 \<Longrightarrow> unat (of_nat n :: usize) = n"
  by (simp add: unat_of_nat take_bit_nat_eq_self)

lemma unat_list_len [usize_simps]:
  "length xs \<le> unat (c :: usize) \<Longrightarrow> unat (list_len xs) = length xs"
  using unat_less_64 [of c] by (simp add: list_len_def unat_of_nat_small)

lemma unat_set_len [usize_simps]:
  "card A \<le> unat (c :: usize) \<Longrightarrow> unat (set_len A) = card A"
  using unat_less_64 [of c] by (simp add: set_len_def unat_of_nat_small)

lemma unat_min [usize_simps]: "unat (min a b :: usize) = min (unat a) (unat b)"
  by (auto simp: min_def word_le_nat_alt)

lemma usize_eq_0_iff: "(a :: usize) = 0 \<longleftrightarrow> unat a = 0"
  by (simp add: unat_eq_0)

section \<open>Sets of identifiers as multisets\<close>

lemma card_remove_mem: "finite A \<Longrightarrow> x \<in> A \<Longrightarrow> card A = Suc (card (A - {x}))"
  by (rule card_Suc_Diff1 [symmetric])

lemma mset_set_insert_fresh:
  "finite A \<Longrightarrow> x \<notin> A \<Longrightarrow> mset_set (insert x A) = add_mset x (mset_set A)"
  by simp

lemma mset_set_remove:
  "finite A \<Longrightarrow> x \<in> A \<Longrightarrow> mset_set A = add_mset x (mset_set (A - {x}))"
  by (metis finite_Diff insert_Diff insert_Diff_if mset_set.insert_remove singletonI)

lemma mset_set_memI: "mset_set A = M + N \<Longrightarrow> x \<in># M \<Longrightarrow> finite A \<and> x \<in> A"
  by (metis elem_mset_set infinite_set_mset_mset_set mset_set.infinite set_mset_empty
      union_iff empty_iff)

lemma saturating_sub_pos: "a < b \<Longrightarrow> saturating_sub b 1 = b - 1"
  by (auto simp: saturating_sub_def word_le_nat_alt word_less_nat_alt)

lemma saturating_sub_inc: "a < b \<Longrightarrow> saturating_sub (a + 1) 1 = a"
  using unat_inc_less [of a b] by (auto simp: saturating_sub_def word_le_nat_alt word_less_nat_alt)

lemma unat_plus_one_less: "a \<noteq> - 1 \<Longrightarrow> unat (a :: usize) + 1 < 2 ^ 64"
proof (rule ccontr)
  assume "a \<noteq> - 1" and "\<not> unat a + 1 < 2 ^ 64"
  then have "unat a = 2 ^ 64 - 1"
    using unat_less_64 [of a] by simp
  also have "\<dots> = unat (- 1 :: usize)"
    by (simp add: unsigned_minus_1_eq_mask mask_eq_exp_minus_1)
  finally show False
    using \<open>a \<noteq> - 1\<close> by (metis word_unat_eq_iff)
qed

lemma checked_inc: "a \<noteq> - 1 \<Longrightarrow> checked_add a 1 = Some (a + 1)"
  using unat_plus_one_less [of a] by (simp add: checked_add_def)

section \<open>Runs\<close>

text \<open>A run of steps that are all in a preorder is in the preorder.\<close>

lemma run_preorder:
  assumes "R\<^sup>*\<^sup>* a b" and "\<And>x. R x x" and "\<And>x y z. R x y \<Longrightarrow> R y z \<Longrightarrow> R x z"
  shows "R a b"
  using assms by (induction rule: rtranclp_induct) blast+

end
