(* ===== verification/Btree_Queue.thy ===== *)
theory Btree_Queue
  imports RE_Prelude
begin

text \<open>
  The pending queue of the service is a \<open>BTreeMap<usize, Box<dyn QueuedJob>>\<close>
  (\<open>src/internal/rayon_executor_service_inner.rs\<close>). Here the standard library's ordered map is an
  association list kept in ascending key order, with the three operations the crate calls:
  \<open>insert\<close>, \<open>remove\<close> and \<open>pop_first\<close>. The locale \<open>ordered_queue\<close> states what the scheduler relies
  on; the scheduler's order lemmas (no overtaking, removal elsewhere keeps the head) are proved
  once inside it and reach the model through the interpretation \<open>btq\<close>.
\<close>

type_synonym ('k, 'v) btree_map = "('k \<times> 'v) list"

fun btree_insert :: "'k::linorder \<Rightarrow> 'v \<Rightarrow> ('k, 'v) btree_map \<Rightarrow> ('k, 'v) btree_map" where
  "btree_insert k v [] = [(k, v)]"
| "btree_insert k v ((k', v') # xs) =
     (if k < k' then (k, v) # (k', v') # xs
      else if k = k' then (k, v) # xs
      else (k', v') # btree_insert k v xs)"

definition btree_remove :: "'k \<Rightarrow> ('k, 'v) btree_map \<Rightarrow> 'v option \<times> ('k, 'v) btree_map" where
  "btree_remove k xs = (map_of xs k, filter (\<lambda>p. fst p \<noteq> k) xs)"

fun btree_pop_first :: "('k, 'v) btree_map \<Rightarrow> (('k \<times> 'v) \<times> ('k, 'v) btree_map) option" where
  "btree_pop_first [] = None"
| "btree_pop_first (x # xs) = Some (x, xs)"

definition btree_keys :: "('k, 'v) btree_map \<Rightarrow> 'k set" where
  "btree_keys xs = fst ` set xs"

definition btree_ok :: "('k::linorder, 'v) btree_map \<Rightarrow> bool" where
  "btree_ok xs \<longleftrightarrow> sorted_wrt (<) (map fst xs)"

section \<open>What a client of an ordered map relies on\<close>

locale ordered_queue =
  fixes invar :: "'q \<Rightarrow> bool"
    and lookup :: "'q \<Rightarrow> 'k::linorder \<Rightarrow> 'v option"
    and ins :: "'k \<Rightarrow> 'v \<Rightarrow> 'q \<Rightarrow> 'q"
    and rem :: "'k \<Rightarrow> 'q \<Rightarrow> 'v option \<times> 'q"
    and pop :: "'q \<Rightarrow> (('k \<times> 'v) \<times> 'q) option"
  assumes invar_ins: "invar q \<Longrightarrow> invar (ins k v q)"
    and lookup_ins: "invar q \<Longrightarrow> lookup (ins k v q) = (lookup q)(k \<mapsto> v)"
    and invar_rem: "invar q \<Longrightarrow> invar (snd (rem k q))"
    and rem_result: "invar q \<Longrightarrow> fst (rem k q) = lookup q k"
    and lookup_rem: "invar q \<Longrightarrow> lookup (snd (rem k q)) = (lookup q)(k := None)"
    and pop_None: "invar q \<Longrightarrow> pop q = None \<longleftrightarrow> lookup q = Map.empty"
    and invar_pop: "invar q \<Longrightarrow> pop q = Some ((k, v), q') \<Longrightarrow> invar q'"
    and pop_lookup: "invar q \<Longrightarrow> pop q = Some ((k, v), q') \<Longrightarrow> lookup q k = Some v"
    and lookup_pop: "invar q \<Longrightarrow> pop q = Some ((k, v), q') \<Longrightarrow> lookup q' = (lookup q)(k := None)"
    and pop_least: "invar q \<Longrightarrow> pop q = Some ((k, v), q') \<Longrightarrow> j \<in> dom (lookup q) \<Longrightarrow> k \<le> j"
begin

lemma pop_SomeI:
  assumes "invar q" and "lookup q k = Some v" and "\<And>j. j \<in> dom (lookup q) \<Longrightarrow> k \<le> j"
  shows "\<exists>q'. pop q = Some ((k, v), q')"
proof -
  from assms(1,2) have "pop q \<noteq> None"
    by (auto simp: pop_None)
  then obtain k' v' q' where pop: "pop q = Some ((k', v'), q')"
    by (metis not_None_eq surj_pair)
  have "lookup q k' = Some v'"
    by (rule pop_lookup [OF assms(1) pop])
  with assms(3) have "k \<le> k'"
    by blast
  moreover have "k' \<le> k"
    using pop_least [OF assms(1) pop] assms(2) by blast
  ultimately have "k' = k"
    by simp
  with \<open>lookup q k' = Some v'\<close> assms(2) pop show ?thesis
    by auto
qed

text \<open>An entry with a larger key never overtakes the head of the queue.\<close>

lemma pop_ins_later:
  assumes "invar q" and "pop q = Some ((k0, v0), q')" and "k0 < k"
  shows "\<exists>q''. pop (ins k v q) = Some ((k0, v0), q'')"
proof (rule pop_SomeI)
  show "invar (ins k v q)"
    using assms(1) by (rule invar_ins)
  show "lookup (ins k v q) k0 = Some v0"
    using assms by (auto simp: lookup_ins pop_lookup [OF assms(1,2)])
  show "k0 \<le> j" if "j \<in> dom (lookup (ins k v q))" for j
    using that assms pop_least [OF assms(1,2)] by (auto simp: lookup_ins)
qed

text \<open>Removing another entry leaves the head in place.\<close>

lemma pop_rem_other:
  assumes "invar q" and "pop q = Some ((k0, v0), q')" and "k \<noteq> k0"
  shows "\<exists>q''. pop (snd (rem k q)) = Some ((k0, v0), q'')"
proof (rule pop_SomeI)
  show "invar (snd (rem k q))"
    using assms(1) by (rule invar_rem)
  show "lookup (snd (rem k q)) k0 = Some v0"
    using assms by (simp add: lookup_rem pop_lookup [OF assms(1,2)])
  show "k0 \<le> j" if "j \<in> dom (lookup (snd (rem k q)))" for j
    using that assms pop_least [OF assms(1,2)] by (auto simp: lookup_rem split: if_splits)
qed

text \<open>Successive removals from the front come in ascending key order.\<close>

lemma pop_pop_ascending:
  assumes "invar q" and "pop q = Some ((k1, v1), q1)" and "pop q1 = Some ((k2, v2), q2)"
  shows "k1 < k2"
proof -
  have inv1: "invar q1"
    using assms(1,2) by (rule invar_pop)
  have "lookup q1 k2 = Some v2"
    by (rule pop_lookup [OF inv1 assms(3)])
  then have "k2 \<noteq> k1" and "k2 \<in> dom (lookup q)"
    using lookup_pop [OF assms(1,2)] by (auto split: if_splits)
  with pop_least [OF assms(1,2)] show ?thesis
    by fastforce
qed

end

section \<open>The association list keeps the laws\<close>

lemma btree_keys_simps [simp]:
  "btree_keys [] = {}" "btree_keys (x # xs) = insert (fst x) (btree_keys xs)"
  by (auto simp: btree_keys_def)

lemma finite_btree_keys [simp]: "finite (btree_keys xs)"
  by (simp add: btree_keys_def)

lemma btree_ok_Nil [simp]: "btree_ok []"
  by (simp add: btree_ok_def)

lemma btree_ok_Cons: "btree_ok (x # xs) \<longleftrightarrow> (\<forall>k \<in> btree_keys xs. fst x < k) \<and> btree_ok xs"
  by (auto simp: btree_ok_def btree_keys_def)

lemma btree_ok_distinct: "btree_ok xs \<Longrightarrow> distinct (map fst xs)"
  by (induction xs) (auto simp: btree_ok_Cons btree_keys_def)

lemma btree_keys_insert [simp]: "btree_keys (btree_insert k v xs) = insert k (btree_keys xs)"
  by (induction k v xs rule: btree_insert.induct) auto

lemma btree_ok_insert: "btree_ok xs \<Longrightarrow> btree_ok (btree_insert k v xs)"
  by (induction k v xs rule: btree_insert.induct) (auto simp: btree_ok_Cons)

lemma map_of_btree_None: "k \<notin> btree_keys xs \<Longrightarrow> map_of xs k = None"
  by (simp add: btree_keys_def map_of_eq_None_iff)

lemma map_of_btree_insert: "btree_ok xs \<Longrightarrow> map_of (btree_insert k v xs) = (map_of xs)(k \<mapsto> v)"
  by (induction k v xs rule: btree_insert.induct)
    (auto simp: btree_ok_Cons fun_eq_iff)

lemma mset_btree_insert_fresh:
  "k \<notin> btree_keys xs \<Longrightarrow> mset (btree_insert k v xs) = add_mset (k, v) (mset xs)"
  by (induction k v xs rule: btree_insert.induct) auto

lemma length_btree_insert_fresh:
  "k \<notin> btree_keys xs \<Longrightarrow> length (btree_insert k v xs) = Suc (length xs)"
  by (metis mset_btree_insert_fresh size_add_mset size_mset)

lemma btree_insert_last:
  "\<forall>j \<in> btree_keys xs. j < k \<Longrightarrow> btree_insert k v xs = xs @ [(k, v)]"
  by (induction k v xs rule: btree_insert.induct) (auto dest: less_asym)

lemma btree_keys_filter: "btree_keys (filter (\<lambda>p. fst p \<noteq> k) xs) = btree_keys xs - {k}"
  by (auto simp: btree_keys_def)

lemma btree_ok_filter: "btree_ok xs \<Longrightarrow> btree_ok (filter P xs)"
  by (induction xs) (auto simp: btree_ok_Cons btree_keys_def)

lemma map_of_filter_key: "map_of (filter (\<lambda>p. fst p \<noteq> k) xs) = (map_of xs)(k := None)"
  by (induction xs) (auto simp: fun_eq_iff)

lemma map_of_btree_Some: "map_of xs k = Some v \<Longrightarrow> k \<in> btree_keys xs"
  by (force simp: btree_keys_def dest: map_of_SomeD)

lemma dom_map_of_btree: "dom (map_of xs) = btree_keys xs"
  by (simp add: dom_map_of_conv_image_fst btree_keys_def)

lemma mset_filter_key:
  "btree_ok xs \<Longrightarrow> map_of xs k = Some v \<Longrightarrow>
     mset xs = add_mset (k, v) (mset (filter (\<lambda>p. fst p \<noteq> k) xs))"
proof (induction xs)
  case Nil
  then show ?case by simp
next
  case (Cons x xs)
  show ?case
  proof (cases "fst x = k")
    case True
    with Cons.prems have "k \<notin> btree_keys xs"
      by (auto simp: btree_ok_Cons)
    then have "filter (\<lambda>p. fst p \<noteq> k) xs = xs"
      by (auto simp: btree_keys_def filter_id_conv)
    with True Cons.prems show ?thesis by (cases x) auto
  next
    case False
    with Cons show ?thesis by (auto simp: btree_ok_Cons)
  qed
qed

lemma length_filter_key:
  "btree_ok xs \<Longrightarrow> map_of xs k = Some v \<Longrightarrow>
     length xs = Suc (length (filter (\<lambda>p. fst p \<noteq> k) xs))"
  by (metis mset_filter_key size_add_mset size_mset)

lemma btree_pop_first_Some: "btree_pop_first xs = Some (x, ys) \<longleftrightarrow> xs = x # ys"
  by (cases xs) auto

lemma btree_pop_first_None: "btree_pop_first xs = None \<longleftrightarrow> xs = []"
  by (cases xs) auto

interpretation btq: ordered_queue btree_ok map_of btree_insert btree_remove btree_pop_first
proof (unfold_locales, goal_cases)
  case (9 q k v q')
  then have "k \<notin> btree_keys q'"
    by (auto simp: btree_pop_first_Some btree_ok_Cons)
  with 9 show ?case
    by (auto simp: btree_pop_first_Some fun_eq_iff map_of_btree_None)
next
  case (10 q k v q' j)
  then show ?case
    by (auto simp: btree_pop_first_Some btree_ok_Cons split: if_splits
        dest!: map_of_btree_Some intro: less_imp_le)
qed (auto simp: btree_ok_insert map_of_btree_insert btree_remove_def btree_ok_filter
    map_of_filter_key btree_pop_first_Some btree_pop_first_None btree_ok_Cons)

end
