(* ===== verification/Unwind.thy ===== *)
theory Unwind
  imports RE_Prelude
begin

text \<open>
  Unwinding panics. A piece of Rust code that may call code outside the crate is a function on an
  explicit state with three outcomes: it returns, it unwinds with a panic payload, or the process
  aborts (\<open>panic=abort\<close>, or a second panic during unwinding). A payload is a boxed value whose
  destructor is code too, and can itself unwind; this is what \<open>discard_panic_payload\<close>
  (\<open>src/internal/panic_payload.rs\<close>) is about. The locale \<open>panic_boundary\<close> is the contract the
  rest of the crate has with the idiom
  \<open>if let Err(payload) = catch_unwind(..) { discard_panic_payload(payload); }\<close>.
\<close>

datatype ('a, 'p) outcome = Returns 'a | Unwinds 'p | Aborts

datatype 's payload = Payload "'s \<Rightarrow> (unit, 's payload) outcome \<times> 's"

type_synonym ('s, 'p, 'a) run = "'s \<Rightarrow> ('a, 'p) outcome \<times> 's"

type_synonym ('s, 'a) exec = "('s, 's payload, 'a) run"

primrec drop_payload :: "'s payload \<Rightarrow> ('s, unit) exec" where
  "drop_payload (Payload d) = d"

definition exec_return :: "'a \<Rightarrow> ('s, 'p, 'a) run" where
  "exec_return a = (\<lambda>s. (Returns a, s))"

definition exec_bind ::
  "('s, 'p, 'a) run \<Rightarrow> ('a \<Rightarrow> ('s, 'p, 'b) run) \<Rightarrow> ('s, 'p, 'b) run" where
  "exec_bind m f = (\<lambda>s. case m s of
       (Returns a, s') \<Rightarrow> f a s'
     | (Unwinds p, s') \<Rightarrow> (Unwinds p, s')
     | (Aborts, s') \<Rightarrow> (Aborts, s'))"

definition catch_unwind :: "('s, 'a) exec \<Rightarrow> ('s, 's payload + 'a) exec" where
  "catch_unwind m = (\<lambda>s. case m s of
       (Returns a, s') \<Rightarrow> (Returns (Inr a), s')
     | (Unwinds p, s') \<Rightarrow> (Returns (Inl p), s')
     | (Aborts, s') \<Rightarrow> (Aborts, s'))"

definition resume_unwind :: "'s payload \<Rightarrow> ('s, 'a) exec" where
  "resume_unwind p = (\<lambda>s. (Unwinds p, s))"

text \<open>
  A destructor that runs while the stack is already unwinding with payload \<open>p\<close>: a second panic
  aborts the process.
\<close>

definition drop_while_unwinding :: "('s, 'p, unit) run \<Rightarrow> 'p \<Rightarrow> ('s, 'p, 'a) run" where
  "drop_while_unwinding d p = (\<lambda>s. case d s of
       (Returns _, s') \<Rightarrow> (Unwinds p, s')
     | (Unwinds _, s') \<Rightarrow> (Aborts, s')
     | (Aborts, s') \<Rightarrow> (Aborts, s'))"

text \<open>Code that owns a value whose destructor \<open>d\<close> runs when the code returns or unwinds.\<close>

definition drop_after :: "('s, 'p, 'a) run \<Rightarrow> ('s, 'p, unit) run \<Rightarrow> ('s, 'p, 'a) run" where
  "drop_after m d = (\<lambda>s. case m s of
       (Returns a, s') \<Rightarrow> exec_bind d (\<lambda>_. exec_return a) s'
     | (Unwinds p, s') \<Rightarrow> drop_while_unwinding d p s'
     | (Aborts, s') \<Rightarrow> (Aborts, s'))"

text \<open>Code whose caller owns a value that is dropped only if the code unwinds.\<close>

definition drop_on_unwind :: "('s, 'p, 'a) run \<Rightarrow> ('s, 'p, unit) run \<Rightarrow> ('s, 'p, 'a) run" where
  "drop_on_unwind m d = (\<lambda>s. case m s of
       (Returns a, s') \<Rightarrow> (Returns a, s')
     | (Unwinds p, s') \<Rightarrow> drop_while_unwinding d p s'
     | (Aborts, s') \<Rightarrow> (Aborts, s'))"

text \<open>The payload of a panic whose value has a trivial destructor, such as a \<open>&'static str\<close>.\<close>

definition message_payload :: "'s payload" where
  "message_payload = Payload (exec_return ())"

text \<open>
  Only the original payload is dropped. A secondary payload, produced by that destructor, is
  passed to \<open>std::mem::forget\<close>: none of its code runs.
\<close>

definition discard_panic_payload :: "'s payload \<Rightarrow> ('s, unit) exec" where
  "discard_panic_payload p =
     exec_bind (catch_unwind (drop_payload p))
       (\<lambda>r. case r of Inl secondary \<Rightarrow> exec_return () | Inr _ \<Rightarrow> exec_return ())"

definition contain :: "('s, 'a) exec \<Rightarrow> ('s, unit) exec" where
  "contain m =
     exec_bind (catch_unwind m)
       (\<lambda>r. case r of Inl payload \<Rightarrow> discard_panic_payload payload | Inr _ \<Rightarrow> exec_return ())"

text \<open>
  Code that does not abort the process, and whose panic payloads have destructors that do not.
\<close>

definition payload_safe :: "'s payload \<Rightarrow> bool" where
  "payload_safe p \<longleftrightarrow> (\<forall>s. fst (drop_payload p s) \<noteq> Aborts)"

definition exec_safe :: "('s, 'a) exec \<Rightarrow> bool" where
  "exec_safe m \<longleftrightarrow>
     (\<forall>s. fst (m s) \<noteq> Aborts \<and> (\<forall>p. fst (m s) = Unwinds p \<longrightarrow> payload_safe p))"

text \<open>Code that leaves an observation of the state alone, payload destructors included.\<close>

definition exec_keeps :: "('s \<Rightarrow> 'b) \<Rightarrow> ('s, 'a) exec \<Rightarrow> bool" where
  "exec_keeps obs m \<longleftrightarrow>
     (\<forall>s. obs (snd (m s)) = obs s \<and>
        (\<forall>p. fst (m s) = Unwinds p \<longrightarrow> (\<forall>s'. obs (snd (drop_payload p s')) = obs s')))"

section \<open>Sequencing\<close>

lemma exec_return_apply [simp]: "exec_return a s = (Returns a, s)"
  by (simp add: exec_return_def)

lemma exec_return_simps:
  "fst (exec_return a s) = Returns a" "snd (exec_return a s) = s"
  by (simp_all add: exec_return_def)

lemma drop_message_payload [simp]: "drop_payload message_payload = exec_return ()"
  by (simp add: message_payload_def)

lemma exec_bind_return [simp]: "exec_bind (exec_return a) f = f a"
  by (simp add: exec_bind_def exec_return_def)

lemma exec_bind_returns: "m s = (Returns a, s') \<Longrightarrow> exec_bind m f s = f a s'"
  by (simp add: exec_bind_def)

lemma exec_bind_unwinds: "m s = (Unwinds p, s') \<Longrightarrow> exec_bind m f s = (Unwinds p, s')"
  by (simp add: exec_bind_def)

lemma exec_bind_aborts: "m s = (Aborts, s') \<Longrightarrow> exec_bind m f s = (Aborts, s')"
  by (simp add: exec_bind_def)

section \<open>Panic boundaries\<close>

locale panic_boundary =
  fixes guard :: "('s, 'a) exec \<Rightarrow> ('s, unit) exec"
  assumes guard_no_unwind: "fst (guard m s) \<noteq> Unwinds p"
    and guard_safe: "exec_safe m \<Longrightarrow> fst (guard m s) = Returns ()"
    and guard_keeps: "exec_keeps P m \<Longrightarrow> (P (snd (guard m s)) :: bool) = P s"
begin

lemma guard_cases: "fst (guard m s) = Returns () \<or> fst (guard m s) = Aborts"
  using guard_no_unwind [of m s] by (cases "fst (guard m s)") auto

text \<open>After a guarded call the code that follows runs, whatever the guarded call did.\<close>

lemma guard_then:
  "exec_safe m \<Longrightarrow> exec_bind (guard m) f s = f () (snd (guard m s))"
  using guard_safe [of m s] by (cases "guard m s") (simp add: exec_bind_def)

lemma guard_then_no_unwind:
  assumes "\<And>s'. fst (f () s') \<noteq> Unwinds p"
  shows "fst (exec_bind (guard m) f s) \<noteq> Unwinds p"
  using assms guard_no_unwind [of m s]
  by (cases "guard m s") (auto simp: exec_bind_def split: outcome.split)

end

lemma discard_panic_payload_eq:
  "discard_panic_payload p s =
     (if fst (drop_payload p s) = Aborts then Aborts else Returns (), snd (drop_payload p s))"
  by (cases "drop_payload p s")
    (auto simp: discard_panic_payload_def catch_unwind_def exec_bind_def exec_return_def
      split: outcome.split)

lemma contain_eq:
  "contain m s = (case m s of
       (Returns a, s') \<Rightarrow> (Returns (), s')
     | (Unwinds p, s') \<Rightarrow> discard_panic_payload p s'
     | (Aborts, s') \<Rightarrow> (Aborts, s'))"
  by (auto simp: contain_def catch_unwind_def exec_bind_def exec_return_def
      split: outcome.split prod.split)

interpretation guarded: panic_boundary contain
proof (unfold_locales, goal_cases)
  case (1 m s p)
  then show ?case
    by (cases "m s") (auto simp: contain_eq discard_panic_payload_eq split: outcome.splits)
next
  case (2 m s)
  then have "fst (m s) \<noteq> Aborts" "\<And>p. fst (m s) = Unwinds p \<Longrightarrow> payload_safe p"
    by (auto simp: exec_safe_def)
  then show ?case
    by (cases "m s")
      (auto simp: contain_eq discard_panic_payload_eq payload_safe_def split: outcome.split)
next
  case (3 obs m s)
  then have "obs (snd (m s)) = obs s"
    and "\<And>p s'. fst (m s) = Unwinds p \<Longrightarrow> obs (snd (drop_payload p s')) = obs s'"
    by (auto simp: exec_keeps_def)
  then show ?case
    by (cases "m s") (auto simp: contain_eq discard_panic_payload_eq split: outcome.split)
qed

lemma contain_keeps:
  assumes "exec_keeps obs m"
  shows "obs (snd (contain m s)) = obs s"
proof -
  have "exec_keeps (\<lambda>s'. obs s' = obs s) m"
    using assms by (simp add: exec_keeps_def)
  from guarded.guard_keeps [OF this, of s] show ?thesis
    by simp
qed

lemma exec_keeps_contain: "exec_keeps obs m \<Longrightarrow> exec_keeps obs (contain m)"
  by (simp add: exec_keeps_def [of obs "contain m"] contain_keeps guarded.guard_no_unwind)

end
