(* ===== verification/Service_State.thy ===== *)
theory Service_State
  imports Btree_Queue Unwind
begin

text \<open>
  The bounded scheduling state of the service: \<open>RayonExecutorServiceInner\<close>
  (\<open>src/internal/rayon_executor_service_inner.rs\<close>) and the part of every method of
  \<open>RayonExecutorServiceState\<close> (\<open>src/rayon_executor_service_state.rs\<close>) that runs under the state
  mutex. Each operation is a function on the locked record. Besides its result it yields the
  \<open>signals\<close> it raises: whether \<open>terminated.notify_all()\<close> is called before the unlock, and with
  which arguments \<open>notify_async_changes\<close> is called after it. \<open>inner_ok\<close> is the invariant of the
  record; every operation preserves it under the ownership its caller has.
\<close>

section \<open>Data\<close>

text \<open>
  The enumerations of the \<open>qubit_executor\<close> interface, with the variants the crate names.
\<close>

datatype executor_service_lifecycle = Running | ShuttingDown | Stopping | Terminated

text \<open>The order in which a service goes through its lifecycle.\<close>

fun lifecycle_rank :: "executor_service_lifecycle \<Rightarrow> nat" where
  "lifecycle_rank Running = 0"
| "lifecycle_rank ShuttingDown = 1"
| "lifecycle_rank Stopping = 2"
| "lifecycle_rank Terminated = 3"

lemma lifecycle_rank_inject: "lifecycle_rank a = lifecycle_rank b \<longleftrightarrow> a = b"
  by (cases a; cases b) simp_all

instantiation executor_service_lifecycle :: linorder
begin

definition less_eq_executor_service_lifecycle ::
  "executor_service_lifecycle \<Rightarrow> executor_service_lifecycle \<Rightarrow> bool" where
  "less_eq_executor_service_lifecycle a b \<longleftrightarrow> lifecycle_rank a \<le> lifecycle_rank b"

definition less_executor_service_lifecycle ::
  "executor_service_lifecycle \<Rightarrow> executor_service_lifecycle \<Rightarrow> bool" where
  "less_executor_service_lifecycle a b \<longleftrightarrow> lifecycle_rank a < lifecycle_rank b"

instance
  by standard
    (auto simp: less_eq_executor_service_lifecycle_def less_executor_service_lifecycle_def
      lifecycle_rank_inject)

end

lemma lifecycle_le_simps [simp]:
  "Running \<le> l" "l \<le> Terminated" "ShuttingDown \<le> Stopping"
  "l \<le> Running \<longleftrightarrow> l = Running" "Terminated \<le> l \<longleftrightarrow> l = Terminated"
  by (cases l; simp add: less_eq_executor_service_lifecycle_def)+

datatype submission_error = Shutdown | Saturated

record stop_report =
  report_queued :: usize
  report_running :: usize
  report_cancelled :: usize

record 'job rayon_executor_service_inner =
  lifecycle :: executor_service_lifecycle
  task_capacity :: usize
  num_threads :: usize
  next_task_id :: usize
  running :: usize
  running_tasks :: "usize set"
  scheduled :: usize
  queue :: "(usize, 'job) btree_map"
  cancelling :: "usize set"

record admission =
  admitted_task_id :: usize
  dispatch_count :: usize

datatype 'job cancel_disposition = Owned 'job | InProgress | Absent

record rayon_executor_service_stats =
  stats_lifecycle :: executor_service_lifecycle
  stats_task_capacity :: usize
  stats_queued :: usize
  stats_running :: usize
  stats_cancelling :: usize

record signals =
  wake_all :: bool
  async_changes :: "(bool \<times> bool) option"

section \<open>Operations under the lock\<close>

definition new_state :: "usize \<Rightarrow> usize \<Rightarrow> 'job rayon_executor_service_inner" where
  "new_state capacity threads =
     \<lparr>lifecycle = Running, task_capacity = capacity, num_threads = threads, next_task_id = 0,
      running = 0, running_tasks = {}, scheduled = 0, queue = [], cancelling = {}\<rparr>"

definition occupied :: "'job rayon_executor_service_inner \<Rightarrow> usize" where
  "occupied s = list_len (queue s) + running s + set_len (cancelling s)"

text \<open>The predicate \<open>lifecycle != Running && occupied == 0\<close> that the source writes inline.\<close>

definition drained :: "'job rayon_executor_service_inner \<Rightarrow> bool" where
  "drained s \<longleftrightarrow> lifecycle s \<noteq> Running \<and> occupied s = 0"

definition observed_lifecycle ::
  "'job rayon_executor_service_inner \<Rightarrow> executor_service_lifecycle" where
  "observed_lifecycle s =
     (if lifecycle s \<noteq> Running \<and> occupied s = 0 then Terminated else lifecycle s)"

definition stats :: "'job rayon_executor_service_inner \<Rightarrow> rayon_executor_service_stats" where
  "stats s =
     \<lparr>stats_lifecycle =
        (if lifecycle s \<noteq> Running \<and> occupied s = 0 then Terminated else lifecycle s),
      stats_task_capacity = task_capacity s,
      stats_queued = list_len (queue s),
      stats_running = running s,
      stats_cancelling = set_len (cancelling s)\<rparr>"

definition is_not_running :: "'job rayon_executor_service_inner \<Rightarrow> bool" where
  "is_not_running s \<longleftrightarrow> lifecycle s \<noteq> Running"

definition is_running_task :: "usize \<Rightarrow> 'job rayon_executor_service_inner \<Rightarrow> bool" where
  "is_running_task task_id s \<longleftrightarrow> task_id \<in> running_tasks s"

definition notify_if_terminated_locked :: "'job rayon_executor_service_inner \<Rightarrow> bool" where
  "notify_if_terminated_locked s = (if lifecycle s \<noteq> Running \<and> occupied s = 0 then True else False)"

text \<open>
  \<open>accept\<close> is the job's own \<open>accept\<close> method, called while the mutex is held; \<open>x\<close> is the state of
  the result endpoints it publishes to. An exhausted identifier counter panics before anything is
  written; a panicking \<open>accept\<close> leaves the identifier consumed and the job out of the queue.
\<close>

definition admit ::
  "('job \<Rightarrow> ('x, unit) exec) \<Rightarrow> 'job \<Rightarrow> 'job rayon_executor_service_inner \<Rightarrow> 'x \<Rightarrow>
     (submission_error + admission, 'x payload) outcome \<times> 'job rayon_executor_service_inner \<times> 'x"
  where
  "admit accept job s x =
     (if lifecycle s \<noteq> Running then (Returns (Inl Shutdown), s, x)
      else if occupied s \<ge> task_capacity s then (Returns (Inl Saturated), s, x)
      else
        let task_id = next_task_id s
        in case checked_add (next_task_id s) 1 of
             None \<Rightarrow> (Unwinds message_payload, s, x)
           | Some next \<Rightarrow>
               let s1 = s\<lparr>next_task_id := next\<rparr>
               in case accept job x of
                    (Unwinds p, x') \<Rightarrow> (Unwinds p, s1, x')
                  | (Aborts, x') \<Rightarrow> (Aborts, s1, x')
                  | (Returns _, x') \<Rightarrow>
                      let q = btree_insert task_id job (queue s1);
                          count = min (list_len q) (saturating_sub (num_threads s1) (scheduled s1))
                      in (Returns (Inr \<lparr>admitted_task_id = task_id, dispatch_count = count\<rparr>),
                          s1\<lparr>queue := q, scheduled := scheduled s1 + count\<rparr>, x'))"

definition take_next ::
  "'job rayon_executor_service_inner \<Rightarrow>
     (usize \<times> 'job) option \<times> signals \<times> 'job rayon_executor_service_inner" where
  "take_next s =
     (case btree_pop_first (queue s) of
        None \<Rightarrow>
          let s1 = s\<lparr>scheduled := saturating_sub (scheduled s) 1\<rparr>;
              terminated = notify_if_terminated_locked s1
          in (None, \<lparr>wake_all = terminated, async_changes = Some (False, terminated)\<rparr>, s1)
      | Some ((task_id, job), q) \<Rightarrow>
          (Some (task_id, job), \<lparr>wake_all = False, async_changes = None\<rparr>,
           s\<lparr>queue := q, running := running s + 1,
             running_tasks := insert task_id (running_tasks s)\<rparr>))"

definition finish_running ::
  "usize \<Rightarrow> 'job rayon_executor_service_inner \<Rightarrow>
     bool \<times> signals \<times> 'job rayon_executor_service_inner" where
  "finish_running task_id s =
     (let s1 = s\<lparr>running_tasks := running_tasks s - {task_id},
                 running := saturating_sub (running s) 1\<rparr>;
          dispatch = (queue s1 \<noteq> []);
          s2 = (if dispatch then s1 else s1\<lparr>scheduled := saturating_sub (scheduled s1) 1\<rparr>);
          terminated = notify_if_terminated_locked s2
      in (dispatch, \<lparr>wake_all = terminated, async_changes = Some (True, terminated)\<rparr>, s2))"

definition cancel_pending_task ::
  "usize \<Rightarrow> 'job rayon_executor_service_inner \<Rightarrow>
     'job cancel_disposition \<times> 'job rayon_executor_service_inner" where
  "cancel_pending_task task_id s =
     (case btree_remove task_id (queue s) of
        (Some job, q) \<Rightarrow>
          (Owned job, s\<lparr>queue := q, cancelling := insert task_id (cancelling s)\<rparr>)
      | (None, q) \<Rightarrow>
          if task_id \<in> cancelling s then (InProgress, s) else (Absent, s))"

definition finish_cancelling ::
  "usize \<Rightarrow> 'job rayon_executor_service_inner \<Rightarrow>
     unit \<times> signals \<times> 'job rayon_executor_service_inner" where
  "finish_cancelling task_id s =
     (let s1 = s\<lparr>cancelling := cancelling s - {task_id}\<rparr>;
          terminated = notify_if_terminated_locked s1
      in ((), \<lparr>wake_all = True, async_changes = Some (True, terminated)\<rparr>, s1))"

definition shutdown ::
  "'job rayon_executor_service_inner \<Rightarrow>
     unit \<times> signals \<times> 'job rayon_executor_service_inner" where
  "shutdown s =
     (let s1 = (if lifecycle s = Running then s\<lparr>lifecycle := ShuttingDown\<rparr> else s);
          terminated = notify_if_terminated_locked s1
      in ((), \<lparr>wake_all = terminated, async_changes = Some (True, terminated)\<rparr>, s1))"

fun claim_all :: "(usize \<times> 'job) list \<Rightarrow> usize set \<Rightarrow> (usize \<times> 'job) list \<Rightarrow>
    usize set \<times> (usize \<times> 'job) list" where
  "claim_all [] claimed owned = (claimed, owned)"
| "claim_all ((task_id, job) # jobs) claimed owned =
     claim_all jobs (insert task_id claimed) (owned @ [(task_id, job)])"

definition stop ::
  "'job rayon_executor_service_inner \<Rightarrow>
     (stop_report \<times> (usize \<times> 'job) list) \<times> signals \<times> 'job rayon_executor_service_inner" where
  "stop s =
     (let queued = list_len (queue s);
          running_now = running s;
          (claimed, owned) = claim_all (queue s) (cancelling s) [];
          s1 = s\<lparr>lifecycle := Stopping, queue := [], cancelling := claimed\<rparr>;
          terminated = notify_if_terminated_locked s1
      in ((\<lparr>report_queued = queued, report_running = running_now,
            report_cancelled = list_len owned\<rparr>, owned),
          \<lparr>wake_all = terminated, async_changes = Some (True, terminated)\<rparr>, s1))"

section \<open>The invariant of the locked record\<close>

text \<open>
  \<open>tasks_ok\<close>: a task is in at most one of the queue, the running set and the cancelling set, and
  was given an identifier below the next one. \<open>counters_ok\<close>: the counters agree with the sets and
  stay within the configured limits, as natural numbers, so no machine addition wraps and no
  saturating subtraction saturates. \<open>work_conserving\<close>: either every worker reservation is taken or
  there is an idle reservation for every queued job.
\<close>

definition tasks_ok :: "'job rayon_executor_service_inner \<Rightarrow> bool" where
  "tasks_ok s \<longleftrightarrow>
     btree_ok (queue s) \<and> finite (running_tasks s) \<and> finite (cancelling s) \<and>
     btree_keys (queue s) \<inter> running_tasks s = {} \<and>
     btree_keys (queue s) \<inter> cancelling s = {} \<and>
     running_tasks s \<inter> cancelling s = {} \<and>
     (\<forall>i \<in> btree_keys (queue s) \<union> running_tasks s \<union> cancelling s. i < next_task_id s)"

definition counters_ok :: "'job rayon_executor_service_inner \<Rightarrow> bool" where
  "counters_ok s \<longleftrightarrow>
     unat (running s) = card (running_tasks s) \<and>
     unat (running s) \<le> unat (scheduled s) \<and>
     unat (scheduled s) \<le> unat (num_threads s) \<and>
     length (queue s) + unat (running s) + card (cancelling s) \<le> unat (task_capacity s)"

definition work_conserving :: "'job rayon_executor_service_inner \<Rightarrow> bool" where
  "work_conserving s \<longleftrightarrow>
     unat (scheduled s) = unat (num_threads s) \<or>
     length (queue s) + unat (running s) \<le> unat (scheduled s)"

definition inner_ok :: "'job rayon_executor_service_inner \<Rightarrow> bool" where
  "inner_ok s \<longleftrightarrow> tasks_ok s \<and> counters_ok s \<and> work_conserving s"

lemmas inner_ok_defs = inner_ok_def tasks_ok_def counters_ok_def work_conserving_def

lemma inner_okD:
  assumes "inner_ok s"
  shows "btree_ok (queue s)" and "finite (running_tasks s)" and "finite (cancelling s)"
    and "unat (running s) = card (running_tasks s)"
    and "length (queue s) + unat (running s) + card (cancelling s) \<le> unat (task_capacity s)"
    and "tasks_ok s" and "counters_ok s" and "work_conserving s"
  using assms by (auto simp: inner_ok_def tasks_ok_def counters_ok_def)

lemma inner_okI: "tasks_ok s \<Longrightarrow> counters_ok s \<Longrightarrow> work_conserving s \<Longrightarrow> inner_ok s"
  by (simp add: inner_ok_def)

lemma new_state_ok: "inner_ok (new_state capacity threads)"
  by (simp add: new_state_def inner_ok_defs)

lemma unat_occupied:
  assumes "inner_ok s"
  shows "unat (occupied s) = length (queue s) + unat (running s) + card (cancelling s)"
proof -
  note bound = inner_okD(5) [OF assms]
  have q: "unat (list_len (queue s)) = length (queue s)"
    using bound by (intro unat_list_len [where c = "task_capacity s"]) simp
  have c: "unat (set_len (cancelling s)) = card (cancelling s)"
    using bound by (intro unat_set_len [where c = "task_capacity s"]) simp
  have qr: "unat (list_len (queue s) + running s) = length (queue s) + unat (running s)"
    using bound q by (subst unat_add_le_word [where c = "task_capacity s"]) auto
  show ?thesis
    unfolding occupied_def
    using bound q c qr by (subst unat_add_le_word [where c = "task_capacity s"]) auto
qed

lemma occupied_zero:
  assumes "inner_ok s"
  shows "occupied s = 0 \<longleftrightarrow> queue s = [] \<and> running_tasks s = {} \<and> cancelling s = {}"
  using unat_occupied [OF assms] inner_okD(2-4) [OF assms]
  by (auto simp: usize_eq_0_iff)

lemma drained_iff:
  assumes "inner_ok s"
  shows "drained s \<longleftrightarrow>
     lifecycle s \<noteq> Running \<and> queue s = [] \<and> running_tasks s = {} \<and> cancelling s = {}"
  using occupied_zero [OF assms] by (simp add: drained_def)

lemma notify_if_terminated_locked_eq [simp]: "notify_if_terminated_locked s = drained s"
  by (simp add: notify_if_terminated_locked_def drained_def)

lemma observed_lifecycle_eq:
  "observed_lifecycle s = (if drained s then Terminated else lifecycle s)"
  by (simp add: observed_lifecycle_def drained_def)

section \<open>Every branch of the operations\<close>

lemma admit_cases:
  assumes "admit accept job s x = (r, s', x')"
  obtains
    (shut) "lifecycle s \<noteq> Running" "r = Returns (Inl Shutdown)" "s' = s" "x' = x"
  | (full) "lifecycle s = Running" "task_capacity s \<le> occupied s"
      "r = Returns (Inl Saturated)" "s' = s" "x' = x"
  | (exhausted) "lifecycle s = Running" "occupied s < task_capacity s"
      "Suc (unat (next_task_id s)) = 2 ^ 64"
      "r = Unwinds message_payload" "s' = s" "x' = x"
  | (accept_fails) "lifecycle s = Running" "occupied s < task_capacity s"
      "unat (next_task_id s + 1) = Suc (unat (next_task_id s))"
      "\<And>a. r \<noteq> Returns a" "\<And>a. fst (accept job x) \<noteq> Returns a"
      "s' = s\<lparr>next_task_id := next_task_id s + 1\<rparr>" "x' = snd (accept job x)"
  | (admitted) count where "lifecycle s = Running" "occupied s < task_capacity s"
      "unat (next_task_id s + 1) = Suc (unat (next_task_id s))"
      "accept job x = (Returns (), x')"
      "count = min (list_len (btree_insert (next_task_id s) job (queue s)))
                   (saturating_sub (num_threads s) (scheduled s))"
      "r = Returns (Inr \<lparr>admitted_task_id = next_task_id s, dispatch_count = count\<rparr>)"
      "s' = s\<lparr>next_task_id := next_task_id s + 1,
               queue := btree_insert (next_task_id s) job (queue s),
               scheduled := scheduled s + count\<rparr>"
proof (cases "lifecycle s \<noteq> Running \<or> task_capacity s \<le> occupied s")
  case True
  then show ?thesis
    using assms shut full by (auto simp: admit_def split: if_splits)
next
  case False
  show ?thesis
  proof (cases "checked_add (next_task_id s) 1")
    case None
    then have "Suc (unat (next_task_id s)) = 2 ^ 64"
      using unat_less_64 [of "next_task_id s"] by (simp add: checked_add_None)
    with None False assms exhausted show ?thesis
      by (auto simp: admit_def not_le split: if_splits)
  next
    case (Some n)
    then have n: "n = next_task_id s + 1" "unat n = Suc (unat (next_task_id s))"
      by (auto dest: checked_add_Some)
    obtain o1 x1 where acc: "accept job x = (o1, x1)"
      by fastforce
    show ?thesis
    proof (cases o1)
      case (Returns u)
      show ?thesis
        using False Some n acc Returns assms admitted
        by (auto simp: admit_def not_le Let_def split: if_splits)
    qed (use False Some n acc assms accept_fails in
        \<open>auto simp: admit_def not_le Let_def split: if_splits\<close>)
  qed
qed

lemma take_next_None:
  "take_next s = (None, sg, s') \<longleftrightarrow>
     queue s = [] \<and> s' = s\<lparr>scheduled := saturating_sub (scheduled s) 1\<rparr> \<and>
     sg = \<lparr>wake_all = drained s', async_changes = Some (False, drained s')\<rparr>"
  by (cases "queue s") (auto simp: take_next_def Let_def)

lemma take_next_Some:
  "take_next s = (Some (task_id, job), sg, s') \<longleftrightarrow>
     (\<exists>q. queue s = (task_id, job) # q \<and>
       s' = s\<lparr>queue := q, running := running s + 1,
              running_tasks := insert task_id (running_tasks s)\<rparr> \<and>
       sg = \<lparr>wake_all = False, async_changes = None\<rparr>)"
  by (cases "queue s") (auto simp: take_next_def Let_def)

lemma finish_running_eq:
  "finish_running task_id s =
     (let s1 = s\<lparr>running_tasks := running_tasks s - {task_id},
                 running := saturating_sub (running s) 1,
                 scheduled := (if queue s = [] then saturating_sub (scheduled s) 1
                               else scheduled s)\<rparr>
      in (queue s \<noteq> [], \<lparr>wake_all = drained s1, async_changes = Some (True, drained s1)\<rparr>, s1))"
  by (simp add: finish_running_def Let_def)

lemma cancel_pending_task_cases:
  assumes "cancel_pending_task task_id s = (d, s')"
  obtains
    (owned) job where "map_of (queue s) task_id = Some job" "d = Owned job"
      "s' = s\<lparr>queue := filter (\<lambda>p. fst p \<noteq> task_id) (queue s),
               cancelling := insert task_id (cancelling s)\<rparr>"
  | (in_progress) "task_id \<notin> btree_keys (queue s)" "task_id \<in> cancelling s"
      "d = InProgress" "s' = s"
  | (absent) "task_id \<notin> btree_keys (queue s)" "task_id \<notin> cancelling s" "d = Absent" "s' = s"
  using assms
  by (auto simp: cancel_pending_task_def btree_remove_def btree_keys_def map_of_eq_None_iff
      split: option.splits if_splits)

lemma claim_all_eq: "claim_all jobs claimed owned = (claimed \<union> btree_keys jobs, owned @ jobs)"
  by (induction jobs claimed owned rule: claim_all.induct) auto

lemma stop_eq:
  "stop s =
     (let s1 = s\<lparr>lifecycle := Stopping, queue := [],
                 cancelling := cancelling s \<union> btree_keys (queue s)\<rparr>
      in ((\<lparr>report_queued = list_len (queue s), report_running = running s,
            report_cancelled = list_len (queue s)\<rparr>, queue s),
          \<lparr>wake_all = drained s1, async_changes = Some (True, drained s1)\<rparr>, s1))"
  by (simp add: stop_def claim_all_eq Let_def)

section \<open>Every operation preserves the invariant\<close>

lemma fresh_id:
  assumes "inner_ok s"
  shows "next_task_id s \<notin> btree_keys (queue s)" and "next_task_id s \<notin> running_tasks s"
    and "next_task_id s \<notin> cancelling s"
  using assms by (auto simp: inner_ok_defs)

lemma less_next_id:
  "unat (n + 1 :: usize) = Suc (unat n) \<Longrightarrow> i < n + 1 \<longleftrightarrow> i < n \<or> i = n"
  by (simp only: word_less_nat_alt word_unat_eq_iff less_Suc_eq)

lemma admit_ok:
  assumes ok: "inner_ok s" and adm: "admit accept job s x = (r, s', x')"
  shows "inner_ok s'"
  using adm
proof (cases rule: admit_cases)
  case accept_fails
  have "tasks_ok s'"
    using inner_okD(6) [OF ok]
    by (auto simp: tasks_ok_def accept_fails(6) less_next_id [OF accept_fails(3)])
  then show ?thesis
    using inner_okD(7,8) [OF ok]
    by (intro inner_okI) (simp_all add: counters_ok_def work_conserving_def accept_fails(6))
next
  case (admitted count)
  let ?q = "btree_insert (next_task_id s) job (queue s)"
  have len: "length ?q = Suc (length (queue s))"
    using fresh_id(1) [OF ok] by (rule length_btree_insert_fresh)
  have room: "Suc (length (queue s) + unat (running s) + card (cancelling s))
      \<le> unat (task_capacity s)"
    using admitted(2) unat_occupied [OF ok] by (simp add: word_less_nat_alt)
  have ulen: "unat (list_len ?q) = Suc (length (queue s))"
    using room len unat_list_len [of ?q "task_capacity s"] by simp
  have ucount: "unat count =
      min (Suc (length (queue s))) (unat (num_threads s) - unat (scheduled s))"
    by (simp add: admitted(5) unat_min unat_saturating_sub ulen)
  have limit: "unat (scheduled s) \<le> unat (num_threads s)"
    using inner_okD(7) [OF ok] by (simp add: counters_ok_def)
  have sched: "unat (scheduled s + count) = unat (scheduled s) + unat count"
    using limit ucount by (intro unat_add_le_word [where c = "num_threads s"]) linarith
  have "tasks_ok s'"
    using inner_okD(6) [OF ok] fresh_id [OF ok]
    by (auto simp: tasks_ok_def admitted(7) btree_ok_insert less_next_id [OF admitted(3)])
  moreover have "counters_ok s'"
    using inner_okD(7) [OF ok] room
    by (auto simp: counters_ok_def admitted(7) len sched ucount min_def)
  moreover have "work_conserving s'"
    using inner_okD(7) [OF ok] limit
    unfolding counters_ok_def work_conserving_def admitted(7)
    by (simp add: len sched ucount) linarith
  ultimately show ?thesis
    by (rule inner_okI)
qed (use ok in auto)

lemma admit_effect:
  assumes ok: "inner_ok s" and adm: "admit accept job s x = (r, s', x')"
  shows "(lifecycle s \<noteq> Running \<longrightarrow> r = Returns (Inl Shutdown) \<and> s' = s \<and> x' = x) \<and>
    (lifecycle s = Running \<and> task_capacity s \<le> occupied s \<longrightarrow>
       r = Returns (Inl Saturated) \<and> s' = s \<and> x' = x) \<and>
    (lifecycle s = Running \<and> occupied s < task_capacity s \<and> next_task_id s = - 1 \<longrightarrow>
       r = Unwinds message_payload \<and> s' = s \<and> x' = x) \<and>
    (\<forall>a. r = Returns (Inr a) \<longrightarrow>
       lifecycle s = Running \<and> occupied s < task_capacity s \<and>
       accept job x = (Returns (), x') \<and> admitted_task_id a = next_task_id s \<and>
       queue s' = queue s @ [(next_task_id s, job)] \<and>
       unat (next_task_id s') = Suc (unat (next_task_id s)) \<and>
       unat (dispatch_count a) =
         min (Suc (length (queue s))) (unat (num_threads s) - unat (scheduled s)) \<and>
       unat (scheduled s') = unat (scheduled s) + unat (dispatch_count a)) \<and>
    ((\<forall>a. r \<noteq> Returns a) \<longrightarrow>
       queue s' = queue s \<and> scheduled s' = scheduled s \<and> occupied s' = occupied s)"
  using adm
proof (cases rule: admit_cases)
  case accept_fails
  then have "next_task_id s \<noteq> - 1"
    by auto
  with accept_fails show ?thesis
    by (auto simp: occupied_def)
next
  case (admitted count)
  have "\<forall>j \<in> btree_keys (queue s). j < next_task_id s"
    using inner_okD(6) [OF ok] by (auto simp: tasks_ok_def)
  then have last: "btree_insert (next_task_id s) job (queue s) = queue s @ [(next_task_id s, job)]"
    by (rule btree_insert_last)
  have "next_task_id s \<noteq> - 1"
    using admitted(3) by auto
  moreover have "Suc (length (queue s)) \<le> unat (task_capacity s)"
    using admitted(2) unat_occupied [OF ok] by (simp add: word_less_nat_alt)
  then have "unat (list_len (queue s @ [(next_task_id s, job)])) = Suc (length (queue s))"
    using unat_list_len [of "queue s @ [(next_task_id s, job)]" "task_capacity s"] by simp
  then have "unat count = min (Suc (length (queue s))) (unat (num_threads s) - unat (scheduled s))"
    by (simp add: admitted(5) last unat_min unat_saturating_sub)
  moreover from this have "unat (scheduled s + count) = unat (scheduled s) + unat count"
    using inner_okD(7) [OF ok]
    by (intro unat_add_le_word [where c = "num_threads s"]) (auto simp: counters_ok_def min_def)
  ultimately show ?thesis
    using admitted(1-4) by (auto simp: admitted(6,7) last)
qed (auto simp: not_le)

lemma take_next_idle_ok:
  assumes ok: "inner_ok s" and step: "take_next s = (None, sg, s')"
    and idle: "unat (running s) < unat (scheduled s)"
  shows "inner_ok s'"
proof -
  have s': "s' = s\<lparr>scheduled := saturating_sub (scheduled s) 1\<rparr>" and "queue s = []"
    using step by (simp_all add: take_next_None)
  then show ?thesis
    using inner_okD(6,7) [OF ok] idle
    by (intro inner_okI)
      (auto simp: tasks_ok_def counters_ok_def work_conserving_def unat_saturating_sub)
qed

lemma take_next_job_ok:
  assumes ok: "inner_ok s" and step: "take_next s = (Some (task_id, job), sg, s')"
    and idle: "unat (running s) < unat (scheduled s)"
  shows "inner_ok s'"
proof -
  from step obtain q where q: "queue s = (task_id, job) # q"
    and s': "s' = s\<lparr>queue := q, running := running s + 1,
                     running_tasks := insert task_id (running_tasks s)\<rparr>"
    by (auto simp: take_next_Some)
  have inc: "unat (running s + 1) = Suc (unat (running s))"
    using idle by (rule unat_inc_less)
  have fresh: "task_id \<notin> running_tasks s"
    using inner_okD(6) [OF ok] q by (auto simp: tasks_ok_def)
  have "tasks_ok s'"
    using inner_okD(6) [OF ok] q by (auto simp: s' tasks_ok_def btree_ok_Cons)
  moreover have "counters_ok s'"
    using inner_okD(2,7) [OF ok] q idle fresh by (simp add: s' counters_ok_def inc)
  moreover have "work_conserving s'"
    using inner_okD(8) [OF ok] q by (simp add: s' work_conserving_def inc)
  ultimately show ?thesis
    by (rule inner_okI)
qed

lemma finish_running_ok:
  assumes ok: "inner_ok s" and mem: "task_id \<in> running_tasks s"
    and step: "finish_running task_id s = (d, sg, s')"
  shows "inner_ok s'"
proof -
  have c: "unat (running s) = Suc (card (running_tasks s - {task_id}))"
    using inner_okD(2,4) [OF ok] card_remove_mem mem by metis
  have s': "s' = s\<lparr>running_tasks := running_tasks s - {task_id},
                   running := saturating_sub (running s) 1,
                   scheduled := (if queue s = [] then saturating_sub (scheduled s) 1
                                 else scheduled s)\<rparr>"
    using step by (simp add: finish_running_eq Let_def)
  have "tasks_ok s'"
    using inner_okD(6) [OF ok] by (auto simp: tasks_ok_def s')
  moreover have "counters_ok s'" and "work_conserving s'"
    using inner_okD(7,8) [OF ok] c
    by (auto simp: s' counters_ok_def work_conserving_def unat_saturating_sub
        simp del: card_Diff_insert)
  ultimately show ?thesis
    by (rule inner_okI)
qed

lemma cancel_pending_task_ok:
  assumes ok: "inner_ok s" and step: "cancel_pending_task task_id s = (d, s')"
  shows "inner_ok s'"
  using step
proof (cases rule: cancel_pending_task_cases)
  case (owned job)
  have mem: "task_id \<in> btree_keys (queue s)"
    using owned(1) by (rule map_of_btree_Some)
  have len: "length (queue s) = Suc (length (filter (\<lambda>p. fst p \<noteq> task_id) (queue s)))"
    using inner_okD(1) [OF ok] owned(1) by (rule length_filter_key)
  have fresh: "task_id \<notin> cancelling s" "task_id \<notin> running_tasks s"
    using inner_okD(6) [OF ok] mem by (auto simp: tasks_ok_def)
  have "tasks_ok s'"
    using inner_okD(6) [OF ok] mem fresh
    by (auto simp: owned(3) tasks_ok_def btree_ok_filter btree_keys_filter)
  moreover have "counters_ok s'" and "work_conserving s'"
    using inner_okD(3,7,8) [OF ok] len fresh
    by (auto simp: owned(3) counters_ok_def work_conserving_def)
  ultimately show ?thesis
    by (rule inner_okI)
qed (use ok in auto)

lemma finish_cancelling_ok:
  assumes ok: "inner_ok s" and mem: "task_id \<in> cancelling s"
    and step: "finish_cancelling task_id s = (u, sg, s')"
  shows "inner_ok s'"
proof -
  have s': "s' = s\<lparr>cancelling := cancelling s - {task_id}\<rparr>"
    using step by (auto simp: finish_cancelling_def Let_def)
  have "card (cancelling s - {task_id}) \<le> card (cancelling s)"
    by (rule card_Diff1_le)
  with inner_okD(6-8) [OF ok] show ?thesis
    by (intro inner_okI) (auto simp: s' tasks_ok_def counters_ok_def work_conserving_def
        simp del: card_Diff_insert)
qed

lemma shutdown_eq:
  "shutdown s =
     (let s1 = s\<lparr>lifecycle := (if lifecycle s = Running then ShuttingDown else lifecycle s)\<rparr>
      in ((), \<lparr>wake_all = drained s1, async_changes = Some (True, drained s1)\<rparr>, s1))"
  by (simp add: shutdown_def Let_def)

lemma inner_ok_lifecycle [simp]: "inner_ok (s\<lparr>lifecycle := l\<rparr>) = inner_ok s"
  by (simp add: inner_ok_defs)

lemma shutdown_ok: "inner_ok s \<Longrightarrow> shutdown s = (u, sg, s') \<Longrightarrow> inner_ok s'"
  by (auto simp: shutdown_eq Let_def)

lemma length_btree_keys: "btree_ok q \<Longrightarrow> card (btree_keys q) = length q"
  using distinct_card [OF btree_ok_distinct] by (fastforce simp: btree_keys_def)

lemma stop_ok:
  assumes ok: "inner_ok s" and step: "stop s = (r, sg, s')"
  shows "inner_ok s'"
proof -
  have s': "s' = s\<lparr>lifecycle := Stopping, queue := [],
                   cancelling := cancelling s \<union> btree_keys (queue s)\<rparr>"
    using step by (auto simp: stop_eq Let_def)
  have disj: "cancelling s \<inter> btree_keys (queue s) = {}"
    using inner_okD(6) [OF ok] by (auto simp: tasks_ok_def)
  have "card (cancelling s \<union> btree_keys (queue s)) = card (cancelling s) + length (queue s)"
    using inner_okD(1,3) [OF ok] disj by (simp add: card_Un_disjoint length_btree_keys)
  with inner_okD(6-8) [OF ok] show ?thesis
    by (intro inner_okI) (auto simp: s' tasks_ok_def counters_ok_def work_conserving_def)
qed

end
