(* ===== verification/Notifications.thy ===== *)
theory Notifications
  imports Service_State
begin

text \<open>
  Publication outside the lock (\<open>notify_async_changes\<close>, \<open>subscribe_termination\<close> and
  \<open>capacity_changes\<close> of \<open>src/rayon_executor_service_state.rs\<close>). The two
  \<open>tokio::sync::watch\<close> channels are third-party code: their operations are the parameter
  \<open>'x watch_api\<close> on an unknown state \<open>'x\<close>, and \<open>watch_laws\<close> states the documented behaviour the
  crate relies on (the closure passed to \<open>send_modify\<close> or \<open>send_if_modified\<close> is applied to the
  channel's value, even when a receiver's waker panics while it is notified). The feature
  \<open>async-wait\<close> is the \<open>option\<close> around the parameter: \<open>None\<close> is the build without it.
\<close>

record 'x watch_api =
  capacity_send_modify :: "(u64 \<Rightarrow> u64) \<Rightarrow> ('x, unit) exec"
  termination_send_if_modified :: "(bool \<Rightarrow> bool \<times> bool) \<Rightarrow> ('x, bool) exec"
  capacity_value :: "'x \<Rightarrow> u64"
  termination_value :: "'x \<Rightarrow> bool"

definition watch_laws :: "'x watch_api \<Rightarrow> bool" where
  "watch_laws w \<longleftrightarrow>
     (\<forall>f x. capacity_value w (snd (capacity_send_modify w f x)) = f (capacity_value w x)) \<and>
     (\<forall>f. exec_safe (capacity_send_modify w f)) \<and>
     (\<forall>f. exec_keeps (termination_value w) (capacity_send_modify w f)) \<and>
     (\<forall>f x p x'. fst (capacity_send_modify w f x) = Unwinds p \<longrightarrow>
        capacity_value w (snd (drop_payload p x')) = capacity_value w x') \<and>
     (\<forall>f x. termination_value w (snd (termination_send_if_modified w f x)) =
        fst (f (termination_value w x))) \<and>
     (\<forall>f. exec_safe (termination_send_if_modified w f)) \<and>
     (\<forall>f. exec_keeps (capacity_value w) (termination_send_if_modified w f)) \<and>
     (\<forall>f x p x'. fst (termination_send_if_modified w f x) = Unwinds p \<longrightarrow>
        termination_value w (snd (drop_payload p x')) = termination_value w x')"

text \<open>The closures the crate passes: the generation counter wraps, the flag is raised once.\<close>

definition next_generation :: "u64 \<Rightarrow> u64" where
  "next_generation generation = generation + 1"

definition raise_once :: "bool \<Rightarrow> bool \<times> bool" where
  "raise_once current = (if current then (current, False) else (True, True))"

definition notify_async_changes ::
  "'x watch_api option \<Rightarrow> bool \<Rightarrow> bool \<Rightarrow> ('x, unit) exec" where
  "notify_async_changes watch capacity_changed terminated =
     (case watch of
        None \<Rightarrow> exec_return ()
      | Some w \<Rightarrow>
          exec_bind
            (if capacity_changed then contain (capacity_send_modify w next_generation)
             else exec_return ())
            (\<lambda>_. if terminated then contain (termination_send_if_modified w raise_once)
                 else exec_return ()))"

text \<open>The two writes are independent calls, one after the other.\<close>

lemma notify_async_changes_split:
  "notify_async_changes watch c t =
     exec_bind (if c then notify_async_changes watch True False else exec_return ())
       (\<lambda>_. if t then notify_async_changes watch False True else exec_return ())"
  by (cases watch) (auto simp: notify_async_changes_def exec_bind_def fun_eq_iff
      split: prod.split outcome.split)

definition publish_signals :: "'x watch_api option \<Rightarrow> signals \<Rightarrow> ('x, unit) exec" where
  "publish_signals watch sg =
     (case async_changes sg of
        None \<Rightarrow> exec_return ()
      | Some (capacity_changed, terminated) \<Rightarrow>
          notify_async_changes watch capacity_changed terminated)"

text \<open>
  A subscription taken before the state is examined; \<open>subscribe\<close> is \<open>watch::Sender::subscribe\<close>.
  Between the two, other threads may run: the state examined is the argument \<open>s\<close>.
\<close>

definition subscribe_termination ::
  "'x watch_api \<Rightarrow> ('x, 'rx) exec \<Rightarrow> 'job rayon_executor_service_inner \<Rightarrow> ('x, 'rx) exec" where
  "subscribe_termination w subscribe s =
     exec_bind subscribe
       (\<lambda>receiver. exec_bind
          (if lifecycle s \<noteq> Running \<and> occupied s = 0
           then contain (termination_send_if_modified w raise_once) else exec_return ())
          (\<lambda>_. exec_return receiver))"

section \<open>What a publication does to the channels\<close>

lemma watch_lawsD:
  assumes "watch_laws w"
  shows "capacity_value w (snd (capacity_send_modify w f x)) = f (capacity_value w x)"
    and "exec_safe (capacity_send_modify w f)"
    and "exec_keeps (termination_value w) (capacity_send_modify w f)"
    and "fst (capacity_send_modify w f x) = Unwinds p \<Longrightarrow>
      capacity_value w (snd (drop_payload p x')) = capacity_value w x'"
    and "termination_value w (snd (termination_send_if_modified w g x)) =
      fst (g (termination_value w x))"
    and "exec_safe (termination_send_if_modified w g)"
    and "exec_keeps (capacity_value w) (termination_send_if_modified w g)"
    and "fst (termination_send_if_modified w g x) = Unwinds p \<Longrightarrow>
      termination_value w (snd (drop_payload p x')) = termination_value w x'"
  using assms by (auto simp: watch_laws_def)

lemma contain_capacity_send:
  assumes "watch_laws w"
  shows "capacity_value w (snd (contain (capacity_send_modify w f) x)) = f (capacity_value w x)"
    and "termination_value w (snd (contain (capacity_send_modify w f) x)) = termination_value w x"
    and "fst (contain (capacity_send_modify w f) x) = Returns ()"
proof -
  note laws = watch_lawsD [OF assms]
  show "capacity_value w (snd (contain (capacity_send_modify w f) x)) = f (capacity_value w x)"
    using laws(1) [of f x] laws(4) [of f x]
    by (cases "capacity_send_modify w f x")
      (auto simp: contain_eq discard_panic_payload_eq split: outcome.split)
  show "termination_value w (snd (contain (capacity_send_modify w f) x)) = termination_value w x"
    by (rule contain_keeps [OF laws(3)])
  show "fst (contain (capacity_send_modify w f) x) = Returns ()"
    by (rule guarded.guard_safe [OF laws(2)])
qed

lemma contain_termination_send:
  assumes "watch_laws w"
  shows "termination_value w (snd (contain (termination_send_if_modified w f) x)) =
      fst (f (termination_value w x))"
    and "capacity_value w (snd (contain (termination_send_if_modified w f) x)) = capacity_value w x"
    and "fst (contain (termination_send_if_modified w f) x) = Returns ()"
proof -
  note laws = watch_lawsD [OF assms]
  show "termination_value w (snd (contain (termination_send_if_modified w f) x)) =
      fst (f (termination_value w x))"
    using laws(5) [of f x] laws(8) [of f x]
    by (cases "termination_send_if_modified w f x")
      (auto simp: contain_eq discard_panic_payload_eq split: outcome.split)
  show "capacity_value w (snd (contain (termination_send_if_modified w f) x)) = capacity_value w x"
    by (rule contain_keeps [OF laws(7)])
  show "fst (contain (termination_send_if_modified w f) x) = Returns ()"
    by (rule guarded.guard_safe [OF laws(6)])
qed

lemma fst_raise_once [simp]: "fst (raise_once b)"
  by (simp add: raise_once_def)

lemma notify_async_changes_effect:
  assumes "watch_laws w" and "notify_async_changes (Some w) c t x = (r, x')"
  shows "r = Returns ()"
    and "capacity_value w x' = (if c then capacity_value w x + 1 else capacity_value w x)"
    and "termination_value w x' \<longleftrightarrow> t \<or> termination_value w x"
proof -
  define m where "m = (if c then contain (capacity_send_modify w next_generation)
    else exec_return ())"
  have m: "fst (m x) = Returns ()"
    "capacity_value w (snd (m x)) = (if c then capacity_value w x + 1 else capacity_value w x)"
    "termination_value w (snd (m x)) = termination_value w x"
    using contain_capacity_send [OF assms(1)]
    by (auto simp: m_def next_generation_def)
  have "notify_async_changes (Some w) c t x =
      (if t then contain (termination_send_if_modified w raise_once) (snd (m x))
       else (Returns (), snd (m x)))"
    using m(1) by (cases "m x") (simp add: notify_async_changes_def exec_bind_def flip: m_def)
  with assms(2) m contain_termination_send [OF assms(1), of raise_once "snd (m x)"]
  show "r = Returns ()"
    and "capacity_value w x' = (if c then capacity_value w x + 1 else capacity_value w x)"
    and "termination_value w x' \<longleftrightarrow> t \<or> termination_value w x"
    by (auto simp: prod_eq_iff split: if_splits)
qed

section \<open>Whom a write notifies\<close>

text \<open>
  A receiver of the termination channel as its \<open>wait_for\<close> sees it: not handed out yet, with a version
  of the value it has not looked at (a wait looks at the value it finds when it begins, too), or
  having looked at the last version. tokio notifies the receivers, and makes the version a new one,
  exactly if the closure of \<open>send_if_modified\<close> returns \<open>true\<close>; a change of the value alone does not.
  The wakers that a notification calls cannot panic: the crate's futures register proxies.
\<close>

datatype receiver_state = Unused | Unexamined | Examined

definition notify_laws :: "'x watch_api \<Rightarrow> ('rx \<Rightarrow> 'x \<Rightarrow> receiver_state) \<Rightarrow> bool" where
  "notify_laws w st \<longleftrightarrow>
     (\<forall>rx f x. st rx (snd (termination_send_if_modified w f x)) =
        (if snd (f (termination_value w x)) \<and> st rx x \<noteq> Unused then Unexamined else st rx x)) \<and>
     (\<forall>rx f x p x'. fst (termination_send_if_modified w f x) = Unwinds p \<longrightarrow>
        st rx (snd (drop_payload p x')) = st rx x') \<and>
     (\<forall>rx f. exec_keeps (st rx) (capacity_send_modify w f))"

lemma notify_lawsD:
  assumes "notify_laws w st"
  shows "st rx (snd (termination_send_if_modified w f x)) =
      (if snd (f (termination_value w x)) \<and> st rx x \<noteq> Unused then Unexamined else st rx x)"
    and "fst (termination_send_if_modified w f x) = Unwinds p \<Longrightarrow>
      st rx (snd (drop_payload p x')) = st rx x'"
    and "exec_keeps (st rx) (capacity_send_modify w g)"
  using assms by (auto simp: notify_laws_def)

text \<open>The closure \<open>raise_once\<close> reports a modification when, and only when, it raises the flag.\<close>

lemma snd_raise_once [simp]: "snd (raise_once b) \<longleftrightarrow> \<not> b"
  by (simp add: raise_once_def)

lemma contain_termination_notifies:
  assumes "notify_laws w st"
  shows "st rx (snd (contain (termination_send_if_modified w raise_once) x)) =
    (if \<not> termination_value w x \<and> st rx x \<noteq> Unused then Unexamined else st rx x)"
  using notify_lawsD(1) [OF assms, of rx raise_once x] notify_lawsD(2) [OF assms, of raise_once x]
  by (cases "termination_send_if_modified w raise_once x")
    (auto simp: contain_eq discard_panic_payload_eq split: outcome.split)

lemma notify_async_changes_notifies:
  assumes laws: "watch_laws w" and notify: "notify_laws w st"
    and n: "notify_async_changes (Some w) c t x = (r, x')"
  shows "st rx x' =
    (if t \<and> \<not> termination_value w x \<and> st rx x \<noteq> Unused then Unexamined else st rx x)"
proof -
  define m where "m = (if c then contain (capacity_send_modify w next_generation)
    else exec_return ())"
  have m: "fst (m x) = Returns ()" "termination_value w (snd (m x)) = termination_value w x"
    "st rx (snd (m x)) = st rx x"
    using contain_capacity_send [OF laws] contain_keeps [OF notify_lawsD(3) [OF notify]]
    by (auto simp: m_def)
  have "notify_async_changes (Some w) c t x =
      (if t then contain (termination_send_if_modified w raise_once) (snd (m x))
       else (Returns (), snd (m x)))"
    using m(1) by (cases "m x") (simp add: notify_async_changes_def exec_bind_def flip: m_def)
  with n m contain_termination_notifies [OF notify, of rx "snd (m x)"] show ?thesis
    by (auto simp: prod_eq_iff split: if_splits)
qed

lemma notify_async_changes_never_unwinds:
  "fst (notify_async_changes watch c t x) \<noteq> Unwinds p"
  by (cases watch)
    (auto simp: notify_async_changes_def intro!: guarded.guard_then_no_unwind guarded.guard_no_unwind)

end
