(* ===== verification/Queued_Jobs.thy ===== *)
theory Queued_Jobs
  imports Unwind
begin

text \<open>
  The work kept in the queue: the trait \<open>QueuedJob\<close> (\<open>src/queued_job.rs\<close>) as a record of its
  methods, and its two implementations \<open>CallableJob\<close> (\<open>src/internal/callable_job.rs\<close>) and
  \<open>RunnableJob\<close> (\<open>src/internal/runnable_job.rs\<close>). User tasks (\<open>Callable\<close>, \<open>Runnable\<close>), the
  result slot (\<open>TaskSlot\<close>) and the runner (\<open>TaskRunner\<close>) are code of other crates or of the user:
  they are the parameter \<open>task_api\<close>, functions on an unknown state \<open>'x\<close> that may return, unwind or
  abort. Destructors of jobs, tasks and slots are explicit, in the order Rust runs them; those of
  results are not modelled. The runner is given a closure, an \<open>FnMut\<close> it owns: a captured value that a
  call may replace, what a call does, and what dropping the closure does. Whether and when the runner
  calls and drops it is the runner's affair. The second half shows that whichever method consumes a
  job, the user's task is destroyed exactly once (\<open>job_consumed_adds\<close>).
\<close>

record ('k, 'x, 'a) fn_mut =
  captured :: 'k
  call_mut :: "'k \<Rightarrow> ('x, 'a) exec"
  after_call :: "'k \<Rightarrow> 'k"
  drop_captured :: "'k \<Rightarrow> ('x, unit) exec"

record ('job, 'x) queued_job_vtable =
  job_accept :: "'job \<Rightarrow> ('x, unit) exec"
  job_run :: "'job \<Rightarrow> ('x, unit) exec"
  job_cancel :: "'job \<Rightarrow> ('x, unit) exec"
  job_drop :: "'job \<Rightarrow> ('x, unit) exec"

record ('c, 't, 'slot, 'v, 'u, 'x) task_api =
  callable_call :: "'c \<Rightarrow> ('x, 'v) exec"
  callable_drop :: "'c \<Rightarrow> ('x, unit) exec"
  runnable_run :: "'t \<Rightarrow> ('x, 'u) exec"
  runnable_drop :: "'t \<Rightarrow> ('x, unit) exec"
  slot_accept :: "'slot \<Rightarrow> ('x, unit) exec"
  slot_cancel_unstarted :: "'slot \<Rightarrow> ('x, bool) exec"
  slot_drop :: "'slot \<Rightarrow> ('x, unit) exec"
  runner_run :: "('c option, 'x, 'v) fn_mut \<Rightarrow> 'slot \<Rightarrow> ('x, bool) exec"
  runner_run_detached :: "('t, 'x, 'u) fn_mut \<Rightarrow> ('x, unit) exec"

datatype ('c, 't, 'slot) queued_job = CallableJob 'c 'slot | RunnableJob 't

section \<open>CallableJob\<close>

definition callable_job_new :: "'c \<Rightarrow> 'slot \<Rightarrow> ('c, 't, 'slot) queued_job" where
  [simp]: "callable_job_new task slot = CallableJob task slot"

definition callable_job_accept ::
  "('c, 't, 'slot, 'v, 'u, 'x) task_api \<Rightarrow> 'slot \<Rightarrow> ('x, unit) exec" where
  [simp]: "callable_job_accept api slot = slot_accept api slot"

text \<open>
  The closure inside the unwind boundary: the callable is moved in, called, and dropped when the
  closure is left, either way.
\<close>

definition callable_once :: "('c, 't, 'slot, 'v, 'u, 'x) task_api \<Rightarrow> 'c \<Rightarrow> ('x, 'v) exec" where
  "callable_once api c = drop_after (callable_call api c) (callable_drop api c)"

text \<open>
  A call of \<open>safe_task\<close>: the callable is taken out of the captured \<open>Option\<close>, so a second call would
  panic in \<open>expect\<close>.
\<close>

fun safe_task :: "('c, 't, 'slot, 'v, 'u, 'x) task_api \<Rightarrow> 'c option \<Rightarrow> ('x, 'v) exec" where
  "safe_task api None = (\<lambda>x. (Unwinds message_payload, x))"
| "safe_task api (Some c) =
     exec_bind (catch_unwind (callable_once api c))
       (\<lambda>r. case r of
          Inr result \<Rightarrow> exec_return result
        | Inl payload \<Rightarrow>
            exec_bind (discard_panic_payload payload) (\<lambda>_. resume_unwind message_payload))"

fun drop_option :: "('c \<Rightarrow> ('x, unit) exec) \<Rightarrow> 'c option \<Rightarrow> ('x, unit) exec" where
  "drop_option d None = exec_return ()"
| "drop_option d (Some c) = d c"

definition safe_task_closure ::
  "('c, 't, 'slot, 'v, 'u, 'x) task_api \<Rightarrow> 'c \<Rightarrow> ('c option, 'x, 'v) fn_mut" where
  "safe_task_closure api c =
     \<lparr>captured = Some c, call_mut = safe_task api, after_call = (\<lambda>_. None),
      drop_captured = drop_option (callable_drop api)\<rparr>"

definition callable_job_run ::
  "('c, 't, 'slot, 'v, 'u, 'x) task_api \<Rightarrow> 'c \<Rightarrow> 'slot \<Rightarrow> ('x, unit) exec" where
  "callable_job_run api c slot =
     exec_bind (runner_run api (safe_task_closure api c) slot) (\<lambda>ignored. exec_return ())"

definition callable_job_cancel ::
  "('c, 't, 'slot, 'v, 'u, 'x) task_api \<Rightarrow> 'c \<Rightarrow> 'slot \<Rightarrow> ('x, unit) exec" where
  "callable_job_cancel api c slot =
     drop_after
       (exec_bind (slot_cancel_unstarted api slot) (\<lambda>ignored. exec_return ()))
       (callable_drop api c)"

section \<open>RunnableJob\<close>

text \<open>A detached runnable has no endpoint to accept.\<close>

definition runnable_job_new :: "'t \<Rightarrow> ('c, 't, 'slot) queued_job" where
  [simp]: "runnable_job_new task = RunnableJob task"

definition runnable_job_accept :: "'t \<Rightarrow> ('x, unit) exec" where
  [simp]: "runnable_job_accept task = exec_return ()"

definition runnable_closure ::
  "('c, 't, 'slot, 'v, 'u, 'x) task_api \<Rightarrow> 't \<Rightarrow> ('t, 'x, 'u) fn_mut" where
  "runnable_closure api t =
     \<lparr>captured = t, call_mut = runnable_run api, after_call = (\<lambda>t. t),
      drop_captured = runnable_drop api\<rparr>"

definition runnable_job_run ::
  "('c, 't, 'slot, 'v, 'u, 'x) task_api \<Rightarrow> 't \<Rightarrow> ('x, unit) exec" where
  "runnable_job_run api t = runner_run_detached api (runnable_closure api t)"

definition runnable_job_cancel ::
  "('c, 't, 'slot, 'v, 'u, 'x) task_api \<Rightarrow> 't \<Rightarrow> ('x, unit) exec" where
  "runnable_job_cancel api t = runnable_drop api t"

section \<open>The trait object\<close>

fun accept_queued_job ::
  "('c, 't, 'slot, 'v, 'u, 'x) task_api \<Rightarrow> ('c, 't, 'slot) queued_job \<Rightarrow> ('x, unit) exec" where
  "accept_queued_job api (CallableJob c slot) = callable_job_accept api slot"
| "accept_queued_job api (RunnableJob t) = runnable_job_accept t"

fun run_queued_job ::
  "('c, 't, 'slot, 'v, 'u, 'x) task_api \<Rightarrow> ('c, 't, 'slot) queued_job \<Rightarrow> ('x, unit) exec" where
  "run_queued_job api (CallableJob c slot) = callable_job_run api c slot"
| "run_queued_job api (RunnableJob t) = runnable_job_run api t"

fun cancel_queued_job ::
  "('c, 't, 'slot, 'v, 'u, 'x) task_api \<Rightarrow> ('c, 't, 'slot) queued_job \<Rightarrow> ('x, unit) exec" where
  "cancel_queued_job api (CallableJob c slot) = callable_job_cancel api c slot"
| "cancel_queued_job api (RunnableJob t) = runnable_job_cancel api t"

text \<open>Dropping an unaccepted job drops its fields in declaration order.\<close>

fun drop_queued_job ::
  "('c, 't, 'slot, 'v, 'u, 'x) task_api \<Rightarrow> ('c, 't, 'slot) queued_job \<Rightarrow> ('x, unit) exec" where
  "drop_queued_job api (CallableJob c slot) =
     drop_after (callable_drop api c) (slot_drop api slot)"
| "drop_queued_job api (RunnableJob t) = runnable_drop api t"

definition queued_job_methods ::
  "('c, 't, 'slot, 'v, 'u, 'x) task_api \<Rightarrow> (('c, 't, 'slot) queued_job, 'x) queued_job_vtable" where
  "queued_job_methods api =
     \<lparr>job_accept = accept_queued_job api, job_run = run_queued_job api,
      job_cancel = cancel_queued_job api, job_drop = drop_queued_job api\<rparr>"

section \<open>Every task is destroyed once\<close>

text \<open>
  Code that adds \<open>n\<close> to a counter of the state unless it aborts the process, payload destructors
  adding nothing. In the theorems the counter is the number of destructor runs of user tasks.
\<close>

definition exec_adds :: "('s \<Rightarrow> nat) \<Rightarrow> nat \<Rightarrow> ('s, 'a) exec \<Rightarrow> bool" where
  "exec_adds tally n m \<longleftrightarrow>
     (\<forall>s. fst (m s) \<noteq> Aborts \<longrightarrow>
        tally (snd (m s)) = tally s + n \<and>
        (\<forall>p. fst (m s) = Unwinds p \<longrightarrow>
           (\<forall>s'. fst (drop_payload p s') \<noteq> Aborts \<longrightarrow> tally (snd (drop_payload p s')) = tally s')))"

lemma exec_addsD:
  assumes "exec_adds tally n m" and "m s = (r, s')" and "r \<noteq> Aborts"
  shows "tally s' = tally s + n"
    and "r = Unwinds p \<Longrightarrow> fst (drop_payload p s'') \<noteq> Aborts \<Longrightarrow>
      tally (snd (drop_payload p s'')) = tally s''"
  using assms by (auto simp: exec_adds_def dest: spec [of _ s])

lemma exec_addsI:
  assumes "\<And>s r s'. m s = (r, s') \<Longrightarrow> r \<noteq> Aborts \<Longrightarrow> tally s' = tally s + n"
    and "\<And>s p s' s''. m s = (Unwinds p, s') \<Longrightarrow> fst (drop_payload p s'') \<noteq> Aborts \<Longrightarrow>
      tally (snd (drop_payload p s'')) = tally s''"
  shows "exec_adds tally n m"
  using assms unfolding exec_adds_def by (metis prod.collapse)

lemma exec_adds_return [simp]: "exec_adds tally 0 (exec_return a)"
  by (simp add: exec_adds_def)

lemma exec_adds_panic [simp]:
  "exec_adds tally 0 (\<lambda>s. (Unwinds message_payload, s))"
  "exec_adds tally 0 (resume_unwind message_payload)"
  by (simp_all add: exec_adds_def resume_unwind_def)

lemma drop_after_adds:
  assumes m: "exec_adds tally a m" and d: "exec_adds tally b d"
  shows "exec_adds tally (a + b) (drop_after m d)"
proof (rule exec_addsI)
  fix s r s'
  assume run: "drop_after m d s = (r, s')" and r: "r \<noteq> Aborts"
  obtain r1 s1 where 1: "m s = (r1, s1)"
    by fastforce
  obtain r2 s2 where 2: "d s1 = (r2, s2)"
    by fastforce
  have "s' = s2" "r1 \<noteq> Aborts" "r2 \<noteq> Aborts"
    using run r 1 2 by (auto simp: drop_after_def drop_while_unwinding_def exec_bind_def
        split: outcome.splits)
  then show "tally s' = tally s + (a + b)"
    using exec_addsD(1) [OF m 1] exec_addsD(1) [OF d 2] by simp
next
  fix s p s' s''
  assume run: "drop_after m d s = (Unwinds p, s')" and p: "fst (drop_payload p s'') \<noteq> Aborts"
  obtain r1 s1 where 1: "m s = (r1, s1)"
    by fastforce
  obtain r2 s2 where 2: "d s1 = (r2, s2)"
    by fastforce
  have "r1 = Unwinds p \<or> r2 = Unwinds p"
    using run 1 2 by (auto simp: drop_after_def drop_while_unwinding_def exec_bind_def
        split: outcome.splits)
  then show "tally (snd (drop_payload p s'')) = tally s''"
    using exec_addsD(2) [OF m 1 _ _ p] exec_addsD(2) [OF d 2 _ _ p] by auto
qed

lemma exec_bind_adds:
  assumes m: "exec_adds tally a m" and f: "\<And>b. exec_adds tally 0 (f b)"
  shows "exec_adds tally a (exec_bind m f)"
proof (rule exec_addsI)
  fix s r s'
  assume run: "exec_bind m f s = (r, s')" and r: "r \<noteq> Aborts"
  obtain r1 s1 where 1: "m s = (r1, s1)"
    by fastforce
  have "r1 \<noteq> Aborts"
    using run r 1 by (auto simp: exec_bind_def)
  then show "tally s' = tally s + a"
    using run r 1 exec_addsD(1) [OF m 1] exec_addsD(1) [OF f]
    by (cases r1) (auto simp: exec_bind_def)
next
  fix s p s' s''
  assume run: "exec_bind m f s = (Unwinds p, s')" and p: "fst (drop_payload p s'') \<noteq> Aborts"
  obtain r1 s1 where 1: "m s = (r1, s1)"
    by fastforce
  then show "tally (snd (drop_payload p s'')) = tally s''"
    using run exec_addsD(2) [OF m 1 _ _ p] exec_addsD(2) [OF f _ _ _ p]
    by (cases r1) (auto simp: exec_bind_def)
qed

lemma contain_adds:
  assumes m: "exec_adds tally n m"
  shows "exec_adds tally n (contain m)"
proof (rule exec_addsI)
  fix s r s'
  assume run: "contain m s = (r, s')" and r: "r \<noteq> Aborts"
  obtain r1 s1 where 1: "m s = (r1, s1)"
    by fastforce
  show "tally s' = tally s + n"
    using run r 1 exec_addsD(1) [OF m 1] exec_addsD(2) [OF m 1]
    by (cases r1) (auto simp: contain_eq discard_panic_payload_eq split: if_splits)
qed (metis fst_conv guarded.guard_no_unwind)

lemma safe_task_eq:
  "safe_task api (Some c) s =
     (case callable_once api c s of
        (Returns v, s') \<Rightarrow> (Returns v, s')
      | (Unwinds p, s') \<Rightarrow>
          (if fst (drop_payload p s') = Aborts then Aborts else Unwinds message_payload,
           snd (drop_payload p s'))
      | (Aborts, s') \<Rightarrow> (Aborts, s'))"
  by (auto simp: catch_unwind_def exec_bind_def discard_panic_payload_eq
      resume_unwind_def split: outcome.split prod.split)

lemma safe_task_adds:
  assumes "exec_adds tally 0 (callable_call api c)" and "exec_adds tally n (callable_drop api c)"
  shows "exec_adds tally n (safe_task api (Some c))"
proof (rule exec_addsI)
  fix s r s'
  assume run: "safe_task api (Some c) s = (r, s')" and r: "r \<noteq> Aborts"
  obtain r1 s1 where 1: "callable_once api c s = (r1, s1)"
    by fastforce
  have once: "exec_adds tally n (callable_once api c)"
    using drop_after_adds [OF assms] by (simp add: callable_once_def)
  show "tally s' = tally s + n"
    using run r 1 exec_addsD [OF once 1]
    by (cases r1) (auto simp del: safe_task.simps simp: safe_task_eq split: if_splits)
next
  fix s p s' s''
  assume "safe_task api (Some c) s = (Unwinds p, s')"
  then have "p = message_payload"
    by (auto simp del: safe_task.simps simp: safe_task_eq split: outcome.splits prod.splits if_splits)
  then show "tally (snd (drop_payload p s'')) = tally s''"
    by simp
qed

text \<open>
  What the runner is trusted with: it consumes the closure, so it either drops it uncalled, or calls
  it and then drops it. If both ways add \<open>n\<close> to the counter, so does the runner.
\<close>

definition closure_adds :: "('x \<Rightarrow> nat) \<Rightarrow> nat \<Rightarrow> ('k, 'x, 'a) fn_mut \<Rightarrow> bool" where
  "closure_adds tally n f \<longleftrightarrow>
     exec_adds tally n (drop_captured f (captured f)) \<and>
     (\<exists>c d. n = c + d \<and> exec_adds tally c (call_mut f (captured f)) \<and>
        exec_adds tally d (drop_captured f (after_call f (captured f))))"

definition consumes_closure ::
  "('x \<Rightarrow> nat) \<Rightarrow> (('k, 'x, 'a) fn_mut \<Rightarrow> ('x, 'b) exec) \<Rightarrow> bool" where
  "consumes_closure tally run \<longleftrightarrow>
     (\<forall>f n. closure_adds tally n f \<longrightarrow> exec_adds tally n (run f))"

text \<open>The user's task in a job.\<close>

fun task_of :: "('c, 't, 'slot) queued_job \<Rightarrow> 'c + 't" where
  "task_of (CallableJob c slot) = Inl c"
| "task_of (RunnableJob t) = Inr t"

text \<open>
  The counter goes up by \<open>own u\<close> when the destructor of the task \<open>u\<close> runs, and by nothing else.
  With the constant weight 1 it counts all destructor runs (\<open>task_laws\<close>); with the weight that is 1
  for one task and 0 for the others it counts the destructor runs of that task (\<open>counts_task\<close>).
\<close>

definition tasks_weigh ::
  "('x \<Rightarrow> nat) \<Rightarrow> ('c + 't \<Rightarrow> nat) \<Rightarrow> ('c, 't, 'slot, 'v, 'u, 'x) task_api \<Rightarrow> bool" where
  "tasks_weigh drops own api \<longleftrightarrow>
     (\<forall>c. exec_adds drops 0 (callable_call api c) \<and>
        exec_adds drops (own (Inl c)) (callable_drop api c)) \<and>
     (\<forall>t. exec_adds drops 0 (runnable_run api t) \<and>
        exec_adds drops (own (Inr t)) (runnable_drop api t)) \<and>
     (\<forall>slot. exec_adds drops 0 (slot_accept api slot) \<and>
        exec_adds drops 0 (slot_cancel_unstarted api slot) \<and> exec_adds drops 0 (slot_drop api slot) \<and>
        consumes_closure drops (\<lambda>f. runner_run api f slot)) \<and>
     consumes_closure drops (runner_run_detached api)"

definition task_laws :: "('x \<Rightarrow> nat) \<Rightarrow> ('c, 't, 'slot, 'v, 'u, 'x) task_api \<Rightarrow> bool" where
  "task_laws drops api = tasks_weigh drops (\<lambda>u. 1) api"

definition counts_task ::
  "('x \<Rightarrow> nat) \<Rightarrow> 'c + 't \<Rightarrow> ('c, 't, 'slot, 'v, 'u, 'x) task_api \<Rightarrow> bool" where
  "counts_task drops task api = tasks_weigh drops (\<lambda>u. if u = task then 1 else 0) api"

lemma safe_task_closure_adds:
  assumes "tasks_weigh drops own api"
  shows "closure_adds drops (own (Inl c)) (safe_task_closure api c)"
proof -
  have "exec_adds drops (own (Inl c)) (safe_task api (Some c))"
    using assms by (intro safe_task_adds) (simp_all add: tasks_weigh_def)
  then show ?thesis
    unfolding closure_adds_def using assms
    by (intro conjI exI [of _ "own (Inl c)"] exI [of _ 0])
      (simp_all add: safe_task_closure_def tasks_weigh_def del: safe_task.simps)
qed

lemma runnable_closure_adds:
  assumes "tasks_weigh drops own api"
  shows "closure_adds drops (own (Inr t)) (runnable_closure api t)"
  unfolding closure_adds_def using assms
  by (intro conjI exI [of _ 0] exI [of _ "own (Inr t)"])
    (simp_all add: runnable_closure_def tasks_weigh_def)

text \<open>The four methods of a queued job. Acceptance borrows the job, the others consume it.\<close>

lemma job_accepted_adds:
  "tasks_weigh drops own api \<Longrightarrow> exec_adds drops 0 (accept_queued_job api job)"
  by (cases job) (simp_all add: tasks_weigh_def)

lemma job_consumed_adds:
  assumes laws: "tasks_weigh drops own api"
  shows "exec_adds drops (own (task_of job)) (run_queued_job api job)"
    and "exec_adds drops (own (task_of job)) (cancel_queued_job api job)"
    and "exec_adds drops (own (task_of job)) (drop_queued_job api job)"
proof -
  note f = safe_task_closure_adds [OF laws] runnable_closure_adds [OF laws]
  show "exec_adds drops (own (task_of job)) (run_queued_job api job)"
    using laws f by (cases job)
      (auto simp: callable_job_run_def runnable_job_run_def tasks_weigh_def consumes_closure_def
        intro!: exec_bind_adds)
  have "exec_adds drops 0 (exec_bind (slot_cancel_unstarted api slot) (\<lambda>_. exec_return ()))" for slot
    using laws by (intro exec_bind_adds) (simp_all add: tasks_weigh_def)
  from drop_after_adds [OF this] show "exec_adds drops (own (task_of job)) (cancel_queued_job api job)"
    using laws by (cases job)
      (fastforce simp: callable_job_cancel_def runnable_job_cancel_def tasks_weigh_def)+
  have "exec_adds drops (own (Inl c) + 0) (drop_after (callable_drop api c) (slot_drop api slot))"
    for c slot
    using laws by (intro drop_after_adds) (simp_all add: tasks_weigh_def)
  then show "exec_adds drops (own (task_of job)) (drop_queued_job api job)"
    using laws by (cases job) (simp_all add: tasks_weigh_def)
qed

end
