(* ===== verification/Executor_Service.thy ===== *)
theory Executor_Service
  imports Notifications Queued_Jobs
begin

text \<open>
  The methods of \<open>RayonExecutorService\<close> (\<open>src/rayon_executor_service.rs\<close>) and the worker closure
  \<open>run_one\<close>, as one thread executes them with no other thread in between: the locked operations of
  \<^theory_text>\<open>Service_State\<close>, the publications of \<^theory_text>\<open>Notifications\<close> and the job methods, composed in
  the source's order. The state is the locked record, the unknown state \<open>'x\<close> of the code outside
  the crate, and the number of worker closures passed to Rayon's \<open>spawn_fifo\<close> so far. The
  interleaved execution of these methods by many threads is the subject of
  \<^theory_text>\<open>Interleaving\<close>.
\<close>

record ('job, 'x) executor =
  inner :: "'job rayon_executor_service_inner"
  ext :: 'x
  spawned :: nat

type_synonym ('job, 'x, 'a) svc = "(('job, 'x) executor, 'x payload, 'a) run"

definition on_ext :: "('x, 'a) exec \<Rightarrow> ('job, 'x, 'a) svc" where
  "on_ext m = (\<lambda>st. case m (ext st) of (r, x') \<Rightarrow> (r, st\<lparr>ext := x'\<rparr>))"

text \<open>A locked operation, the unlock, and the publication of its signals.\<close>

definition locked ::
  "'x watch_api option \<Rightarrow>
   ('job rayon_executor_service_inner \<Rightarrow> 'r \<times> signals \<times> 'job rayon_executor_service_inner) \<Rightarrow>
   ('job, 'x, 'r) svc" where
  "locked watch f = (\<lambda>st. case f (inner st) of (r, sg, i') \<Rightarrow>
     exec_bind (on_ext (publish_signals watch sg)) (\<lambda>_. exec_return r) (st\<lparr>inner := i'\<rparr>))"

definition spawn_fifo :: "('job, 'x, unit) svc" where
  "spawn_fifo = (\<lambda>st. (Returns (), st\<lparr>spawned := Suc (spawned st)\<rparr>))"

fun dispatch_loop :: "nat \<Rightarrow> ('job, 'x, unit) svc" where
  "dispatch_loop 0 = exec_return ()"
| "dispatch_loop (Suc n) = exec_bind spawn_fifo (\<lambda>_. dispatch_loop n)"

definition dispatch :: "usize \<Rightarrow> ('job, 'x, unit) svc" where
  "dispatch n = dispatch_loop (unat n)"

definition run_one ::
  "('job, 'x) queued_job_vtable \<Rightarrow> 'x watch_api option \<Rightarrow> ('job, 'x, unit) svc" where
  "run_one jobs watch =
     exec_bind (locked watch take_next)
       (\<lambda>taken. case taken of
          None \<Rightarrow> exec_return ()
        | Some (task_id, job) \<Rightarrow>
            exec_bind (on_ext (contain (job_run jobs job)))
              (\<lambda>_. exec_bind (locked watch (finish_running task_id))
                 (\<lambda>successor. if successor then spawn_fifo else exec_return ())))"

section \<open>Submission\<close>

text \<open>
  \<open>admit\<close> consumes the job: when it is not queued, its destructor runs after the lock is released,
  on the way out of \<open>admit\<close>.
\<close>

definition admit_job ::
  "('job, 'x) queued_job_vtable \<Rightarrow> 'job \<Rightarrow> ('job, 'x, submission_error + admission) svc" where
  "admit_job jobs job = (\<lambda>st. case admit (job_accept jobs) job (inner st) (ext st) of
     (r, i', x') \<Rightarrow>
       let st' = st\<lparr>inner := i', ext := x'\<rparr>;
           drop_job = on_ext (job_drop jobs job)
       in case r of
            Returns (Inr a) \<Rightarrow> (Returns (Inr a), st')
          | Returns (Inl e) \<Rightarrow> exec_bind drop_job (\<lambda>_. exec_return (Inl e)) st'
          | Unwinds p \<Rightarrow> drop_while_unwinding drop_job p st'
          | Aborts \<Rightarrow> (Aborts, st'))"

definition submit_runnable ::
  "('c, 't, 'slot, 'v, 'u, 'x) task_api \<Rightarrow> 't \<Rightarrow>
     (('c, 't, 'slot) queued_job, 'x, submission_error + unit) svc" where
  "submit_runnable api task =
     exec_bind (admit_job (queued_job_methods api) (runnable_job_new task))
       (\<lambda>r. case r of
          Inl e \<Rightarrow> exec_return (Inl e)
        | Inr admission \<Rightarrow>
            exec_bind (dispatch (dispatch_count admission)) (\<lambda>_. exec_return (Inr ())))"

text \<open>
  \<open>split\<close> is \<open>TaskEndpointPair::new()\<close> followed by the conversion into a handle and a slot;
  \<open>handle_drop\<close> is the handle's destructor, which runs when the submission is refused.
\<close>

definition submit_callable_with ::
  "('c, 't, 'slot, 'v, 'u, 'x) task_api \<Rightarrow> ('x, 'h \<times> 'slot) exec \<Rightarrow> ('h \<Rightarrow> ('x, unit) exec) \<Rightarrow>
     'c \<Rightarrow> (('c, 't, 'slot) queued_job, 'x, submission_error + 'h) svc" where
  "submit_callable_with api split handle_drop task =
     exec_bind (drop_on_unwind (on_ext split) (on_ext (callable_drop api task)))
       (\<lambda>(handle, slot).
          exec_bind
            (drop_on_unwind (admit_job (queued_job_methods api) (callable_job_new task slot))
               (on_ext (handle_drop handle)))
            (\<lambda>r. case r of
               Inl e \<Rightarrow> exec_bind (on_ext (handle_drop handle)) (\<lambda>_. exec_return (Inl e))
             | Inr admission \<Rightarrow>
                 exec_bind (dispatch (dispatch_count admission))
                   (\<lambda>_. exec_return (Inr handle))))"

record 'h rayon_task_handle =
  tracked :: 'h
  handle_task_id :: usize

definition rayon_task_handle_new :: "'h \<Rightarrow> usize \<Rightarrow> 'h rayon_task_handle" where
  "rayon_task_handle_new task task_id = \<lparr>tracked = task, handle_task_id = task_id\<rparr>"

definition submit_tracked_callable ::
  "('c, 't, 'slot, 'v, 'u, 'x) task_api \<Rightarrow> ('x, 'h \<times> 'slot) exec \<Rightarrow> ('h \<Rightarrow> ('x, unit) exec) \<Rightarrow>
     'c \<Rightarrow> (('c, 't, 'slot) queued_job, 'x, submission_error + 'h rayon_task_handle) svc" where
  "submit_tracked_callable api split handle_drop task =
     exec_bind (drop_on_unwind (on_ext split) (on_ext (callable_drop api task)))
       (\<lambda>(handle, slot).
          exec_bind
            (drop_on_unwind (admit_job (queued_job_methods api) (callable_job_new task slot))
               (on_ext (handle_drop handle)))
            (\<lambda>r. case r of
               Inl e \<Rightarrow> exec_bind (on_ext (handle_drop handle)) (\<lambda>_. exec_return (Inl e))
             | Inr admission \<Rightarrow>
                 exec_bind (dispatch (dispatch_count admission))
                   (\<lambda>_. exec_return
                      (Inr (rayon_task_handle_new handle (admitted_task_id admission))))))"

text \<open>The trait methods \<open>submit\<close> and \<open>submit_callable\<close>; \<open>into_parts\<close> is the endpoint conversion.\<close>

definition submit ::
  "('c, 't, 'slot, 'v, 'u, 'x) task_api \<Rightarrow> 't \<Rightarrow>
     (('c, 't, 'slot) queued_job, 'x, submission_error + unit) svc" where
  "submit api task = submit_runnable api task"

definition submit_callable ::
  "('c, 't, 'slot, 'v, 'u, 'x) task_api \<Rightarrow> ('x, 'h \<times> 'slot) exec \<Rightarrow> ('h \<Rightarrow> ('x, unit) exec) \<Rightarrow>
     'c \<Rightarrow> (('c, 't, 'slot) queued_job, 'x, submission_error + 'h) svc" where
  "submit_callable api into_parts handle_drop task =
     submit_callable_with api into_parts handle_drop task"

section \<open>Ending admission\<close>

definition shutdown_service :: "'x watch_api option \<Rightarrow> ('job, 'x, unit) svc" where
  "shutdown_service watch = locked watch shutdown"

fun cancel_owned ::
  "('job, 'x) queued_job_vtable \<Rightarrow> 'x watch_api option \<Rightarrow> (usize \<times> 'job) list \<Rightarrow>
     ('job, 'x, unit) svc" where
  "cancel_owned jobs watch [] = exec_return ()"
| "cancel_owned jobs watch ((task_id, job) # rest) =
     exec_bind (on_ext (contain (job_cancel jobs job)))
       (\<lambda>_. exec_bind (locked watch (finish_cancelling task_id))
          (\<lambda>_. cancel_owned jobs watch rest))"

definition stop_service ::
  "('job, 'x) queued_job_vtable \<Rightarrow> 'x watch_api option \<Rightarrow> ('job, 'x, stop_report) svc" where
  "stop_service jobs watch =
     exec_bind (locked watch stop)
       (\<lambda>(report, owned). exec_bind (cancel_owned jobs watch owned) (\<lambda>_. exec_return report))"

definition service_lifecycle :: "('job, 'x) executor \<Rightarrow> executor_service_lifecycle" where
  "service_lifecycle st = observed_lifecycle (inner st)"

definition service_is_not_running :: "('job, 'x) executor \<Rightarrow> bool" where
  "service_is_not_running st \<longleftrightarrow> is_not_running (inner st)"

definition service_is_terminated :: "('job, 'x) executor \<Rightarrow> bool" where
  "service_is_terminated st \<longleftrightarrow> service_lifecycle st = Terminated"

definition service_stats :: "('job, 'x) executor \<Rightarrow> rayon_executor_service_stats" where
  "service_stats st = stats (inner st)"

section \<open>Composition lemmas\<close>

definition watch_ok :: "'x watch_api option \<Rightarrow> bool" where
  "watch_ok watch \<longleftrightarrow> (case watch of None \<Rightarrow> True | Some w \<Rightarrow> watch_laws w)"

lemma notify_returns:
  assumes "watch_ok watch"
  shows "fst (notify_async_changes watch c t x) = Returns ()"
proof (cases watch)
  case None
  then show ?thesis by (simp add: notify_async_changes_def)
next
  case (Some w)
  with assms have "watch_laws w"
    by (simp add: watch_ok_def)
  from notify_async_changes_effect(1) [OF this, of c t x] Some show ?thesis
    by (cases "notify_async_changes watch c t x") simp
qed

lemma publish_returns: "watch_ok watch \<Longrightarrow> fst (publish_signals watch sg x) = Returns ()"
  by (auto simp: publish_signals_def notify_returns split: option.split)

lemma on_ext_returns: "fst (m (ext st)) = Returns a \<Longrightarrow>
    on_ext m st = (Returns a, st\<lparr>ext := snd (m (ext st))\<rparr>)"
  by (cases "m (ext st)") (simp add: on_ext_def)

lemma locked_returns:
  assumes "watch_ok watch" and "f (inner st) = (r, sg, i')"
  shows "locked watch f st =
    (Returns r, st\<lparr>inner := i', ext := snd (publish_signals watch sg (ext st))\<rparr>)"
  using publish_returns [OF assms(1), of sg "ext st"] assms(2)
  by (simp add: locked_def exec_bind_def on_ext_returns)

lemma on_ext_contain:
  assumes "exec_safe m"
  shows "on_ext (contain m) st = (Returns (), st\<lparr>ext := snd (contain m (ext st))\<rparr>)"
  by (rule on_ext_returns) (rule guarded.guard_safe [OF assms])

lemma dispatch_loop_eq:
  "dispatch_loop n st = (Returns (), st\<lparr>spawned := spawned st + n\<rparr>)"
  by (induction n arbitrary: st) (auto simp: exec_bind_def spawn_fifo_def)

lemma dispatch_eq: "dispatch n st = (Returns (), st\<lparr>spawned := spawned st + unat n\<rparr>)"
  by (simp add: dispatch_def dispatch_loop_eq)

lemma exec_bind_Returns:
  "exec_bind m f s = (Returns b, s'') \<longleftrightarrow>
     (\<exists>a s'. m s = (Returns a, s') \<and> f a s' = (Returns b, s''))"
  by (auto simp: exec_bind_def split: prod.split outcome.split)

lemma on_ext_Returns:
  "on_ext m st = (Returns a, st') \<longleftrightarrow> (\<exists>x'. m (ext st) = (Returns a, x') \<and> st' = st\<lparr>ext := x'\<rparr>)"
  by (auto simp: on_ext_def split: prod.split)

lemma locked_Returns:
  "locked watch f st = (Returns r, st') \<longleftrightarrow>
     (\<exists>sg i' x'. f (inner st) = (r, sg, i') \<and> publish_signals watch sg (ext st) = (Returns (), x') \<and>
        st' = st\<lparr>inner := i', ext := x'\<rparr>)"
  by (auto simp: locked_def exec_bind_Returns on_ext_Returns split: prod.split)

section \<open>The worker closure and \<open>stop\<close>\<close>

text \<open>A contained call of user code, a critical section, and its publication.\<close>

lemma contain_locked:
  assumes "watch_ok watch" and "exec_safe m" and "f (inner st) = (r, sg, i')"
  shows "\<exists>x'. exec_bind (on_ext (contain m)) (\<lambda>_. exec_bind (locked watch f) k) st =
    k r (st\<lparr>inner := i', ext := x'\<rparr>)"
proof -
  let ?st1 = "st\<lparr>ext := snd (contain m (ext st))\<rparr>"
  have "locked watch f ?st1 = (Returns r, ?st1\<lparr>inner := i',
      ext := snd (publish_signals watch sg (ext ?st1))\<rparr>)"
    using assms by (intro locked_returns) simp_all
  then show ?thesis
    by (auto simp: exec_bind_def on_ext_contain [OF assms(2)])
qed

lemma run_one_effect:
  assumes "watch_ok watch" and "exec_safe (job_run jobs job)"
    and ok: "inner_ok (inner st)" and q: "queue (inner st) = (n, job) # q"
    and idle: "running (inner st) < scheduled (inner st)"
  shows "\<exists>x'. run_one jobs watch st =
    (Returns (),
     st\<lparr>inner := (inner st)
          \<lparr>queue := q,
           scheduled := (if q = [] then scheduled (inner st) - 1 else scheduled (inner st))\<rparr>,
        ext := x',
        spawned := spawned st + (if q = [] then 0 else 1)\<rparr>)"
proof -
  define i1 where "i1 = (inner st)\<lparr>queue := q, running := running (inner st) + 1,
      running_tasks := insert n (running_tasks (inner st))\<rparr>"
  define i2 where "i2 = (inner st)\<lparr>queue := q,
      scheduled := (if q = [] then scheduled (inner st) - 1 else scheduled (inner st))\<rparr>"
  obtain sg where "take_next (inner st) = (Some (n, job), sg, i1)"
    using q by (simp add: take_next_Some i1_def)
  define st1 where "st1 = st\<lparr>inner := i1, ext := snd (publish_signals watch sg (ext st))\<rparr>"
  have taken: "locked watch take_next st = (Returns (Some (n, job)), st1)"
    unfolding st1_def by (rule locked_returns [OF assms(1)]) fact
  have "n \<notin> running_tasks (inner st)"
    using inner_okD(6) [OF ok] q by (auto simp: tasks_ok_def)
  moreover have "saturating_sub (running (inner st) + 1) 1 = running (inner st)"
    "saturating_sub (scheduled (inner st)) 1 = scheduled (inner st) - 1"
    using idle by (simp_all add: saturating_sub_inc saturating_sub_pos)
  ultimately obtain sg' where fin: "finish_running n (inner st1) = (q \<noteq> [], sg', i2)"
    by (simp add: st1_def i1_def i2_def finish_running_eq Let_def)
  let ?k = "\<lambda>successor. if successor then spawn_fifo else exec_return ()"
  from contain_locked [where k = ?k and f = "finish_running n" and st = st1, OF assms(1,2) fin]
  obtain x' where
    "exec_bind (on_ext (contain (job_run jobs job)))
       (\<lambda>_. exec_bind (locked watch (finish_running n)) ?k) st1 =
     ?k (q \<noteq> []) (st1\<lparr>inner := i2, ext := x'\<rparr>)"
    by blast
  then have "run_one jobs watch st = ?k (q \<noteq> []) (st1\<lparr>inner := i2, ext := x'\<rparr>)"
    by (simp add: run_one_def exec_bind_def [of "locked watch take_next"] taken)
  then show ?thesis
    by (intro exI [of _ x']) (simp add: spawn_fifo_def st1_def i2_def)
qed

lemma cancel_owned_effect:
  assumes watch: "watch_ok watch" and "\<forall>(n, job) \<in> set owned. exec_safe (job_cancel jobs job)"
  shows "\<exists>x'. cancel_owned jobs watch owned st =
    (Returns (), st\<lparr>inner := (inner st)\<lparr>cancelling := cancelling (inner st) - btree_keys owned\<rparr>,
                   ext := x'\<rparr>)"
  using assms(2)
proof (induction owned arbitrary: st)
  case Nil
  show ?case
    by (rule exI [of _ "ext st"]) simp
next
  case (Cons p owned)
  obtain n job where p: "p = (n, job)"
    by fastforce
  let ?i = "(inner st)\<lparr>cancelling := cancelling (inner st) - {n}\<rparr>"
  obtain sg where "finish_cancelling n (inner st) = ((), sg, ?i)"
    by (simp add: finish_cancelling_def Let_def)
  from contain_locked [where k = "\<lambda>_. cancel_owned jobs watch owned" and m = "job_cancel jobs job"
      and f = "finish_cancelling n" and st = st and watch = watch, OF watch _ this] Cons.prems p
  obtain x' where "cancel_owned jobs watch (p # owned) st =
      cancel_owned jobs watch owned (st\<lparr>inner := ?i, ext := x'\<rparr>)"
    by auto
  moreover have "cancelling (inner st) - btree_keys (p # owned) =
      cancelling (inner st) - {n} - btree_keys owned"
    using p by auto
  moreover have "\<forall>(n, job) \<in> set owned. exec_safe (job_cancel jobs job)"
    using Cons.prems by simp
  note Cons.IH [OF this, of "st\<lparr>inner := ?i, ext := x'\<rparr>"]
  ultimately show ?case
    by simp
qed

lemma stop_service_effect:
  assumes watch: "watch_ok watch"
    and safe: "\<And>n job. (n, job) \<in> set (queue (inner st)) \<Longrightarrow> exec_safe (job_cancel jobs job)"
    and ok: "inner_ok (inner st)"
  shows "\<exists>x'. stop_service jobs watch st =
    (Returns
       \<lparr>report_queued = list_len (queue (inner st)), report_running = running (inner st),
        report_cancelled = list_len (queue (inner st))\<rparr>,
     st\<lparr>inner := (inner st)\<lparr>lifecycle := Stopping, queue := []\<rparr>, ext := x'\<rparr>)"
proof -
  let ?q = "queue (inner st)"
  let ?i1 = "(inner st)\<lparr>lifecycle := Stopping, queue := [],
      cancelling := cancelling (inner st) \<union> btree_keys ?q\<rparr>"
  let ?r = "\<lparr>report_queued = list_len ?q, report_running = running (inner st),
      report_cancelled = list_len ?q\<rparr>"
  obtain sg where "stop (inner st) = ((?r, ?q), sg, ?i1)"
    by (simp add: stop_eq Let_def)
  then have stopped: "locked watch stop st =
      (Returns (?r, ?q), st\<lparr>inner := ?i1, ext := snd (publish_signals watch sg (ext st))\<rparr>)"
    by (rule locked_returns [OF watch])
  have "cancelling (inner st) \<union> btree_keys ?q - btree_keys ?q = cancelling (inner st)"
    using inner_okD(6) [OF ok] by (auto simp: tasks_ok_def)
  moreover have "\<forall>(n, job) \<in> set ?q. exec_safe (job_cancel jobs job)"
    using safe by auto
  ultimately show ?thesis
    using cancel_owned_effect [OF watch, of ?q jobs
        "st\<lparr>inner := ?i1, ext := snd (publish_signals watch sg (ext st))\<rparr>"]
    by (auto simp: stop_service_def stopped exec_bind_def)
qed

section \<open>Submission, accepted or refused\<close>

lemma admit_job_refused:
  assumes "admit_job jobs job st = (Returns (Inl e), st')"
  shows "inner st' = inner st" and "spawned st' = spawned st"
    and "e = Shutdown \<longleftrightarrow> lifecycle (inner st) \<noteq> Running"
    and "job_drop jobs job (ext st) = (Returns (), ext st')"
proof -
  obtain r i' x' where adm: "admit (job_accept jobs) job (inner st) (ext st) = (r, i', x')"
    by (metis prod_cases3)
  with assms have r: "r = Returns (Inl e)"
    and st': "exec_bind (on_ext (job_drop jobs job)) (\<lambda>_. exec_return (Inl e))
      (st\<lparr>inner := i', ext := x'\<rparr>) = (Returns (Inl e :: submission_error + admission), st')"
    by (auto simp: admit_job_def exec_bind_Returns drop_while_unwinding_def Let_def
        split: outcome.splits sum.splits prod.splits)
  have kept: "i' = inner st \<and> x' = ext st \<and> (e = Shutdown \<longleftrightarrow> lifecycle (inner st) \<noteq> Running)"
    using adm by (cases rule: admit_cases) (auto simp: r)
  with st' show "inner st' = inner st" and "spawned st' = spawned st"
    and "e = Shutdown \<longleftrightarrow> lifecycle (inner st) \<noteq> Running"
    and "job_drop jobs job (ext st) = (Returns (), ext st')"
    by (auto simp: exec_bind_Returns on_ext_Returns)
qed

lemma drop_on_unwind_Returns:
  "drop_on_unwind m d s = (Returns a, s') \<longleftrightarrow> m s = (Returns a, s')"
  by (auto simp: drop_on_unwind_def drop_while_unwinding_def split: prod.splits outcome.splits)

lemma submit_callable_refused:
  assumes "submit_callable_with api split handle_drop task st = (Returns (Inl e), st')"
  shows "inner st' = inner st \<and> spawned st' = spawned st \<and>
    (e = Shutdown \<longleftrightarrow> lifecycle (inner st) \<noteq> Running) \<and>
    (\<exists>handle slot x1 x2. split (ext st) = (Returns (handle, slot), x1) \<and>
       drop_after (callable_drop api task) (slot_drop api slot) x1 = (Returns (), x2) \<and>
       handle_drop handle x2 = (Returns (), ext st'))"
proof -
  from assms obtain handle slot x1 r st2 where
    split: "split (ext st) = (Returns (handle, slot), x1)"
    and adm: "admit_job (queued_job_methods api) (CallableJob task slot) (st\<lparr>ext := x1\<rparr>) =
      (Returns r, st2)"
    and rest: "(case r of
        Inl e \<Rightarrow> exec_bind (on_ext (handle_drop handle)) (\<lambda>_. exec_return (Inl e))
      | Inr admission \<Rightarrow>
          exec_bind (dispatch (dispatch_count admission)) (\<lambda>_. exec_return (Inr handle))) st2 =
      (Returns (Inl e), st')"
    unfolding submit_callable_with_def
    by (auto simp: exec_bind_Returns drop_on_unwind_Returns on_ext_Returns)
  from rest have "r = Inl e" and handle: "handle_drop handle (ext st2) = (Returns (), ext st')"
    and "inner st' = inner st2" "spawned st' = spawned st2"
    by (auto simp: exec_bind_Returns on_ext_Returns split: sum.splits)
  with adm admit_job_refused [of "queued_job_methods api" "CallableJob task slot"
      "st\<lparr>ext := x1\<rparr>" e st2] split
  show ?thesis
    by (auto simp: queued_job_methods_def)
qed

lemma submit_runnable_effect:
  assumes ok: "inner_ok (inner st)" and ids: "next_task_id (inner st) \<noteq> - 1"
    and drop: "runnable_drop api task (ext st) = (Returns (), x')"
  shows "submit_runnable api task st =
    (if lifecycle (inner st) \<noteq> Running then (Returns (Inl Shutdown), st\<lparr>ext := x'\<rparr>)
     else if occupied (inner st) \<ge> task_capacity (inner st)
     then (Returns (Inl Saturated), st\<lparr>ext := x'\<rparr>)
     else
       let count = min (list_len (queue (inner st)) + 1)
                       (saturating_sub (num_threads (inner st)) (scheduled (inner st)))
       in (Returns (Inr ()),
           st\<lparr>inner := (inner st)
                \<lparr>next_task_id := next_task_id (inner st) + 1,
                 queue := queue (inner st) @ [(next_task_id (inner st), RunnableJob task)],
                 scheduled := scheduled (inner st) + count\<rparr>,
              spawned := spawned st + unat count\<rparr>))"
proof -
  let ?i = "inner st" and ?job = "RunnableJob task"
  have "\<forall>j \<in> btree_keys (queue ?i). j < next_task_id ?i"
    using inner_okD(6) [OF ok] by (auto simp: tasks_ok_def)
  then have last: "btree_insert (next_task_id ?i) ?job (queue ?i) =
      queue ?i @ [(next_task_id ?i, ?job)]"
    by (rule btree_insert_last)
  have len: "list_len (xs @ [p]) = list_len xs + 1" for xs :: "(usize \<times> 'z) list" and p
    by (simp add: list_len_def)
  have next': "checked_add (next_task_id ?i) 1 = Some (next_task_id ?i + 1)"
    using ids by (rule checked_inc)
  consider (closed) "lifecycle ?i \<noteq> Running"
    | (full) "lifecycle ?i = Running" "task_capacity ?i \<le> occupied ?i"
    | (room) "lifecycle ?i = Running" "\<not> task_capacity ?i \<le> occupied ?i"
    by blast
  then show ?thesis
  proof cases
    case room
    then have "admit (accept_queued_job api) ?job ?i (ext st) =
        (let count = min (list_len (queue ?i) + 1) (saturating_sub (num_threads ?i) (scheduled ?i))
         in (Returns (Inr \<lparr>admitted_task_id = next_task_id ?i, dispatch_count = count\<rparr>),
             ?i\<lparr>next_task_id := next_task_id ?i + 1,
                queue := queue ?i @ [(next_task_id ?i, ?job)],
                scheduled := scheduled ?i + count\<rparr>, ext st))"
      by (simp add: admit_def next' last len Let_def)
    with room show ?thesis
      by (simp add: submit_runnable_def admit_job_def queued_job_methods_def Let_def exec_bind_def
          dispatch_eq)
  qed (use drop in \<open>simp_all add: submit_runnable_def admit_job_def admit_def queued_job_methods_def
        exec_bind_def on_ext_def\<close>)
qed

section \<open>The two submissions of a callable\<close>

lemma admit_job_id:
  "admit_job jobs job st = (Returns (Inr admission), st') \<Longrightarrow>
     admitted_task_id admission = next_task_id (inner st)"
  by (auto simp: admit_job_def admit_def Let_def exec_bind_def drop_while_unwinding_def
      split: prod.splits outcome.splits sum.splits if_splits option.splits)

text \<open>What a tracked handle adds to the plain one: the identifier of the admitted task.\<close>

definition tracked_result ::
  "usize \<Rightarrow> submission_error + 'h \<Rightarrow> submission_error + 'h rayon_task_handle" where
  "tracked_result task_id r = map_sum id (\<lambda>h. rayon_task_handle_new h task_id) r"

lemma tracked_submission_eq:
  "submit_tracked_callable api split handle_drop task st =
     exec_bind (submit_callable_with api split handle_drop task)
       (\<lambda>r. exec_return (tracked_result (next_task_id (inner st)) r)) st"
proof -
  let ?start = "drop_on_unwind (on_ext split) (on_ext (callable_drop api task))"
  obtain r1 st1 where 1: "?start st = (r1, st1)"
    by fastforce
  show ?thesis
  proof (cases r1)
    case (Returns p)
    obtain h slot where p: "p = (h, slot)"
      by fastforce
    have inner: "inner st1 = inner st"
      using 1 Returns by (auto simp: drop_on_unwind_Returns on_ext_Returns)
    let ?admit = "drop_on_unwind (admit_job (queued_job_methods api) (callable_job_new task slot))
      (on_ext (handle_drop h))"
    obtain r2 st2 where 2: "?admit st1 = (r2, st2)"
      by fastforce
    show ?thesis
    proof (cases r2)
      case (Returns a)
      show ?thesis
      proof (cases a)
        case (Inl e)
        with 1 2 p Returns \<open>r1 = Returns p\<close> show ?thesis
          by (auto simp: submit_tracked_callable_def submit_callable_with_def exec_bind_def
              tracked_result_def split: prod.split outcome.split)
      next
        case (Inr admission)
        have "admitted_task_id admission = next_task_id (inner st)"
          using 2 Returns Inr by (simp add: drop_on_unwind_Returns admit_job_id flip: inner)
        with 1 2 p Returns Inr \<open>r1 = Returns p\<close> show ?thesis
          by (auto simp: submit_tracked_callable_def submit_callable_with_def exec_bind_def
              tracked_result_def split: prod.split outcome.split)
      qed
    qed (use 1 2 p Returns in
        \<open>auto simp: submit_tracked_callable_def submit_callable_with_def exec_bind_def\<close>)
  qed (use 1 in \<open>auto simp: submit_tracked_callable_def submit_callable_with_def exec_bind_def\<close>)
qed

end
