(* ===== verification/Interleaving.thy ===== *)
theory Interleaving
  imports Executor_Service
begin

text \<open>
  The service under concurrency. A thread is the list of actions it still has to perform; one
  action is one critical section of the state mutex, one call of user code outside it, or one
  publication. \<open>perform\<close> runs the first action of a thread: it may put further actions in front of
  the thread's list and start Rayon worker closures, which is how \<open>submit\<close>, \<open>run_one\<close>,
  \<open>cancel_task\<close> and \<open>stop\<close> continue. Any thread may move at any time, a spawned closure may start
  at any time after it was spawned (no order or number of Rayon workers is assumed), and any client
  call may begin at any time, also from inside a running job. The mutex is what makes a critical
  section one step. The history is a ghost variable.
\<close>

section \<open>Threads and their actions\<close>

datatype 'job action =
  Admit 'job
| DropRejected bool 'job
| Dispatch nat
| TakeNext
| RunJob usize 'job
| FinishRunning usize
| SpawnSuccessor
| ClaimCancel usize
| EndpointCancel usize
| CheckRunning usize
| TrackedCancel usize
| CancelJob usize 'job
| FinishCancelling usize
| ShutdownService
| StopService
| SubscribeTermination
| Publish bool bool

text \<open>
  What happened to tasks: acceptance, the claim by a worker or by a cancellation, the end of the
  job's \<open>run\<close> or \<open>cancel\<close>, and the release of its capacity; \<open>Closed\<close> is a shutdown or stop.
\<close>

datatype event =
  Accepted usize | Started usize | Executed usize | Claimed usize | CancelRan usize
| Released usize | Closed

record ('job, 'x) environment =
  env_jobs :: "('job, 'x) queued_job_vtable"
  env_watch :: "'x watch_api option"
  env_tracked_cancel :: "usize \<Rightarrow> ('x, unit) exec"

record ('job, 'x) effect =
  eff_next :: "'job action list"
  eff_spawns :: nat
  eff_wake :: bool
  eff_events :: "event list"
  eff_inner :: "'job rayon_executor_service_inner"
  eff_ext :: 'x

definition effect_of ::
  "'job action list \<Rightarrow> event list \<Rightarrow> 'job rayon_executor_service_inner \<Rightarrow> 'x \<Rightarrow> ('job, 'x) effect"
  where
  "effect_of next events i x =
     \<lparr>eff_next = next, eff_spawns = 0, eff_wake = False, eff_events = events, eff_inner = i,
      eff_ext = x\<rparr>"

text \<open>The two channels are written one after the other; other threads may come between.\<close>

definition publish_actions :: "signals \<Rightarrow> 'job action list" where
  "publish_actions sg =
     (case async_changes sg of
        None \<Rightarrow> []
      | Some (capacity_changed, terminated) \<Rightarrow>
          (if capacity_changed then [Publish True False] else []) @
          (if terminated then [Publish False True] else []))"

text \<open>Code outside the crate, run by an action: its unwinding is contained, an abort ends it.\<close>

definition run_contained ::
  "('x, 'a) exec \<Rightarrow> event list \<Rightarrow> 'job rayon_executor_service_inner \<Rightarrow> 'x \<Rightarrow>
     ('job, 'x) effect option" where
  "run_contained m events i x =
     (case contain m x of (Aborts, x') \<Rightarrow> None | (_, x') \<Rightarrow> Some (effect_of [] events i x'))"

fun perform_admit ::
  "('job, 'x) environment \<Rightarrow> 'job \<Rightarrow> 'job rayon_executor_service_inner \<Rightarrow> 'x \<Rightarrow>
     ('job, 'x) effect option" where
  "perform_admit env job i x =
     (case admit (job_accept (env_jobs env)) job i x of
        (Returns (Inr admission), i', x') \<Rightarrow>
          Some (effect_of [Dispatch (unat (dispatch_count admission))]
                  [Accepted (admitted_task_id admission)] i' x')
      | (Returns (Inl e), i', x') \<Rightarrow> Some (effect_of [DropRejected False job] [] i' x')
      | (Unwinds p, i', x') \<Rightarrow> Some (effect_of [DropRejected True job] [] i' x')
      | (Aborts, i', x') \<Rightarrow> None)"

definition perform_drop ::
  "('job, 'x) environment \<Rightarrow> bool \<Rightarrow> 'job \<Rightarrow> 'job rayon_executor_service_inner \<Rightarrow> 'x \<Rightarrow>
     ('job, 'x) effect option" where
  "perform_drop env unwinding job i x =
     (case job_drop (env_jobs env) job x of
        (Returns _, x') \<Rightarrow> Some (effect_of [] [] i x')
      | (Unwinds p, x') \<Rightarrow> if unwinding then None else Some (effect_of [] [] i x')
      | (Aborts, x') \<Rightarrow> None)"

definition perform_dispatch ::
  "nat \<Rightarrow> 'job rayon_executor_service_inner \<Rightarrow> 'x \<Rightarrow> ('job, 'x) effect" where
  "perform_dispatch n i x =
     (if n = 0 then effect_of [] [] i x
      else (effect_of [Dispatch (n - 1)] [] i x)\<lparr>eff_spawns := 1\<rparr>)"

definition perform_take_next ::
  "'job rayon_executor_service_inner \<Rightarrow> 'x \<Rightarrow> ('job, 'x) effect" where
  "perform_take_next i x =
     (case take_next i of
        (None, sg, i') \<Rightarrow> (effect_of (publish_actions sg) [] i' x)\<lparr>eff_wake := wake_all sg\<rparr>
      | (Some (task_id, job), sg, i') \<Rightarrow>
          (effect_of (publish_actions sg @ [RunJob task_id job, FinishRunning task_id])
             [Started task_id] i' x)\<lparr>eff_wake := wake_all sg\<rparr>)"

definition perform_finish_running ::
  "usize \<Rightarrow> 'job rayon_executor_service_inner \<Rightarrow> 'x \<Rightarrow> ('job, 'x) effect" where
  "perform_finish_running task_id i x =
     (case finish_running task_id i of (successor, sg, i') \<Rightarrow>
        (effect_of (publish_actions sg @ (if successor then [SpawnSuccessor] else []))
           [Released task_id] i' x)
          \<lparr>eff_wake := wake_all sg\<rparr>)"

definition perform_claim_cancel ::
  "usize \<Rightarrow> 'job rayon_executor_service_inner \<Rightarrow> 'x \<Rightarrow> ('job, 'x) effect" where
  "perform_claim_cancel task_id i x =
     (case cancel_pending_task task_id i of
        (Owned job, i') \<Rightarrow>
          effect_of [CancelJob task_id job, FinishCancelling task_id] [Claimed task_id] i' x
      | (_, i') \<Rightarrow> effect_of [] [] i' x)"

text \<open>
  The detached endpoint: if the task is absent from the queue, a second critical section looks
  whether it is running, and if not, the tracked task (code of \<open>qubit_executor\<close>) is asked to cancel.
\<close>

definition perform_endpoint_cancel ::
  "usize \<Rightarrow> 'job rayon_executor_service_inner \<Rightarrow> 'x \<Rightarrow> ('job, 'x) effect" where
  "perform_endpoint_cancel task_id i x =
     (case cancel_pending_task task_id i of
        (Owned job, i') \<Rightarrow>
          effect_of [CancelJob task_id job, FinishCancelling task_id] [Claimed task_id] i' x
      | (InProgress, i') \<Rightarrow> effect_of [] [] i' x
      | (Absent, i') \<Rightarrow> effect_of [CheckRunning task_id] [] i' x)"

definition perform_check_running ::
  "usize \<Rightarrow> 'job rayon_executor_service_inner \<Rightarrow> 'x \<Rightarrow> ('job, 'x) effect" where
  "perform_check_running task_id i x =
     (if is_running_task task_id i then effect_of [] [] i x
      else effect_of [TrackedCancel task_id] [] i x)"

definition perform_tracked_cancel ::
  "('job, 'x) environment \<Rightarrow> usize \<Rightarrow> 'job rayon_executor_service_inner \<Rightarrow> 'x \<Rightarrow>
     ('job, 'x) effect option" where
  "perform_tracked_cancel env task_id i x =
     (case env_tracked_cancel env task_id x of
        (Aborts, x') \<Rightarrow> None
      | (_, x') \<Rightarrow> Some (effect_of [] [] i x'))"

text \<open>
  A termination subscription after \<open>subscribe\<close>: the check under the lock, and the repair of the
  channel as a publication of its own.
\<close>

definition perform_subscribe_termination ::
  "'job rayon_executor_service_inner \<Rightarrow> 'x \<Rightarrow> ('job, 'x) effect" where
  "perform_subscribe_termination i x =
     effect_of (if lifecycle i \<noteq> Running \<and> occupied i = 0 then [Publish False True] else []) [] i x"

definition perform_finish_cancelling ::
  "usize \<Rightarrow> 'job rayon_executor_service_inner \<Rightarrow> 'x \<Rightarrow> ('job, 'x) effect" where
  "perform_finish_cancelling task_id i x =
     (case finish_cancelling task_id i of (_, sg, i') \<Rightarrow>
        (effect_of (publish_actions sg) [Released task_id] i' x)\<lparr>eff_wake := wake_all sg\<rparr>)"

definition perform_shutdown ::
  "'job rayon_executor_service_inner \<Rightarrow> 'x \<Rightarrow> ('job, 'x) effect" where
  "perform_shutdown i x =
     (case shutdown i of (_, sg, i') \<Rightarrow>
        (effect_of (publish_actions sg) [Closed] i' x)\<lparr>eff_wake := wake_all sg\<rparr>)"

definition cancel_actions :: "(usize \<times> 'job) list \<Rightarrow> 'job action list" where
  "cancel_actions owned =
     concat (map (\<lambda>(task_id, job). [CancelJob task_id job, FinishCancelling task_id]) owned)"

definition perform_stop ::
  "'job rayon_executor_service_inner \<Rightarrow> 'x \<Rightarrow> ('job, 'x) effect" where
  "perform_stop i x =
     (case stop i of ((report, owned), sg, i') \<Rightarrow>
        (effect_of (publish_actions sg @ cancel_actions owned)
           (Closed # map (\<lambda>p. Claimed (fst p)) owned) i' x)\<lparr>eff_wake := wake_all sg\<rparr>)"

definition perform_publish ::
  "('job, 'x) environment \<Rightarrow> bool \<Rightarrow> bool \<Rightarrow> 'job rayon_executor_service_inner \<Rightarrow> 'x \<Rightarrow>
     ('job, 'x) effect option" where
  "perform_publish env capacity_changed terminated i x =
     (case notify_async_changes (env_watch env) capacity_changed terminated x of
        (Returns _, x') \<Rightarrow> Some (effect_of [] [] i x')
      | (_, x') \<Rightarrow> None)"

fun perform ::
  "('job, 'x) environment \<Rightarrow> 'job action \<Rightarrow> 'job rayon_executor_service_inner \<Rightarrow> 'x \<Rightarrow>
     ('job, 'x) effect option" where
  "perform env (Admit job) i x = perform_admit env job i x"
| "perform env (DropRejected unwinding job) i x = perform_drop env unwinding job i x"
| "perform env (Dispatch n) i x = Some (perform_dispatch n i x)"
| "perform env TakeNext i x = Some (perform_take_next i x)"
| "perform env (RunJob task_id job) i x =
     run_contained (job_run (env_jobs env) job) [Executed task_id] i x"
| "perform env (FinishRunning task_id) i x = Some (perform_finish_running task_id i x)"
| "perform env SpawnSuccessor i x = Some ((effect_of [] [] i x)\<lparr>eff_spawns := 1\<rparr>)"
| "perform env (ClaimCancel task_id) i x = Some (perform_claim_cancel task_id i x)"
| "perform env (EndpointCancel task_id) i x = Some (perform_endpoint_cancel task_id i x)"
| "perform env (CheckRunning task_id) i x = Some (perform_check_running task_id i x)"
| "perform env (TrackedCancel task_id) i x = perform_tracked_cancel env task_id i x"
| "perform env (CancelJob task_id job) i x =
     run_contained (job_cancel (env_jobs env) job) [CancelRan task_id] i x"
| "perform env (FinishCancelling task_id) i x = Some (perform_finish_cancelling task_id i x)"
| "perform env ShutdownService i x = Some (perform_shutdown i x)"
| "perform env StopService i x = Some (perform_stop i x)"
| "perform env SubscribeTermination i x = Some (perform_subscribe_termination i x)"
| "perform env (Publish capacity_changed terminated) i x =
     perform_publish env capacity_changed terminated i x"

section \<open>The system\<close>

record ('job, 'x) system =
  sys_inner :: "'job rayon_executor_service_inner"
  sys_ext :: 'x
  threads :: "'job action list multiset"
  history :: "event list"

definition initial_system :: "usize \<Rightarrow> usize \<Rightarrow> 'x \<Rightarrow> ('job, 'x) system" where
  "initial_system capacity workers x =
     \<lparr>sys_inner = new_state capacity workers, sys_ext = x, threads = {#}, history = []\<rparr>"

text \<open>What a client thread may begin with.\<close>

fun client_action :: "'job action \<Rightarrow> bool" where
  "client_action (Admit job) = True"
| "client_action (ClaimCancel task_id) = True"
| "client_action (EndpointCancel task_id) = True"
| "client_action SubscribeTermination = True"
| "client_action ShutdownService = True"
| "client_action StopService = True"
| "client_action _ = False"

text \<open>A handle or an endpoint exists only for an identifier that was given out.\<close>

fun handle_exists :: "'job rayon_executor_service_inner \<Rightarrow> 'job action \<Rightarrow> bool" where
  "handle_exists i (ClaimCancel task_id) = (task_id < next_task_id i)"
| "handle_exists i (EndpointCancel task_id) = (task_id < next_task_id i)"
| "handle_exists i _ = True"

definition apply_effect ::
  "('job, 'x) effect \<Rightarrow> 'job action list \<Rightarrow> 'job action list multiset \<Rightarrow> event list \<Rightarrow>
     ('job, 'x) system" where
  "apply_effect e rest others h =
     \<lparr>sys_inner = eff_inner e, sys_ext = eff_ext e,
      threads = add_mset (eff_next e @ rest) others + replicate_mset (eff_spawns e) [TakeNext],
      history = h @ eff_events e\<rparr>"

text \<open>
  The watch senders are private to the service: code outside the crate cannot change the values of
  the two channels.
\<close>

definition same_channels :: "'x watch_api option \<Rightarrow> 'x \<Rightarrow> 'x \<Rightarrow> bool" where
  "same_channels watch x x' \<longleftrightarrow>
     (case watch of
        None \<Rightarrow> True
      | Some w \<Rightarrow> capacity_value w x' = capacity_value w x \<and>
          termination_value w x' = termination_value w x)"

text \<open>
  \<open>internal_step\<close>: a thread of the system moves or ends; the Boolean says whether the step calls
  \<open>notify_all\<close> on the condition variable. \<open>system_step\<close> adds the calls of clients and changes
  that code outside the crate makes to its own state.
\<close>

inductive internal_step ::
  "('job, 'x) environment \<Rightarrow> ('job, 'x) system \<Rightarrow> bool \<Rightarrow> ('job, 'x) system \<Rightarrow> bool"
  for env :: "('job, 'x) environment" where
  act: "threads s = add_mset (a # rest) others \<Longrightarrow>
        perform env a (sys_inner s) (sys_ext s) = Some e \<Longrightarrow>
        internal_step env s (eff_wake e) (apply_effect e rest others (history s))"
| finish: "threads s = add_mset [] others \<Longrightarrow>
        internal_step env s False (s\<lparr>threads := others\<rparr>)"

inductive system_step ::
  "('job, 'x) environment \<Rightarrow> ('job, 'x) system \<Rightarrow> bool \<Rightarrow> ('job, 'x) system \<Rightarrow> bool"
  for env :: "('job, 'x) environment" where
  internal: "internal_step env s w s' \<Longrightarrow> system_step env s w s'"
| call: "client_action a \<Longrightarrow> handle_exists (sys_inner s) a \<Longrightarrow> system_step env s False (s\<lparr>threads := add_mset [a] (threads s)\<rparr>)"
| outside: "same_channels (env_watch env) (sys_ext s) x' \<Longrightarrow>
     system_step env s False (s\<lparr>sys_ext := x'\<rparr>)"

inductive reachable ::
  "('job, 'x) environment \<Rightarrow> ('job, 'x) system \<Rightarrow> ('job, 'x) system \<Rightarrow> bool"
  for env :: "('job, 'x) environment" and s0 :: "('job, 'x) system" where
  initial: "reachable env s0 s0"
| step: "reachable env s0 s \<Longrightarrow> system_step env s w s' \<Longrightarrow> reachable env s0 s'"

inductive_cases internal_stepE: "internal_step env s w s'"
inductive_cases system_stepE: "system_step env s w s'"

section \<open>What threads hold\<close>

definition total :: "('a \<Rightarrow> 'b::comm_monoid_add) \<Rightarrow> 'a list multiset \<Rightarrow> 'b" where
  "total f T = (\<Sum>k\<in>#T. sum_list (map f k))"

lemma total_simps [simp]:
  "total f {#} = 0"
  "total f (add_mset k T) = sum_list (map f k) + total f T"
  "total f (T + U) = total f T + total f U"
  by (simp_all add: total_def)

lemma total_replicate: "total f (replicate_mset n [a]) = (\<Sum>i<n. f a)"
  by (induction n) (auto simp: total_def add.commute)

text \<open>
  Worker reservations (a closure that is still to be spawned, is waiting to start, or is running a
  job), running tasks, tasks being cancelled, and the jobs a thread owns.
\<close>

fun reserved :: "'job action \<Rightarrow> nat" where
  "reserved (Dispatch n) = n"
| "reserved TakeNext = 1"
| "reserved (FinishRunning task_id) = 1"
| "reserved SpawnSuccessor = 1"
| "reserved _ = 0"

fun running_ids :: "'job action \<Rightarrow> usize multiset" where
  "running_ids (FinishRunning task_id) = {#task_id#}"
| "running_ids _ = {#}"

fun cancelling_ids :: "'job action \<Rightarrow> usize multiset" where
  "cancelling_ids (FinishCancelling task_id) = {#task_id#}"
| "cancelling_ids _ = {#}"

fun owned_ids :: "'job action \<Rightarrow> usize multiset" where
  "owned_ids (RunJob task_id job) = {#task_id#}"
| "owned_ids (CancelJob task_id job) = {#task_id#}"
| "owned_ids _ = {#}"

fun accepted_id :: "event \<Rightarrow> usize multiset" where
  "accepted_id (Accepted task_id) = {#task_id#}"
| "accepted_id _ = {#}"

fun ended_id :: "event \<Rightarrow> usize multiset" where
  "ended_id (Executed task_id) = {#task_id#}"
| "ended_id (CancelRan task_id) = {#task_id#}"
| "ended_id _ = {#}"

fun started_id :: "event \<Rightarrow> usize list" where
  "started_id (Started task_id) = [task_id]"
| "started_id _ = []"

definition accepted :: "event list \<Rightarrow> usize multiset" where
  "accepted h = sum_list (map accepted_id h)"

definition ended :: "event list \<Rightarrow> usize multiset" where
  "ended h = sum_list (map ended_id h)"

definition started :: "event list \<Rightarrow> usize list" where
  "started h = concat (map started_id h)"

lemma history_simps [simp]:
  "accepted [] = {#}" "accepted (h @ h') = accepted h + accepted h'"
  "accepted [Accepted i] = {#i#}" "accepted [Started i] = {#}" "accepted [Executed i] = {#}"
  "accepted [CancelRan i] = {#}" "accepted [Claimed i] = {#}" "accepted [Released i] = {#}"
  "accepted [Closed] = {#}" "accepted (Closed # h) = accepted h"
  "accepted (map (\<lambda>p. Claimed (f p)) ps) = {#}"
  "ended [] = {#}" "ended (h @ h') = ended h + ended h'"
  "ended [Accepted i] = {#}" "ended [Started i] = {#}" "ended [Executed i] = {#i#}"
  "ended [CancelRan i] = {#i#}" "ended [Claimed i] = {#}" "ended [Released i] = {#}"
  "ended [Closed] = {#}" "ended (Closed # h) = ended h"
  "ended (map (\<lambda>p. Claimed (f p)) ps) = {#}"
  "started [] = []" "started (h @ h') = started h @ started h'"
  "started [Accepted i] = []" "started [Started i] = [i]" "started [Executed i] = []"
  "started [CancelRan i] = []" "started [Claimed i] = []" "started [Released i] = []"
  "started [Closed] = []" "started (Closed # h) = started h"
  "started (map (\<lambda>p. Claimed (f p)) ps) = []"
  by (simp_all add: accepted_def ended_def started_def comp_def)

lemma count_accepted: "count (accepted h) n = length (filter (\<lambda>e. e = Accepted n) h)"
proof (induction h)
  case (Cons e h)
  then show ?case
    by (cases e) (auto simp: accepted_def)
qed simp

lemma count_ended:
  "count (ended h) n = length (filter (\<lambda>e. e = Executed n \<or> e = CancelRan n) h)"
proof (induction h)
  case (Cons e h)
  then show ?case
    by (cases e) (auto simp: ended_def)
qed simp

end
