(* ===== verification/System_Invariant.thy ===== *)
theory System_Invariant
  imports Interleaving
begin

text \<open>
  Safety of the interleaved system. The locale \<open>invariant_system\<close> is the interface between a step
  relation and what is proved of all its runs; the locale's interpretation \<open>svc\<close> discharges it for
  the service with the invariant \<open>sys_ok\<close>: the locked record is well formed, its counters are
  exactly the reservations, running tasks and cancellations held by the threads, and every accepted
  task is in exactly one place.
\<close>

locale invariant_system =
  fixes start :: "'s \<Rightarrow> bool"
    and step :: "'s \<Rightarrow> 'l \<Rightarrow> 's \<Rightarrow> bool"
    and Inv :: "'s \<Rightarrow> bool"
  assumes start_inv: "start s \<Longrightarrow> Inv s"
    and step_inv: "Inv s \<Longrightarrow> step s l s' \<Longrightarrow> Inv s'"
begin

lemma run_inv: "(\<lambda>s s'. \<exists>l. step s l s')\<^sup>*\<^sup>* s s' \<Longrightarrow> Inv s \<Longrightarrow> Inv s'"
  by (induction rule: rtranclp_induct) (auto intro: step_inv)

end

text \<open>
  A simulation: what is seen of a state moves by steps of a smaller system. It carries over from
  single steps to runs.
\<close>

locale simulation_system = invariant_system start step Inv
  for start :: "'s \<Rightarrow> bool" and step :: "'s \<Rightarrow> 'l \<Rightarrow> 's \<Rightarrow> bool" and Inv +
  fixes view :: "'s \<Rightarrow> 'a"
    and seen_step :: "'a \<Rightarrow> 'a \<Rightarrow> bool"
  assumes step_seen: "Inv s \<Longrightarrow> step s l s' \<Longrightarrow> seen_step\<^sup>*\<^sup>* (view s) (view s')"
begin

lemma run_seen:
  "(\<lambda>s s'. \<exists>l. step s l s')\<^sup>*\<^sup>* s s' \<Longrightarrow> Inv s \<Longrightarrow> Inv s' \<and> seen_step\<^sup>*\<^sup>* (view s) (view s')"
proof (induction rule: rtranclp_induct)
  case base
  then show ?case by simp
next
  case (step s1 s2)
  then obtain l where "step s1 l s2"
    by blast
  with step step_inv [of s1 l s2] step_seen [of s1 l s2] show ?case
    by (auto intro: rtranclp_trans)
qed

end

section \<open>The invariant\<close>

text \<open>\<open>balanced\<close>: the counters and sets of the record are what the threads hold.\<close>

definition balanced ::
  "'job rayon_executor_service_inner \<Rightarrow> 'job action list multiset \<Rightarrow> bool" where
  "balanced i T \<longleftrightarrow>
     total reserved T = unat (scheduled i) \<and>
     total running_ids T = mset_set (running_tasks i) \<and>
     total cancelling_ids T = mset_set (cancelling i)"

text \<open>\<open>ledger\<close>: each accepted task is queued, owned by one thread, or ended, exactly once.\<close>

definition ledger ::
  "'job rayon_executor_service_inner \<Rightarrow> 'job action list multiset \<Rightarrow> event list \<Rightarrow> bool" where
  "ledger i T h \<longleftrightarrow>
     mset (map fst (queue i)) + total owned_ids T + ended h = accepted h \<and>
     (\<forall>n. count (accepted h) n \<le> 1) \<and>
     (\<forall>n \<in># accepted h. n < next_task_id i)"

text \<open>\<open>fifo\<close>: tasks were started in ascending order, and all of them before the queued ones.\<close>

definition fifo :: "'job rayon_executor_service_inner \<Rightarrow> event list \<Rightarrow> bool" where
  "fifo i h \<longleftrightarrow>
     sorted_wrt (<) (started h) \<and>
     (\<forall>n \<in> set (started h). n < next_task_id i \<and> (\<forall>m \<in> btree_keys (queue i). n < m))"

definition sys_ok :: "('job, 'x) system \<Rightarrow> bool" where
  "sys_ok s \<longleftrightarrow>
     inner_ok (sys_inner s) \<and> balanced (sys_inner s) (threads s) \<and>
     ledger (sys_inner s) (threads s) (history s) \<and> fifo (sys_inner s) (history s)"

lemma sys_ok_initial: "sys_ok (initial_system capacity workers x)"
  by (simp add: sys_ok_def initial_system_def new_state_ok balanced_def ledger_def fifo_def)
    (simp add: new_state_def)

lemma running_reserved: "size (total running_ids T) \<le> total reserved T"
proof (induction T)
  case empty
  then show ?case by simp
next
  case (add k T)
  have "size (sum_list (map running_ids k)) \<le> sum_list (map reserved k)"
  proof (induction k)
    case Nil
    then show ?case by simp
  next
    case (Cons a k)
    moreover have "size (running_ids a) \<le> reserved a"
      by (cases a) auto
    ultimately show ?case by simp
  qed
  with add show ?case by simp
qed

section \<open>One action keeps the balance\<close>

text \<open>
  The thread that moves holds \<open>a\<close>; \<open>R\<close>, \<open>M\<close> and \<open>C\<close> are what the rest of the system (the
  remaining actions of the thread included) holds.
\<close>

lemma reserved_publish [simp]:
  "sum_list (map reserved (publish_actions sg)) = 0"
  "sum_list (map running_ids (publish_actions sg)) = {#}"
  "sum_list (map cancelling_ids (publish_actions sg)) = {#}"
  "sum_list (map owned_ids (publish_actions sg)) = {#}"
  by (auto simp: publish_actions_def split: option.split)

lemma held_cancel_actions [simp]:
  "sum_list (map reserved (cancel_actions q)) = 0"
  "sum_list (map running_ids (cancel_actions q)) = {#}"
  "sum_list (map cancelling_ids (cancel_actions q)) = mset (map fst q)"
  "sum_list (map owned_ids (cancel_actions q)) = mset (map fst q)"
  by (induction q) (auto simp: cancel_actions_def)

lemma effect_of_simps [simp]:
  "eff_next (effect_of nx ev i x) = nx" "eff_spawns (effect_of nx ev i x) = 0"
  "eff_wake (effect_of nx ev i x) = False" "eff_events (effect_of nx ev i x) = ev"
  "eff_inner (effect_of nx ev i x) = i" "eff_ext (effect_of nx ev i x) = x"
  by (simp_all add: effect_of_def)

text \<open>The record after an action that does not touch it.\<close>

lemma run_contained_Some:
  "run_contained m ev i x = Some e \<longleftrightarrow>
     e = effect_of [] ev i (snd (contain m x)) \<and> fst (contain m x) = Returns ()"
  using guarded.guard_cases [of m x]
  by (cases "contain m x") (auto simp: run_contained_def split: outcome.splits)

lemma perform_admit_Some:
  assumes "perform_admit env job i x = Some e"
  obtains (kept) "eff_inner e = i \<or> (eff_inner e = i\<lparr>next_task_id := next_task_id i + 1\<rparr> \<and>
      unat (next_task_id i + 1) = Suc (unat (next_task_id i)))"
      "eff_next e = [DropRejected False job] \<or> eff_next e = [DropRejected True job]"
      "eff_spawns e = 0" "eff_wake e = False"
      "eff_events e = []"
  | (admitted) n where
      "unat (next_task_id i + 1) = Suc (unat (next_task_id i))"
      "lifecycle i = Running"
      "occupied i < task_capacity i"
      "n = min (list_len (btree_insert (next_task_id i) job (queue i)))
             (saturating_sub (num_threads i) (scheduled i))"
      "eff_inner e = i\<lparr>next_task_id := next_task_id i + 1,
         queue := btree_insert (next_task_id i) job (queue i), scheduled := scheduled i + n\<rparr>"
      "eff_next e = [Dispatch (unat n)]" "eff_spawns e = 0" "eff_wake e = False"
      "eff_events e = [Accepted (next_task_id i)]"
proof -
  obtain r i' x' where adm: "admit (job_accept (env_jobs env)) job i x = (r, i', x')"
    by (metis prod_cases3)
  from adm show ?thesis
  proof (cases rule: admit_cases)
    case accept_fails
    with assms adm kept show ?thesis
      by (cases r) (auto split: sum.splits)
  next
    case (admitted n)
    with assms adm that(2) show ?thesis
      by auto
  qed (use assms adm kept in auto)
qed

text \<open>
  The other actions leave the record alone. \<open>perform_cases\<close> is how every lemma on a single action
  splits: one case for each critical section that writes the record, and one for all the rest. A
  claim through the detached endpoint is a claim, or, when the task is absent, one of the rest.
\<close>

fun quiet_action :: "'job action \<Rightarrow> bool" where
  "quiet_action (DropRejected u job) = True"
| "quiet_action (Dispatch n) = True"
| "quiet_action (RunJob n job) = True"
| "quiet_action SpawnSuccessor = True"
| "quiet_action (EndpointCancel n) = True"
| "quiet_action (CheckRunning n) = True"
| "quiet_action (TrackedCancel n) = True"
| "quiet_action (CancelJob n job) = True"
| "quiet_action SubscribeTermination = True"
| "quiet_action (Publish c t) = True"
| "quiet_action _ = False"

lemmas quiet_defs =
  perform_drop_def perform_dispatch_def perform_check_running_def perform_tracked_cancel_def
  perform_subscribe_termination_def perform_publish_def

definition quiet_effect ::
  "'job action \<Rightarrow> 'job rayon_executor_service_inner \<Rightarrow> ('job, 'x) effect \<Rightarrow> bool" where
  "quiet_effect a i e \<longleftrightarrow>
     eff_inner e = i \<and> \<not> eff_wake e \<and>
     sum_list (map reserved (eff_next e)) + eff_spawns e = reserved a \<and>
     running_ids a = {#} \<and> sum_list (map running_ids (eff_next e)) = {#} \<and>
     cancelling_ids a = {#} \<and> sum_list (map cancelling_ids (eff_next e)) = {#} \<and>
     sum_list (map owned_ids (eff_next e)) + ended (eff_events e) = owned_ids a \<and>
     accepted (eff_events e) = {#} \<and> started (eff_events e) = [] \<and>
     (\<forall>c t. Publish c t \<in> set (eff_next e) \<longrightarrow> \<not> c \<and> t \<and> drained i)"

lemma quiet_effectD:
  assumes "quiet_effect a i e"
  shows "eff_inner e = i" "\<not> eff_wake e"
    "sum_list (map reserved (eff_next e)) + eff_spawns e = reserved a"
    "running_ids a = {#}" "sum_list (map running_ids (eff_next e)) = {#}"
    "cancelling_ids a = {#}" "sum_list (map cancelling_ids (eff_next e)) = {#}"
    "sum_list (map owned_ids (eff_next e)) + ended (eff_events e) = owned_ids a"
    "accepted (eff_events e) = {#}" "started (eff_events e) = []"
    "Publish c t \<in> set (eff_next e) \<Longrightarrow> \<not> c \<and> t \<and> drained i"
  using assms by (auto simp: quiet_effect_def)

lemma endpoint_cancel_cases:
  "perform_endpoint_cancel n i x = perform_claim_cancel n i x \<or>
   perform_endpoint_cancel n i x = effect_of [CheckRunning n] [] i x \<and>
     fst (cancel_pending_task n i) = Absent"
proof -
  obtain d i' where c: "cancel_pending_task n i = (d, i')"
    by fastforce
  then show ?thesis
    by (cases rule: cancel_pending_task_cases)
      (simp_all add: perform_endpoint_cancel_def perform_claim_cancel_def c)
qed

lemma perform_cases:
  assumes e: "perform env a i x = Some e"
  obtains
    (admit) job where "a = Admit job" "perform_admit env job i x = Some e"
  | (take_task) "a = TakeNext" "e = perform_take_next i x"
  | (finish) n where "a = FinishRunning n" "e = perform_finish_running n i x"
  | (claim) n where "a = ClaimCancel n \<or> a = EndpointCancel n" "e = perform_claim_cancel n i x"
  | (release) n where "a = FinishCancelling n" "e = perform_finish_cancelling n i x"
  | (shut) "a = ShutdownService" "e = perform_shutdown i x"
  | (stop) "a = StopService" "e = perform_stop i x"
  | (quiet) "quiet_action a" "quiet_effect a i e"
proof (cases "\<exists>n. a = EndpointCancel n")
  case True
  then obtain n where a: "a = EndpointCancel n"
    by blast
  with e endpoint_cancel_cases [of n i x] consider "e = perform_claim_cancel n i x"
    | "e = effect_of [CheckRunning n] [] i x"
    by auto
  then show ?thesis
  proof cases
    case 2
    with a have "quiet_effect a i e"
      by (simp add: quiet_effect_def)
    with a quiet show ?thesis by simp
  qed (use a claim in blast)
next
  case False
  show ?thesis
  proof (cases "quiet_action a")
    case True
    with False e have "quiet_effect a i e"
      by (cases a) (auto simp: quiet_effect_def quiet_defs run_contained_Some drained_def
          split: prod.splits outcome.splits if_splits)
    with True quiet show ?thesis by blast
  next
    case noisy: False
    show ?thesis
    proof (cases a)
      case (Admit job)
      with e admit show ?thesis by simp
    qed (use e False noisy that in simp_all)
  qed
qed

text \<open>
  The same split with the effect of every case written out: \<open>perform_effects\<close> is the table of what
  a single action does. \<open>term_publish\<close> is the publication of termination, if the new record is
  drained.
\<close>

definition term_publish :: "'job rayon_executor_service_inner \<Rightarrow> 'job action list" where
  "term_publish i = (if drained i then [Publish False True] else [])"

lemma term_publish_simps [simp]:
  "sum_list (map reserved (term_publish i)) = 0"
  "sum_list (map running_ids (term_publish i)) = {#}"
  "sum_list (map cancelling_ids (term_publish i)) = {#}"
  "sum_list (map owned_ids (term_publish i)) = {#}"
  "Publish c t \<in> set (term_publish i) \<longleftrightarrow> \<not> c \<and> t \<and> drained i"
  "drained i \<Longrightarrow> term_publish i = [Publish False True]"
  "\<not> drained i \<Longrightarrow> term_publish i = []"
  by (auto simp: term_publish_def)

lemma publish_actions_simps [simp]:
  "publish_actions \<lparr>wake_all = wk, async_changes = None\<rparr> = []"
  "publish_actions \<lparr>wake_all = wk, async_changes = Some (False, drained i)\<rparr> = term_publish i"
  "publish_actions \<lparr>wake_all = wk, async_changes = Some (True, drained i)\<rparr> =
     Publish True False # term_publish i"
  by (simp_all add: publish_actions_def term_publish_def)

lemma perform_effects:
  assumes e: "perform env a i x = Some e"
  obtains
    (refused) job u where "a = Admit job"
      "eff_inner e = i \<or> (eff_inner e = i\<lparr>next_task_id := next_task_id i + 1\<rparr> \<and>
         unat (next_task_id i + 1) = Suc (unat (next_task_id i)))"
      "eff_next e = [DropRejected u job]" "eff_spawns e = 0" "\<not> eff_wake e" "eff_events e = []"
  | (admitted) job n where "a = Admit job"
      "lifecycle i = Running" "occupied i < task_capacity i"
      "unat (next_task_id i + 1) = Suc (unat (next_task_id i))"
      "n = min (list_len (btree_insert (next_task_id i) job (queue i)))
             (saturating_sub (num_threads i) (scheduled i))"
      "eff_inner e = i\<lparr>next_task_id := next_task_id i + 1,
         queue := btree_insert (next_task_id i) job (queue i), scheduled := scheduled i + n\<rparr>"
      "eff_next e = [Dispatch (unat n)]" "eff_spawns e = 0" "\<not> eff_wake e"
      "eff_events e = [Accepted (next_task_id i)]"
  | (idled) i' where "a = TakeNext" "queue i = []"
      "i' = i\<lparr>scheduled := saturating_sub (scheduled i) 1\<rparr>"
      "e = (effect_of (term_publish i') [] i' x)\<lparr>eff_wake := drained i'\<rparr>"
  | (taken) n job q where "a = TakeNext" "queue i = (n, job) # q"
      "e = effect_of [RunJob n job, FinishRunning n] [Started n]
         (i\<lparr>queue := q, running := running i + 1, running_tasks := insert n (running_tasks i)\<rparr>) x"
  | (finished) n i' where "a = FinishRunning n"
      "i' = i\<lparr>running_tasks := running_tasks i - {n}, running := saturating_sub (running i) 1,
         scheduled := (if queue i = [] then saturating_sub (scheduled i) 1 else scheduled i)\<rparr>"
      "e = (effect_of (Publish True False # term_publish i' @
              (if queue i = [] then [] else [SpawnSuccessor])) [Released n] i' x)
         \<lparr>eff_wake := drained i'\<rparr>"
  | (claimed) n job where "a = ClaimCancel n \<or> a = EndpointCancel n"
      "map_of (queue i) n = Some job"
      "e = effect_of [CancelJob n job, FinishCancelling n] [Claimed n]
         (i\<lparr>queue := filter (\<lambda>p. fst p \<noteq> n) (queue i), cancelling := insert n (cancelling i)\<rparr>) x"
  | (unclaimed) n where "a = ClaimCancel n \<or> a = EndpointCancel n" "e = effect_of [] [] i x"
  | (released) n i' where "a = FinishCancelling n"
      "i' = i\<lparr>cancelling := cancelling i - {n}\<rparr>"
      "e = (effect_of (Publish True False # term_publish i') [Released n] i' x)\<lparr>eff_wake := True\<rparr>"
  | (shut) i' where "a = ShutdownService"
      "i' = i\<lparr>lifecycle := (if lifecycle i = Running then ShuttingDown else lifecycle i)\<rparr>"
      "e = (effect_of (Publish True False # term_publish i') [Closed] i' x)\<lparr>eff_wake := drained i'\<rparr>"
  | (stopped) i' where "a = StopService"
      "i' = i\<lparr>lifecycle := Stopping, queue := [],
         cancelling := cancelling i \<union> btree_keys (queue i)\<rparr>"
      "e = (effect_of (Publish True False # term_publish i' @ cancel_actions (queue i))
              (Closed # map (\<lambda>p. Claimed (fst p)) (queue i)) i' x)\<lparr>eff_wake := drained i'\<rparr>"
  | (quiet) "quiet_action a" "quiet_effect a i e"
  using e
proof (cases rule: perform_cases)
  case (admit job)
  from admit(2) show ?thesis
  proof (cases rule: perform_admit_Some)
    case kept
    with admit(1) refused show ?thesis by auto
  next
    case (admitted n)
    with admit(1) that(2) show ?thesis by simp
  qed
next
  case take_task
  show ?thesis
  proof (cases "queue i")
    case Nil
    with take_task idled show ?thesis
      by (simp add: perform_take_next_def take_next_def Let_def)
  next
    case (Cons p q)
    with take_task taken show ?thesis
      by (cases p) (simp add: perform_take_next_def take_next_def effect_of_def)
  qed
next
  case (finish n)
  with finished show ?thesis
    by (simp add: perform_finish_running_def finish_running_eq Let_def)
next
  case (claim n)
  obtain d i' where cl: "cancel_pending_task n i = (d, i')"
    by fastforce
  then show ?thesis
  proof (cases rule: cancel_pending_task_cases)
    case (owned job)
    with claim cl claimed [of n job] show ?thesis
      by (simp add: perform_claim_cancel_def)
  qed (use claim cl unclaimed in \<open>simp_all add: perform_claim_cancel_def\<close>)
next
  case (release n)
  with released show ?thesis
    by (simp add: perform_finish_cancelling_def finish_cancelling_def Let_def)
next
  case shut
  with that(9) show ?thesis
    by (simp add: perform_shutdown_def shutdown_eq Let_def)
next
  case stop
  with stopped show ?thesis
    by (simp add: perform_stop_def stop_eq Let_def)
qed (rule quiet)

text \<open>What the whole system must hold, given as three totals.\<close>

definition holds_all ::
  "'job rayon_executor_service_inner \<Rightarrow> nat \<Rightarrow> usize multiset \<Rightarrow> usize multiset \<Rightarrow> bool" where
  "holds_all i R M C \<longleftrightarrow>
     R = unat (scheduled i) \<and> M = mset_set (running_tasks i) \<and> C = mset_set (cancelling i)"

lemma balanced_holds_all:
  "balanced i T \<longleftrightarrow>
     holds_all i (total reserved T) (total running_ids T) (total cancelling_ids T)"
  by (simp add: balanced_def holds_all_def)

lemma admit_holds:
  assumes "inner_ok i" and "perform_admit env job i x = Some e" and "holds_all i R M C"
  shows "inner_ok (eff_inner e)"
    and "holds_all (eff_inner e)
      (sum_list (map reserved (eff_next e)) + eff_spawns e + R)
      (sum_list (map running_ids (eff_next e)) + M)
      (sum_list (map cancelling_ids (eff_next e)) + C)"
proof -
  obtain r i' x' where adm: "admit (job_accept (env_jobs env)) job i x = (r, i', x')"
    by (metis prod_cases3)
  have "i' = eff_inner e"
    using assms(2) adm by (auto split: outcome.splits sum.splits)
  with admit_ok [OF assms(1) adm] show ok: "inner_ok (eff_inner e)"
    by simp
  from assms(2) show "holds_all (eff_inner e)
      (sum_list (map reserved (eff_next e)) + eff_spawns e + R)
      (sum_list (map running_ids (eff_next e)) + M)
      (sum_list (map cancelling_ids (eff_next e)) + C)"
  proof (cases rule: perform_admit_Some)
    case kept
    with assms(3) show ?thesis
      by (auto simp: holds_all_def)
  next
    case (admitted n)
    have "unat (saturating_sub (num_threads i) (scheduled i)) =
        unat (num_threads i) - unat (scheduled i)"
      by (rule unat_saturating_sub)
    then have "unat n \<le> unat (num_threads i) - unat (scheduled i)"
      by (simp add: admitted(4) unat_min)
    then have "unat (scheduled i + n) = unat (scheduled i) + unat n"
      using inner_okD(7) [OF assms(1)]
      by (intro unat_add_le_word [where c = "num_threads i"]) (auto simp: counters_ok_def)
    with assms(3) show ?thesis
      by (simp add: holds_all_def admitted(5-7))
  qed
qed

lemma take_next_holds:
  assumes ok: "inner_ok i" and all: "holds_all i (Suc R) M C" and room: "size M \<le> R"
    and e: "e = perform_take_next i x"
  shows "inner_ok (eff_inner e)"
    and "holds_all (eff_inner e)
      (sum_list (map reserved (eff_next e)) + eff_spawns e + R)
      (sum_list (map running_ids (eff_next e)) + M)
      (sum_list (map cancelling_ids (eff_next e)) + C)"
proof -
  have idle: "unat (running i) < unat (scheduled i)"
    using inner_okD(2,4) [OF ok] all room by (simp add: holds_all_def)
  obtain r sg i' where tk: "take_next i = (r, sg, i')"
    by (metis prod_cases3)
  have inner: "eff_inner e = i'"
    using tk by (simp add: e perform_take_next_def split: option.split prod.split)
  show "inner_ok (eff_inner e)"
    using take_next_idle_ok [OF ok _ idle] take_next_job_ok [OF ok _ idle] tk inner
    by (cases r) auto
  show "holds_all (eff_inner e)
      (sum_list (map reserved (eff_next e)) + eff_spawns e + R)
      (sum_list (map running_ids (eff_next e)) + M)
      (sum_list (map cancelling_ids (eff_next e)) + C)"
  proof (cases r)
    case None
    with tk have "i' = i\<lparr>scheduled := saturating_sub (scheduled i) 1\<rparr>"
      by (simp add: take_next_None)
    with all tk None inner show ?thesis
      by (auto simp: e perform_take_next_def holds_all_def unat_saturating_sub)
  next
    case (Some p)
    obtain task_id job where p: "p = (task_id, job)"
      by fastforce
    from tk Some p obtain q where q: "queue i = (task_id, job) # q"
      and i': "i' = i\<lparr>queue := q, running := running i + 1,
                 running_tasks := insert task_id (running_tasks i)\<rparr>"
      by (auto simp: take_next_Some)
    have "task_id \<notin> running_tasks i"
      using inner_okD(6) [OF ok] q by (auto simp: tasks_ok_def)
    with all tk Some p inner i' inner_okD(2) [OF ok] show ?thesis
      by (simp add: e perform_take_next_def holds_all_def)
  qed
qed

lemma finish_running_holds:
  assumes ok: "inner_ok i" and all: "holds_all i (Suc R) (add_mset task_id M) C"
    and e: "e = perform_finish_running task_id i x"
  shows "inner_ok (eff_inner e)"
    and "holds_all (eff_inner e)
      (sum_list (map reserved (eff_next e)) + eff_spawns e + R)
      (sum_list (map running_ids (eff_next e)) + M)
      (sum_list (map cancelling_ids (eff_next e)) + C)"
proof -
  have "task_id \<in># mset_set (running_tasks i)"
    using all by (metis holds_all_def union_single_eq_member)
  then have mem: "task_id \<in> running_tasks i"
    using inner_okD(2) [OF ok] by simp
  obtain d sg i' where fin: "finish_running task_id i = (d, sg, i')"
    by (metis prod_cases3)
  have inner: "eff_inner e = i'"
    using fin by (simp add: e perform_finish_running_def)
  show "inner_ok (eff_inner e)"
    using finish_running_ok [OF ok mem fin] inner by simp
  have "mset_set (running_tasks i - {task_id}) = M"
    using all mset_set_remove [OF inner_okD(2) [OF ok] mem] by (simp add: holds_all_def)
  with all fin inner show "holds_all (eff_inner e)
      (sum_list (map reserved (eff_next e)) + eff_spawns e + R)
      (sum_list (map running_ids (eff_next e)) + M)
      (sum_list (map cancelling_ids (eff_next e)) + C)"
    by (auto simp: e perform_finish_running_def holds_all_def finish_running_eq Let_def
        unat_saturating_sub)
qed

lemma claim_cancel_holds:
  assumes ok: "inner_ok i" and all: "holds_all i R M C"
    and e: "e = perform_claim_cancel task_id i x"
  shows "inner_ok (eff_inner e)"
    and "holds_all (eff_inner e)
      (sum_list (map reserved (eff_next e)) + eff_spawns e + R)
      (sum_list (map running_ids (eff_next e)) + M)
      (sum_list (map cancelling_ids (eff_next e)) + C)"
proof -
  obtain d i' where cl: "cancel_pending_task task_id i = (d, i')"
    by fastforce
  have inner: "eff_inner e = i'"
    using cl by (simp add: e perform_claim_cancel_def split: cancel_disposition.split)
  show "inner_ok (eff_inner e)"
    using cancel_pending_task_ok [OF ok cl] inner by simp
  from cl show "holds_all (eff_inner e)
      (sum_list (map reserved (eff_next e)) + eff_spawns e + R)
      (sum_list (map running_ids (eff_next e)) + M)
      (sum_list (map cancelling_ids (eff_next e)) + C)"
  proof (cases rule: cancel_pending_task_cases)
    case (owned job)
    have "task_id \<notin> cancelling i"
      using inner_okD(6) [OF ok] map_of_btree_Some [OF owned(1)] by (auto simp: tasks_ok_def)
    with all cl owned inner inner_okD(3) [OF ok] show ?thesis
      by (simp add: e perform_claim_cancel_def holds_all_def)
  qed (use all cl inner in \<open>simp_all add: e perform_claim_cancel_def\<close>)
qed

lemma finish_cancelling_holds:
  assumes ok: "inner_ok i" and all: "holds_all i R M (add_mset task_id C)"
    and e: "e = perform_finish_cancelling task_id i x"
  shows "inner_ok (eff_inner e)"
    and "holds_all (eff_inner e)
      (sum_list (map reserved (eff_next e)) + eff_spawns e + R)
      (sum_list (map running_ids (eff_next e)) + M)
      (sum_list (map cancelling_ids (eff_next e)) + C)"
proof -
  have "task_id \<in># mset_set (cancelling i)"
    using all by (metis holds_all_def union_single_eq_member)
  then have mem: "task_id \<in> cancelling i"
    using inner_okD(3) [OF ok] by simp
  obtain u sg i' where fin: "finish_cancelling task_id i = (u, sg, i')"
    by (metis prod_cases3)
  have inner: "eff_inner e = i'"
    using fin by (simp add: e perform_finish_cancelling_def)
  show "inner_ok (eff_inner e)"
    using finish_cancelling_ok [OF ok mem fin] inner by simp
  have "mset_set (cancelling i - {task_id}) = C"
    using all mset_set_remove [OF inner_okD(3) [OF ok] mem] by (simp add: holds_all_def)
  with all fin inner show "holds_all (eff_inner e)
      (sum_list (map reserved (eff_next e)) + eff_spawns e + R)
      (sum_list (map running_ids (eff_next e)) + M)
      (sum_list (map cancelling_ids (eff_next e)) + C)"
    by (auto simp: e perform_finish_cancelling_def holds_all_def finish_cancelling_def Let_def)
qed

lemma shutdown_holds:
  assumes "inner_ok i" and "holds_all i R M C" and "e = perform_shutdown i x"
  shows "inner_ok (eff_inner e)"
    and "holds_all (eff_inner e)
      (sum_list (map reserved (eff_next e)) + eff_spawns e + R)
      (sum_list (map running_ids (eff_next e)) + M)
      (sum_list (map cancelling_ids (eff_next e)) + C)"
  using assms by (auto simp: perform_shutdown_def shutdown_eq Let_def holds_all_def)

lemma btree_keys_mset: "btree_ok q \<Longrightarrow> mset_set (btree_keys q) = mset (map fst q)"
  using mset_set_set [OF btree_ok_distinct] by (metis btree_keys_def list.set_map)

lemma stop_holds:
  assumes ok: "inner_ok i" and all: "holds_all i R M C" and e: "e = perform_stop i x"
  shows "inner_ok (eff_inner e)"
    and "holds_all (eff_inner e)
      (sum_list (map reserved (eff_next e)) + eff_spawns e + R)
      (sum_list (map running_ids (eff_next e)) + M)
      (sum_list (map cancelling_ids (eff_next e)) + C)"
proof -
  obtain r sg i' where st: "stop i = (r, sg, i')"
    by (metis prod_cases3)
  have inner: "eff_inner e = i'"
    using st by (simp add: e perform_stop_def split: prod.split)
  show "inner_ok (eff_inner e)"
    using stop_ok [OF ok st] inner by simp
  have "cancelling i \<inter> btree_keys (queue i) = {}"
    using inner_okD(6) [OF ok] by (auto simp: tasks_ok_def)
  then have "mset_set (cancelling i \<union> btree_keys (queue i)) =
      mset_set (cancelling i) + mset (map fst (queue i))"
    using inner_okD(1,3) [OF ok]
    by (simp add: mset_set_Union btree_keys_mset)
  with all st inner show "holds_all (eff_inner e)
      (sum_list (map reserved (eff_next e)) + eff_spawns e + R)
      (sum_list (map running_ids (eff_next e)) + M)
      (sum_list (map cancelling_ids (eff_next e)) + C)"
    by (auto simp: e perform_stop_def stop_eq Let_def holds_all_def)
qed

lemma perform_holds:
  assumes ok: "inner_ok i" and e: "perform env a i x = Some e"
    and all: "holds_all i (reserved a + R) (running_ids a + M) (cancelling_ids a + C)"
    and room: "size M \<le> R"
  shows "inner_ok (eff_inner e) \<and>
    holds_all (eff_inner e)
      (sum_list (map reserved (eff_next e)) + eff_spawns e + R)
      (sum_list (map running_ids (eff_next e)) + M)
      (sum_list (map cancelling_ids (eff_next e)) + C)"
  using e
proof (cases rule: perform_cases)
  case (admit job)
  with ok all show ?thesis
    using admit_holds [of i env job x e] by simp
next
  case take_task
  with all show ?thesis
    using take_next_holds [OF ok _ room take_task(2)] by simp
next
  case (finish n)
  with all show ?thesis
    using finish_running_holds [OF ok _ finish(2)] by simp
next
  case (claim n)
  with all show ?thesis
    using claim_cancel_holds [OF ok _ claim(2)] by auto
next
  case (release n)
  with all show ?thesis
    using finish_cancelling_holds [OF ok _ release(2)] by simp
next
  case shut
  with all show ?thesis
    using shutdown_holds [OF ok _ shut(2)] by simp
next
  case stop
  with all show ?thesis
    using stop_holds [OF ok _ stop(2)] by simp
next
  case quiet
  note q = quiet_effectD(1-7) [OF quiet(2)]
  with ok all show ?thesis
    by (simp add: add.assoc [symmetric])
qed

section \<open>One action keeps the ledger\<close>

lemma queue_ids_insert:
  "k \<notin> btree_keys q \<Longrightarrow> mset (map fst (btree_insert k v q)) = add_mset k (mset (map fst q))"
  by (simp add: mset_btree_insert_fresh)

lemma queue_ids_filter:
  assumes "btree_ok q" and "map_of q k = Some v"
  shows "mset (map fst q) = add_mset k (mset (map fst (filter (\<lambda>p. fst p \<noteq> k) q)))"
  using mset_filter_key [OF assms, THEN arg_cong [of _ _ "image_mset fst"]] by simp

text \<open>The ledger with the moving thread's share of owned jobs apart.\<close>

definition booked ::
  "'job rayon_executor_service_inner \<Rightarrow> usize multiset \<Rightarrow> event list \<Rightarrow> bool" where
  "booked i D h \<longleftrightarrow>
     mset (map fst (queue i)) + D + ended h = accepted h \<and>
     (\<forall>n. count (accepted h) n \<le> 1) \<and> (\<forall>n \<in># accepted h. n < next_task_id i)"

lemma ledger_booked: "ledger i T h \<longleftrightarrow> booked i (total owned_ids T) h"
  by (simp add: ledger_def booked_def)

lemma perform_booked:
  assumes ok: "inner_ok i" and e: "perform env a i x = Some e"
    and led: "booked i (owned_ids a + D) h"
  shows "booked (eff_inner e) (sum_list (map owned_ids (eff_next e)) + D) (h @ eff_events e)"
  using e
proof (cases rule: perform_effects)
  case (refused job u)
  with led less_next_id [of "next_task_id i"] show ?thesis
    by (auto simp: booked_def)
next
  case (admitted job n)
  have fresh: "count (accepted h) (next_task_id i) = 0"
    using led by (auto simp: booked_def count_eq_zero_iff)
  from led admitted(1) queue_ids_insert [OF fresh_id(1) [OF ok]] fresh show ?thesis
    by (auto simp: booked_def admitted(6,7,10) less_next_id [OF admitted(4)])
next
  case (claimed n job)
  from led claimed(1) queue_ids_filter [OF inner_okD(1) [OF ok] claimed(2)] show ?thesis
    by (auto simp: booked_def claimed(3))
next
  case quiet
  note q = quiet_effectD [OF quiet(2)]
  have "mset (map fst (queue i)) + (sum_list (map owned_ids (eff_next e)) + D) +
      (ended h + ended (eff_events e)) =
      mset (map fst (queue i)) +
        ((sum_list (map owned_ids (eff_next e)) + ended (eff_events e)) + D) + ended h"
    by (simp add: ac_simps)
  with led q(1,8,9) show ?thesis
    by (simp add: booked_def)
qed (use led in \<open>auto simp: booked_def\<close>)

lemma perform_fifo:
  assumes ok: "inner_ok i" and e: "perform env a i x = Some e" and fifo: "fifo i h"
  shows "fifo (eff_inner e) (h @ eff_events e)"
  using e
proof (cases rule: perform_effects)
  case (refused job u)
  with fifo less_next_id [of "next_task_id i"] show ?thesis
    by (auto simp: fifo_def)
next
  case (admitted job n)
  with fifo show ?thesis
    by (auto simp: fifo_def less_next_id [OF admitted(4)])
next
  case (taken n job q)
  have "n < next_task_id i"
    using inner_okD(6) [OF ok] taken(2) by (auto simp: tasks_ok_def)
  moreover have "\<forall>m \<in> btree_keys q. n < m"
    using inner_okD(1) [OF ok] taken(2) by (simp add: btree_ok_Cons)
  ultimately show ?thesis
    using fifo taken by (auto simp: fifo_def sorted_wrt_append)
next
  case quiet
  with fifo show ?thesis
    by (simp add: quiet_effectD fifo_def)
qed (use fifo in \<open>auto simp: fifo_def btree_keys_filter\<close>)

section \<open>Every step keeps the invariant\<close>

lemma total_spawned:
  "total reserved (replicate_mset n [TakeNext]) = n"
  "total running_ids (replicate_mset n [TakeNext]) = {#}"
  "total cancelling_ids (replicate_mset n [TakeNext]) = {#}"
  "total owned_ids (replicate_mset n [TakeNext]) = {#}"
  by (simp_all add: total_replicate)

lemma act_sys_ok:
  assumes ok: "sys_ok s" and T: "threads s = add_mset (a # rest) others"
    and e: "perform env a (sys_inner s) (sys_ext s) = Some e"
  shows "sys_ok (apply_effect e rest others (history s))"
proof -
  let ?i = "sys_inner s" and ?U = "add_mset rest others"
  have inner: "inner_ok ?i" and led: "ledger ?i (threads s) (history s)"
    and fi: "fifo ?i (history s)" and bal: "balanced ?i (threads s)"
    using ok by (simp_all add: sys_ok_def)
  have all: "holds_all ?i (reserved a + total reserved ?U) (running_ids a + total running_ids ?U)
      (cancelling_ids a + total cancelling_ids ?U)"
    using bal by (simp add: balanced_holds_all T add.assoc)
  have holds: "inner_ok (eff_inner e) \<and>
    holds_all (eff_inner e)
      (sum_list (map reserved (eff_next e)) + eff_spawns e + total reserved ?U)
      (sum_list (map running_ids (eff_next e)) + total running_ids ?U)
      (sum_list (map cancelling_ids (eff_next e)) + total cancelling_ids ?U)"
    by (rule perform_holds [OF inner e all running_reserved])
  have "booked ?i (owned_ids a + total owned_ids ?U) (history s)"
    using led by (simp add: ledger_booked T add.assoc)
  then have "booked (eff_inner e) (sum_list (map owned_ids (eff_next e)) + total owned_ids ?U)
      (history s @ eff_events e)"
    by (rule perform_booked [OF inner e])
  with holds perform_fifo [OF inner e fi] show ?thesis
    by (simp add: sys_ok_def apply_effect_def balanced_holds_all ledger_booked total_spawned ac_simps)
qed

lemma internal_sys_ok: "sys_ok s \<Longrightarrow> internal_step env s w s' \<Longrightarrow> sys_ok s'"
  by (erule internal_stepE)
    (auto simp: act_sys_ok, auto simp: sys_ok_def balanced_def ledger_def)

lemma client_holds_nothing:
  "client_action a \<Longrightarrow>
     reserved a = 0 \<and> running_ids a = {#} \<and> cancelling_ids a = {#} \<and> owned_ids a = {#}"
  by (cases a) auto

interpretation svc: invariant_system
  "\<lambda>s. \<exists>capacity workers x. s = initial_system capacity workers x" "system_step env" sys_ok
  for env
proof (unfold_locales, goal_cases)
  case (1 s)
  then show ?case by (auto simp: sys_ok_initial)
next
  case (2 s w s')
  from 2(2) show ?case
  proof (cases rule: system_step.cases)
    case internal
    with 2(1) show ?thesis by (rule internal_sys_ok)
  next
    case (call a)
    with 2(1) client_holds_nothing [OF call(3)] show ?thesis
      by (simp add: sys_ok_def balanced_def ledger_def)
  next
    case (outside x')
    with 2(1) show ?thesis by (simp add: sys_ok_def)
  qed
qed

lemma reachable_run:
  "reachable env s0 s \<Longrightarrow> (\<lambda>s s'. \<exists>w. system_step env s w s')\<^sup>*\<^sup>* s0 s"
  by (induction rule: reachable.induct) (auto intro: rtranclp.rtrancl_into_rtrancl)

lemma reachable_trans:
  "reachable env s1 s2 \<Longrightarrow> reachable env s0 s1 \<Longrightarrow> reachable env s0 s2"
  by (induction rule: reachable.induct) (auto intro: reachable.step)

lemma step_reachable: "system_step env s w s' \<Longrightarrow> reachable env s s'"
  by (rule reachable.step [OF reachable.initial])

text \<open>What a larger system shows of the service: a run of it.\<close>

lemma seen_reachable: "(reachable env)\<^sup>*\<^sup>* s s' \<Longrightarrow> reachable env s s'"
  by (rule run_preorder) (auto intro: reachable.initial reachable_trans)

lemma seen_step: "system_step env s w s' \<Longrightarrow> (reachable env)\<^sup>*\<^sup>* s s'"
  by (rule r_into_rtranclp) (rule step_reachable)

lemma reachable_ok: "reachable env (initial_system capacity workers x) s \<Longrightarrow> sys_ok s"
  by (rule svc.run_inv [OF reachable_run sys_ok_initial])

end
