(* ===== verification/Progress.thy ===== *)
theory Progress
  imports System_Invariant
begin

text \<open>
  Progress of the interleaved system. The locale \<open>progress_system\<close> extends \<open>invariant_system\<close> by
  internal steps that decrease a measure and cannot all be disabled before the system is done; then
  every run of internal steps is bounded by the measure and one of them ends in a done state. Its
  interpretation \<open>work\<close> is the service: the internal steps are those of the threads, the measure is
  \<open>potential\<close>, and done means that no thread has anything left to do. The environment must be
  well behaved (\<open>env_ok\<close>): user code does not abort the process, the destructor of a refused job
  does not panic, and the channels keep their laws. User code may unwind. A job that never returns
  is a thread that never takes its \<open>RunJob\<close> step, so a system that waits for one is not done.
\<close>

locale progress_system = invariant_system start step Inv
  for start :: "'s \<Rightarrow> bool" and step :: "'s \<Rightarrow> 'l \<Rightarrow> 's \<Rightarrow> bool" and Inv +
  fixes move :: "'s \<Rightarrow> 'l \<Rightarrow> 's \<Rightarrow> bool"
    and pot :: "'s \<Rightarrow> nat"
    and final :: "'s \<Rightarrow> bool"
  assumes move_step: "move s l s' \<Longrightarrow> step s l s'"
    and move_decreases: "Inv s \<Longrightarrow> move s l s' \<Longrightarrow> pot s' < pot s"
    and move_exists: "Inv s \<Longrightarrow> \<not> final s \<Longrightarrow> \<exists>l s'. move s l s'"
begin

lemma move_inv: "Inv s \<Longrightarrow> move s l s' \<Longrightarrow> Inv s'"
  by (rule step_inv [OF _ move_step])

lemma moves_bounded:
  "((\<lambda>s s'. \<exists>l. move s l s') ^^ n) s s' \<Longrightarrow> Inv s \<Longrightarrow> Inv s' \<and> n + pot s' \<le> pot s"
proof (induction n arbitrary: s')
  case 0
  then show ?case by simp
next
  case (Suc n)
  then obtain s1 l where "((\<lambda>s s'. \<exists>l. move s l s') ^^ n) s s1" and last: "move s1 l s'"
    by auto
  with Suc have "Inv s1" and "n + pot s1 \<le> pot s"
    by auto
  with last show ?case
    using move_inv [of s1 l s'] move_decreases [of s1 l s'] by auto
qed

lemma reaches_final:
  "Inv s \<Longrightarrow> \<exists>s'. (\<lambda>s s'. \<exists>l. move s l s')\<^sup>*\<^sup>* s s' \<and> Inv s' \<and> final s'"
proof (induction "pot s" arbitrary: s rule: less_induct)
  case less
  show ?case
  proof (cases "final s")
    case True
    with less.prems show ?thesis by blast
  next
    case False
    then obtain l s1 where m: "move s l s1"
      using move_exists less.prems by blast
    have "pot s1 < pot s" and "Inv s1"
      using m less.prems by (auto intro: move_decreases move_inv)
    then obtain s' where "(\<lambda>s s'. \<exists>l. move s l s')\<^sup>*\<^sup>* s1 s'" "Inv s'" "final s'"
      using less.hyps by blast
    with m show ?thesis
      by (blast intro: converse_rtranclp_into_rtranclp)
  qed
qed

end

section \<open>The potential of the service\<close>

fun weight :: "nat \<Rightarrow> 'job action \<Rightarrow> nat" where
  "weight N (Admit job) = 9 + 4 * N"
| "weight N (DropRejected u job) = 1"
| "weight N (Dispatch n) = 1 + 4 * n"
| "weight N TakeNext = 2"
| "weight N (RunJob task_id job) = 1"
| "weight N (FinishRunning task_id) = 7"
| "weight N SpawnSuccessor = 4"
| "weight N (ClaimCancel task_id) = 1"
| "weight N (EndpointCancel task_id) = 5"
| "weight N (CheckRunning task_id) = 2"
| "weight N (TrackedCancel task_id) = 1"
| "weight N (CancelJob task_id job) = 1"
| "weight N (FinishCancelling task_id) = 3"
| "weight N ShutdownService = 3"
| "weight N StopService = 3"
| "weight N SubscribeTermination = 2"
| "weight N (Publish c t) = 1"

definition thread_weight :: "nat \<Rightarrow> 'job action list \<Rightarrow> nat" where
  "thread_weight N k = Suc (sum_list (map (weight N) k))"

definition potential :: "('job, 'x) system \<Rightarrow> nat" where
  "potential s =
     7 * length (queue (sys_inner s)) +
     (\<Sum>k\<in>#threads s. thread_weight (unat (num_threads (sys_inner s))) k)"

definition env_ok :: "('job, 'x) environment \<Rightarrow> bool" where
  "env_ok env \<longleftrightarrow>
     watch_ok (env_watch env) \<and>
     (\<forall>job. exec_safe (job_run (env_jobs env) job) \<and> exec_safe (job_cancel (env_jobs env) job)) \<and>
     (\<forall>job x. fst (job_accept (env_jobs env) job x) \<noteq> Aborts) \<and>
     (\<forall>job x. fst (job_drop (env_jobs env) job x) = Returns ()) \<and>
     (\<forall>n x. fst (env_tracked_cancel env n x) \<noteq> Aborts)"

lemma perform_frame:
  assumes e: "perform env a i x = Some e"
  shows "task_capacity (eff_inner e) = task_capacity i"
    and "num_threads (eff_inner e) = num_threads i"
    and "lifecycle i \<noteq> Terminated \<Longrightarrow>
      lifecycle i \<le> lifecycle (eff_inner e) \<and> lifecycle (eff_inner e) \<noteq> Terminated"
proof -
  have "task_capacity (eff_inner e) = task_capacity i \<and>
    num_threads (eff_inner e) = num_threads i \<and>
    (lifecycle i \<noteq> Terminated \<longrightarrow>
      lifecycle i \<le> lifecycle (eff_inner e) \<and> lifecycle (eff_inner e) \<noteq> Terminated)"
    using e
  proof (cases rule: perform_effects)
    case quiet
    then show ?thesis
      by (simp add: quiet_effectD)
  qed (cases "lifecycle i"; auto)+
  then show "task_capacity (eff_inner e) = task_capacity i"
    and "num_threads (eff_inner e) = num_threads i"
    and "lifecycle i \<noteq> Terminated \<Longrightarrow>
      lifecycle i \<le> lifecycle (eff_inner e) \<and> lifecycle (eff_inner e) \<noteq> Terminated"
    by simp_all
qed

lemma weight_publish [simp]:
  "sum_list (map (weight N) (term_publish i)) = (if drained i then 1 else 0)"
  by simp

lemma weight_cancel_actions: "sum_list (map (weight N) (cancel_actions q)) = 4 * length q"
  by (induction q) (auto simp: cancel_actions_def)

lemma quiet_decreases:
  assumes "quiet_action a" and "quiet_effect a i e" and "perform env a i x = Some e"
  shows "sum_list (map (weight N) (eff_next e)) + 3 * eff_spawns e < weight N a"
  using assms
  by (cases a) (auto simp: run_contained_Some quiet_defs perform_endpoint_cancel_def
    split: prod.splits outcome.splits if_splits cancel_disposition.splits)

lemma perform_decreases:
  assumes ok: "inner_ok i" and e: "perform env a i x = Some e"
    and N: "N = unat (num_threads i)"
  shows "7 * length (queue (eff_inner e)) + sum_list (map (weight N) (eff_next e)) +
      3 * eff_spawns e < 7 * length (queue i) + weight N a"
  using e
proof (cases rule: perform_effects)
  case (admitted job n)
  have "unat n \<le> N"
    by (simp add: admitted(5) unat_min unat_saturating_sub N)
  with admitted length_btree_insert_fresh [OF fresh_id(1) [OF ok]] show ?thesis
    by simp
next
  case (claimed n job)
  with length_filter_key [OF inner_okD(1) [OF ok] claimed(2)] show ?thesis
    by auto
next
  case (unclaimed n)
  then show ?thesis by auto
next
  case (stopped i')
  then show ?thesis
    by (simp add: weight_cancel_actions)
next
  case quiet
  with quiet_decreases [OF quiet e, of N] show ?thesis
    by (simp add: quiet_effectD)
qed auto

lemma internal_decreases:
  assumes ok: "sys_ok s" and step: "internal_step env s w s'"
  shows "potential s' < potential s"
  using step
proof (cases rule: internal_step.cases)
  case (act a rest others e)
  let ?N = "unat (num_threads (sys_inner s))"
  have "inner_ok (sys_inner s)"
    using ok by (simp add: sys_ok_def)
  from perform_decreases [OF this act(4) refl] perform_frame(2) [OF act(4)] show ?thesis
    by (simp add: potential_def act(2,3) apply_effect_def thread_weight_def)
next
  case (finish others)
  then show ?thesis
    by (simp add: potential_def thread_weight_def)
qed

section \<open>No thread is stuck\<close>

lemma perform_enabled:
  assumes "env_ok env"
  shows "\<exists>e. perform env a i x = Some e"
proof (cases a)
  case (Admit job)
  obtain r i' x' where adm: "admit (job_accept (env_jobs env)) job i x = (r, i', x')"
    by (metis prod_cases3)
  have "fst (job_accept (env_jobs env) job x) \<noteq> Aborts"
    using assms by (simp add: env_ok_def)
  with adm have "r \<noteq> Aborts"
    by (auto simp: admit_def Let_def split: if_splits option.splits prod.splits outcome.splits)
  with adm Admit show ?thesis
    by (cases r) (auto split: sum.split)
next
  case (DropRejected u job)
  have "fst (job_drop (env_jobs env) job x) = Returns ()"
    using assms by (simp add: env_ok_def)
  with DropRejected show ?thesis
    by (cases "job_drop (env_jobs env) job x") (simp add: perform_drop_def)
next
  case (RunJob task_id job)
  have "exec_safe (job_run (env_jobs env) job)"
    using assms by (simp add: env_ok_def)
  with RunJob guarded.guard_safe show ?thesis
    by (simp add: run_contained_Some)
next
  case (CancelJob task_id job)
  have "exec_safe (job_cancel (env_jobs env) job)"
    using assms by (simp add: env_ok_def)
  with CancelJob guarded.guard_safe show ?thesis
    by (simp add: run_contained_Some)
next
  case (Publish c t)
  have "fst (notify_async_changes (env_watch env) c t x) = Returns ()"
    using assms by (simp add: env_ok_def notify_returns)
  with Publish show ?thesis
    by (cases "notify_async_changes (env_watch env) c t x") (simp add: perform_publish_def)
next
  case (TrackedCancel n)
  have "fst (env_tracked_cancel env n x) \<noteq> Aborts"
    using assms by (simp add: env_ok_def)
  with TrackedCancel show ?thesis
    by (cases "env_tracked_cancel env n x") (auto simp: perform_tracked_cancel_def split: outcome.split)
qed simp_all

lemma internal_enabled:
  assumes env: "env_ok env" and busy: "threads s \<noteq> {#}"
  shows "\<exists>w s'. internal_step env s w s'"
proof -
  from busy obtain k others where T: "threads s = add_mset k others"
    by (meson multiset_cases)
  show ?thesis
  proof (cases k)
    case Nil
    with T show ?thesis by (blast intro: internal_step.finish)
  next
    case (Cons a rest)
    with T perform_enabled [OF env] show ?thesis
      by (blast intro: internal_step.act)
  qed
qed

text \<open>When no thread is left, no task is left either.\<close>

lemma idle_system_empty:
  assumes ok: "sys_ok s" and idle: "threads s = {#}"
    and workers: "num_threads (sys_inner s) \<noteq> 0"
  shows "queue (sys_inner s) = []" and "running_tasks (sys_inner s) = {}"
    and "cancelling (sys_inner s) = {}" and "ended (history s) = accepted (history s)"
proof -
  let ?i = "sys_inner s"
  have inner: "inner_ok ?i" and bal: "balanced ?i {#}" and led: "ledger ?i {#} (history s)"
    using ok idle by (simp_all add: sys_ok_def)
  have none: "unat (scheduled ?i) = 0" "mset_set (running_tasks ?i) = {#}"
    "mset_set (cancelling ?i) = {#}"
    using bal by (simp_all add: balanced_def)
  then show "running_tasks ?i = {}" and "cancelling ?i = {}"
    using inner_okD(2,3) [OF inner] by (simp_all add: mset_set_empty_iff)
  have "unat (num_threads ?i) \<noteq> 0"
    using workers by (simp add: unat_eq_0)
  with none(1) inner_okD(8) [OF inner] show q: "queue ?i = []"
    by (auto simp: work_conserving_def)
  show "ended (history s) = accepted (history s)"
    using led q by (simp add: ledger_def)
qed

interpretation work: progress_system
  "\<lambda>s. env_ok env \<and> (\<exists>capacity workers x. s = initial_system capacity workers x)"
  "system_step env" "\<lambda>s. env_ok env \<and> sys_ok s"
  "internal_step env" potential "\<lambda>s. threads s = {#}"
  for env
proof (unfold_locales, goal_cases)
  case (1 s)
  then show ?case by (auto simp: sys_ok_initial)
next
  case (2 s w s')
  then show ?case by (auto intro: svc.step_inv)
next
  case (3 s w s')
  then show ?case by (rule system_step.internal)
next
  case (4 s w s')
  then show ?case by (auto intro: internal_decreases)
next
  case (5 s)
  then show ?case by (auto intro: internal_enabled)
qed

section \<open>What never changes\<close>

lemma step_frame:
  assumes "system_step env s w s'"
  shows "task_capacity (sys_inner s') = task_capacity (sys_inner s) \<and>
    num_threads (sys_inner s') = num_threads (sys_inner s) \<and>
    (lifecycle (sys_inner s) \<noteq> Terminated \<longrightarrow>
      lifecycle (sys_inner s) \<le> lifecycle (sys_inner s') \<and>
      lifecycle (sys_inner s') \<noteq> Terminated)"
  using assms
proof (cases rule: system_step.cases)
  case internal
  then show ?thesis
    by (cases rule: internal_step.cases) (auto simp: apply_effect_def dest: perform_frame)
qed auto

lemma reachable_config:
  assumes "reachable env (initial_system capacity workers x) s"
  shows "task_capacity (sys_inner s) = capacity" and "num_threads (sys_inner s) = workers"
    and "lifecycle (sys_inner s) \<noteq> Terminated"
proof -
  from assms have "task_capacity (sys_inner s) = capacity \<and> num_threads (sys_inner s) = workers \<and>
      lifecycle (sys_inner s) \<noteq> Terminated"
    by (induction rule: reachable.induct)
      (simp_all add: initial_system_def new_state_def step_frame)
  then show "task_capacity (sys_inner s) = capacity" and "num_threads (sys_inner s) = workers"
    and "lifecycle (sys_inner s) \<noteq> Terminated"
    by simp_all
qed

end
