(* ===== verification/Task_Handle.thy ===== *)
theory Task_Handle
  imports Executor_Service
begin

text \<open>
  \<open>RayonTaskHandle\<close> (\<open>src/rayon_task_handle.rs\<close>): the cancellation path shared by the handle and by
  the detached cancellation endpoint (\<open>cancel_task\<close>), and the methods that pass through to the
  tracked task. The tracked task itself belongs to \<open>qubit_executor\<close> and is the parameter
  \<open>tracked_api\<close>; of \<open>TaskStatus\<close> only the two variants the crate matches on are named, every other
  one is a \<open>StatusOther\<close>.
\<close>

datatype cancel_result = Cancelled | AlreadyRunning | AlreadyFinished

datatype 'o task_status = StatusPending | StatusRunning | StatusOther 'o

datatype ('h, 'res) try_get = Ready 'res | Pending 'h

record ('h, 'o, 'res, 'x) tracked_api =
  tracked_status :: "'h \<Rightarrow> 'x \<Rightarrow> 'o task_status"
  tracked_is_done :: "'h \<Rightarrow> 'x \<Rightarrow> bool"
  tracked_get :: "'h \<Rightarrow> ('x, 'res) exec"
  tracked_try_get :: "'h \<Rightarrow> ('x, ('h, 'res) try_get) exec"
  tracked_cancel :: "'h \<Rightarrow> ('x, cancel_result) exec"

fun cancellation_result_for_status :: "'o task_status \<Rightarrow> cancel_result" where
  "cancellation_result_for_status StatusPending = AlreadyRunning"
| "cancellation_result_for_status StatusRunning = AlreadyRunning"
| "cancellation_result_for_status (StatusOther _) = AlreadyFinished"

definition cancel_task ::
  "('job, 'x) queued_job_vtable \<Rightarrow> 'x watch_api option \<Rightarrow> usize \<Rightarrow>
     ('job, 'x, cancel_result) svc \<Rightarrow> ('job, 'x, cancel_result) svc" where
  "cancel_task jobs watch task_id absent = (\<lambda>st.
     case cancel_pending_task task_id (inner st) of (disposition, i') \<Rightarrow>
       let st' = st\<lparr>inner := i'\<rparr>
       in case disposition of
            Owned job \<Rightarrow>
              exec_bind (on_ext (contain (job_cancel jobs job)))
                (\<lambda>_. exec_bind (locked watch (finish_cancelling task_id))
                   (\<lambda>_. exec_return Cancelled)) st'
          | InProgress \<Rightarrow> (Returns Cancelled, st')
          | Absent \<Rightarrow> absent st')"

text \<open>
  \<open>handle_\<close> is the inherent method, \<open>trait_\<close> the method of \<open>TaskResultHandle\<close>,
  \<open>TrackedTaskHandle\<close> or \<open>CancellableTaskHandle\<close> of the same name.
\<close>

definition handle_status ::
  "('h, 'o, 'res, 'x) tracked_api \<Rightarrow> 'h rayon_task_handle \<Rightarrow> 'x \<Rightarrow> 'o task_status" where
  "handle_status api h x = tracked_status api (tracked h) x"

definition trait_status ::
  "('h, 'o, 'res, 'x) tracked_api \<Rightarrow> 'h rayon_task_handle \<Rightarrow> 'x \<Rightarrow> 'o task_status" where
  "trait_status api h x = tracked_status api (tracked h) x"

definition handle_cancel ::
  "('h, 'o, 'res, 'x) tracked_api \<Rightarrow> ('job, 'x) queued_job_vtable \<Rightarrow> 'x watch_api option \<Rightarrow>
     'h rayon_task_handle \<Rightarrow> ('job, 'x, cancel_result) svc" where
  "handle_cancel api jobs watch h =
     cancel_task jobs watch (handle_task_id h)
       (\<lambda>st. (Returns (cancellation_result_for_status (handle_status api h (ext st))), st))"

definition trait_cancel ::
  "('h, 'o, 'res, 'x) tracked_api \<Rightarrow> ('job, 'x) queued_job_vtable \<Rightarrow> 'x watch_api option \<Rightarrow>
     'h rayon_task_handle \<Rightarrow> ('job, 'x, cancel_result) svc" where
  "trait_cancel api jobs watch h =
     cancel_task jobs watch (handle_task_id h)
       (\<lambda>st. (Returns (cancellation_result_for_status (handle_status api h (ext st))), st))"

definition endpoint_absent ::
  "('h, 'o, 'res, 'x) tracked_api \<Rightarrow> 'h \<Rightarrow> usize \<Rightarrow> ('job, 'x, cancel_result) svc" where
  "endpoint_absent api task task_id = (\<lambda>st.
     if is_running_task task_id (inner st) then (Returns AlreadyRunning, st)
     else on_ext (tracked_cancel api task) st)"

definition endpoint_cancel ::
  "('h, 'o, 'res, 'x) tracked_api \<Rightarrow> ('job, 'x) queued_job_vtable \<Rightarrow> 'x watch_api option \<Rightarrow>
     'h rayon_task_handle \<Rightarrow> ('job, 'x, cancel_result) svc" where
  "endpoint_cancel api jobs watch h =
     cancel_task jobs watch (handle_task_id h)
       (endpoint_absent api (tracked h) (handle_task_id h))"

definition trait_cancellation_handle ::
  "('h, 'o, 'res, 'x) tracked_api \<Rightarrow> ('job, 'x) queued_job_vtable \<Rightarrow> 'x watch_api option \<Rightarrow>
     'h rayon_task_handle \<Rightarrow> ('job, 'x, cancel_result) svc" where
  "trait_cancellation_handle api jobs watch h = endpoint_cancel api jobs watch h"

definition trait_is_done ::
  "('h, 'o, 'res, 'x) tracked_api \<Rightarrow> 'h rayon_task_handle \<Rightarrow> 'x \<Rightarrow> bool" where
  "trait_is_done api h x = tracked_is_done api (tracked h) x"

definition trait_get ::
  "('h, 'o, 'res, 'x) tracked_api \<Rightarrow> 'h rayon_task_handle \<Rightarrow> ('x, 'res) exec" where
  "trait_get api h = tracked_get api (tracked h)"

definition trait_try_get ::
  "('h, 'o, 'res, 'x) tracked_api \<Rightarrow> 'h rayon_task_handle \<Rightarrow>
     ('x, ('h rayon_task_handle, 'res) try_get) exec" where
  "trait_try_get api h =
     exec_bind (tracked_try_get api (tracked h))
       (\<lambda>r. case r of
          Ready result \<Rightarrow> exec_return (Ready result)
        | Pending t \<Rightarrow> exec_return (Pending \<lparr>tracked = t, handle_task_id = handle_task_id h\<rparr>))"

definition handle_is_done ::
  "('h, 'o, 'res, 'x) tracked_api \<Rightarrow> 'h rayon_task_handle \<Rightarrow> 'x \<Rightarrow> bool" where
  "handle_is_done api h x = trait_is_done api h x"

definition handle_get ::
  "('h, 'o, 'res, 'x) tracked_api \<Rightarrow> 'h rayon_task_handle \<Rightarrow> ('x, 'res) exec" where
  "handle_get api h = tracked_get api (tracked h)"

definition handle_try_get ::
  "('h, 'o, 'res, 'x) tracked_api \<Rightarrow> 'h rayon_task_handle \<Rightarrow>
     ('x, ('h rayon_task_handle, 'res) try_get) exec" where
  "handle_try_get api h = trait_try_get api h"

definition handle_into_future :: "('h \<Rightarrow> 'fut) \<Rightarrow> 'h rayon_task_handle \<Rightarrow> 'fut" where
  "handle_into_future into_future h = into_future (tracked h)"

text \<open>
  Polling a handle that stays pending any number of times gives the handle back unchanged in its
  identifier, so that a later cancellation still names the same task.
\<close>

lemma try_get_keeps_identity:
  assumes "handle_try_get api h x = (Returns (Pending h'), x')"
  shows "handle_task_id h' = handle_task_id h \<and>
    tracked_try_get api (tracked h) x = (Returns (Pending (tracked h')), x')"
  using assms
  by (auto simp: handle_try_get_def trait_try_get_def exec_bind_def
      split: prod.splits outcome.splits try_get.splits)

text \<open>Every disposition of \<open>cancel_task\<close>.\<close>

lemma cancel_task_effect:
  assumes watch: "watch_ok watch" and ok: "inner_ok (inner st)"
    and safe: "\<And>job. map_of (queue (inner st)) n = Some job \<Longrightarrow> exec_safe (job_cancel jobs job)"
  shows "if n \<in> btree_keys (queue (inner st))
    then \<exists>x'. cancel_task jobs watch n absent st =
      (Returns Cancelled,
       st\<lparr>inner := (inner st)\<lparr>queue := filter (\<lambda>p. fst p \<noteq> n) (queue (inner st))\<rparr>, ext := x'\<rparr>)
    else cancel_task jobs watch n absent st =
      (if n \<in> cancelling (inner st) then (Returns Cancelled, st) else absent st)"
proof -
  obtain d i' where claim: "cancel_pending_task n (inner st) = (d, i')"
    by fastforce
  from claim show ?thesis
  proof (cases rule: cancel_pending_task_cases)
    case (owned job)
    have mem: "n \<in> btree_keys (queue (inner st))"
      using owned(1) by (rule map_of_btree_Some)
    then have "n \<notin> cancelling (inner st)"
      using inner_okD(6) [OF ok] by (auto simp: tasks_ok_def)
    define i2 where "i2 = (inner st)\<lparr>queue := filter (\<lambda>p. fst p \<noteq> n) (queue (inner st))\<rparr>"
    obtain sg where fin: "finish_cancelling n (inner (st\<lparr>inner := i'\<rparr>)) = ((), sg, i2)"
      using \<open>n \<notin> cancelling (inner st)\<close>
      by (simp add: finish_cancelling_def Let_def owned(3) i2_def)
    from contain_locked [where f = "finish_cancelling n" and st = "st\<lparr>inner := i'\<rparr>"
        and k = "\<lambda>_. exec_return Cancelled", OF watch safe [OF owned(1)] fin]
    obtain x' where "exec_bind (on_ext (contain (job_cancel jobs job)))
        (\<lambda>_. exec_bind (locked watch (finish_cancelling n)) (\<lambda>_. exec_return Cancelled))
        (st\<lparr>inner := i'\<rparr>) = (Returns Cancelled, st\<lparr>inner := i2, ext := x'\<rparr>)"
      by auto
    with claim owned(2) mem show ?thesis
      by (auto simp: cancel_task_def i2_def)
  qed (use claim in \<open>simp_all add: cancel_task_def\<close>)
qed

end
