(* ===== verification/Sequential_Refinement.thy ===== *)
theory Sequential_Refinement
  imports Progress Task_Handle
begin

text \<open>
  The two views of the service agree. \<^theory_text>\<open>Executor_Service\<close> and \<^theory_text>\<open>Task_Handle\<close> give each
  method as one function, in the source's own composition; \<^theory_text>\<open>Interleaving\<close> cuts the methods into
  actions that other threads may come between. The lemmas here show that the actions of one thread,
  taken without interruption, are exactly the method: every run of the function is a run of the
  interleaved system, with the same record, the same outside state and the same spawned closures,
  so what is proved of all interleavings holds of the functions.
\<close>

definition internal_run ::
  "('job, 'x) environment \<Rightarrow> ('job, 'x) system \<Rightarrow> ('job, 'x) system \<Rightarrow> bool" where
  "internal_run env = (\<lambda>s s'. \<exists>w. internal_step env s w s')\<^sup>*\<^sup>*"

text \<open>The executor's state as a state of the system: a spawned closure is a thread.\<close>

definition as_system ::
  "('job, 'x) executor \<Rightarrow> 'job action list multiset \<Rightarrow> event list \<Rightarrow> ('job, 'x) system" where
  "as_system st T h =
     \<lparr>sys_inner = inner st, sys_ext = ext st,
      threads = T + replicate_mset (spawned st) [TakeNext], history = h\<rparr>"

lemma run_refl: "internal_run env s s"
  by (simp add: internal_run_def)

lemma run_trans [trans]: "internal_run env s s' \<Longrightarrow> internal_run env s' s'' \<Longrightarrow> internal_run env s s''"
  unfolding internal_run_def by (rule rtranclp_trans)

lemma internal_run_config:
  "internal_run env s s' \<Longrightarrow> num_threads (sys_inner s') = num_threads (sys_inner s)"
  unfolding internal_run_def
  by (induction rule: rtranclp_induct) (auto dest!: step_frame [OF system_step.internal])

lemma internal_run_ok: "internal_run env s s' \<Longrightarrow> sys_ok s \<Longrightarrow> sys_ok s'"
  unfolding internal_run_def
  by (induction rule: rtranclp_induct) (auto intro: internal_sys_ok)

lemma replicate_mset_add: "replicate_mset (m + n) a = replicate_mset m a + replicate_mset n a"
  by (induction m) simp_all

lemma act_run:
  assumes "perform env a (inner st) (ext st) = Some e"
    and "inner st' = eff_inner e" "ext st' = eff_ext e" "spawned st' = spawned st + eff_spawns e"
  shows "internal_run env (as_system st (add_mset (a # rest) T) h)
    (as_system st' (add_mset (eff_next e @ rest) T) (h @ eff_events e))"
proof -
  let ?s = "as_system st (add_mset (a # rest) T) h"
  let ?others = "T + replicate_mset (spawned st) [TakeNext]"
  have "threads ?s = add_mset (a # rest) ?others" "perform env a (sys_inner ?s) (sys_ext ?s) = Some e"
    using assms(1) by (simp_all add: as_system_def)
  from internal_step.act [OF this]
  have "internal_step env ?s (eff_wake e) (apply_effect e rest ?others (history ?s))" .
  moreover have "apply_effect e rest ?others (history ?s) =
      as_system st' (add_mset (eff_next e @ rest) T) (h @ eff_events e)"
    by (simp add: apply_effect_def as_system_def assms(2-4) replicate_mset_add ac_simps)
  ultimately show ?thesis
    unfolding internal_run_def by auto
qed

lemma finish_run: "internal_run env (as_system st (add_mset [] T) h) (as_system st T h)"
proof -
  have "internal_step env (as_system st (add_mset [] T) h) False
      ((as_system st (add_mset [] T) h)\<lparr>threads := T + replicate_mset (spawned st) [TakeNext]\<rparr>)"
    by (rule internal_step.finish) (simp add: as_system_def)
  then show ?thesis
    unfolding internal_run_def as_system_def by auto
qed

text \<open>The publication of the signals of a critical section.\<close>

lemma send_run:
  assumes "(if b then notify_async_changes (env_watch env) c t else exec_return ()) (ext st) =
    (Returns (), x')"
  shows "internal_run env (as_system st (add_mset ((if b then [Publish c t] else []) @ k) T) h)
    (as_system (st\<lparr>ext := x'\<rparr>) (add_mset k T) h)"
proof (cases b)
  case True
  with assms have "perform env (Publish c t) (inner st) (ext st) = Some (effect_of [] [] (inner st) x')"
    by (simp add: perform_publish_def)
  from act_run [OF this, of "st\<lparr>ext := x'\<rparr>" k T h] True show ?thesis
    by simp
next
  case False
  with assms have "st\<lparr>ext := x'\<rparr> = st"
    by (cases st) simp
  with False show ?thesis
    by (simp add: run_refl)
qed

lemma publish_run:
  assumes "publish_signals (env_watch env) sg (ext st) = (Returns (), x')"
  shows "internal_run env (as_system st (add_mset (publish_actions sg @ k) T) h)
    (as_system (st\<lparr>ext := x'\<rparr>) (add_mset k T) h)"
proof (cases "async_changes sg")
  case None
  with assms show ?thesis
    by (auto simp: publish_signals_def publish_actions_def run_refl)
next
  case (Some ct)
  obtain c t where ct: "ct = (c, t)"
    by fastforce
  from assms Some ct obtain x1 where
    changed: "(if c then notify_async_changes (env_watch env) True False else exec_return ()) (ext st) =
      (Returns (), x1)"
    and terminal: "(if t then notify_async_changes (env_watch env) False True else exec_return ()) x1 =
      (Returns (), x')"
    by (simp add: publish_signals_def notify_async_changes_split [of _ c t] exec_bind_Returns) blast
  note send_run [OF changed, of "(if t then [Publish False True] else []) @ k" T h]
  also have "internal_run env
      (as_system (st\<lparr>ext := x1\<rparr>) (add_mset ((if t then [Publish False True] else []) @ k) T) h)
      (as_system (st\<lparr>ext := x1, ext := x'\<rparr>) (add_mset k T) h)"
    using send_run [of t env False True "st\<lparr>ext := x1\<rparr>" x' k T h] terminal by simp
  finally show ?thesis
    by (simp add: publish_actions_def Some ct)
qed

text \<open>A contained call of user code.\<close>

lemma contain_run:
  assumes "on_ext (contain m) st = (Returns (), st')"
    and "\<And>i x. perform env a i x = run_contained m ev i x"
  shows "internal_run env (as_system st (add_mset (a # k) T) h) (as_system st' (add_mset k T) (h @ ev))"
proof -
  obtain x' where x': "contain m (ext st) = (Returns (), x')" "st' = st\<lparr>ext := x'\<rparr>"
    using assms(1) by (auto simp: on_ext_Returns)
  then have "perform env a (inner st) (ext st) = Some (effect_of [] ev (inner st) x')"
    by (simp add: assms(2) run_contained_def)
  from act_run [OF this, of st' k T h] x'(2) show ?thesis
    by simp
qed

text \<open>A critical section followed by its publication.\<close>

lemma locked_run:
  assumes "locked (env_watch env) f st = (Returns r, st')"
    and "\<And>sg i'. f (inner st) = (r, sg, i') \<Longrightarrow>
      perform env a (inner st) (ext st) =
        Some ((effect_of (publish_actions sg @ next) ev i' (ext st))\<lparr>eff_wake := wake_all sg\<rparr>)"
  shows "internal_run env (as_system st (add_mset (a # k) T) h)
    (as_system st' (add_mset (next @ k) T) (h @ ev))"
proof -
  obtain sg i' x' where f: "f (inner st) = (r, sg, i')"
    and pub: "publish_signals (env_watch env) sg (ext st) = (Returns (), x')"
    and st': "st' = st\<lparr>inner := i', ext := x'\<rparr>"
    using assms(1) by (auto simp: locked_Returns)
  let ?st1 = "st\<lparr>inner := i'\<rparr>"
  from act_run [OF assms(2) [OF f], of ?st1 k T h]
  have "internal_run env (as_system st (add_mset (a # k) T) h)
      (as_system ?st1 (add_mset (publish_actions sg @ next @ k) T) (h @ ev))"
    by simp
  moreover have "internal_run env
      (as_system ?st1 (add_mset (publish_actions sg @ next @ k) T) (h @ ev))
      (as_system st' (add_mset (next @ k) T) (h @ ev))"
    using publish_run [of env sg ?st1 x'] pub by (simp add: st')
  ultimately show ?thesis
    by (rule run_trans)
qed

section \<open>The worker closure\<close>

lemma spawn_run:
  assumes "(if successor then spawn_fifo else exec_return ()) st = (Returns (), st')"
  shows "internal_run env
    (as_system st (add_mset ((if successor then [SpawnSuccessor] else []) @ k) T) h)
    (as_system st' (add_mset k T) h)"
proof (cases successor)
  case True
  with assms have "st' = st\<lparr>spawned := Suc (spawned st)\<rparr>"
    by (simp add: spawn_fifo_def)
  moreover have "perform env SpawnSuccessor (inner st) (ext st) =
      Some ((effect_of [] [] (inner st) (ext st))\<lparr>eff_spawns := 1\<rparr>)"
    by simp
  from act_run [OF this, of st' k T h] True calculation show ?thesis
    by simp
qed (use assms in \<open>simp add: run_refl\<close>)

lemma finish_running_run:
  assumes "locked (env_watch env) (finish_running n) st = (Returns successor, st')"
  shows "internal_run env (as_system st (add_mset (FinishRunning n # k) T) h)
    (as_system st' (add_mset ((if successor then [SpawnSuccessor] else []) @ k) T)
      (h @ [Released n]))"
  using locked_run [OF assms, of "FinishRunning n" "if successor then [SpawnSuccessor] else []"
      "[Released n]"]
  by (simp add: perform_finish_running_def)

lemma run_one_run:
  assumes "run_one (env_jobs env) (env_watch env) st = (Returns (), st')"
  shows "\<exists>ev. internal_run env (as_system st (add_mset [TakeNext] T) h) (as_system st' T (h @ ev))"
proof -
  from assms obtain taken st1 where lock: "locked (env_watch env) take_next st = (Returns taken, st1)"
    and rest: "(case taken of None \<Rightarrow> exec_return ()
      | Some (task_id, job) \<Rightarrow>
          exec_bind (on_ext (contain (job_run (env_jobs env) job)))
            (\<lambda>_. exec_bind (locked (env_watch env) (finish_running task_id))
               (\<lambda>successor. if successor then spawn_fifo else exec_return ()))) st1 = (Returns (), st')"
    unfolding run_one_def by (auto simp: exec_bind_Returns)
  show ?thesis
  proof (cases taken)
    case None
    then have "st1 = st'"
      using rest by simp
    have "internal_run env (as_system st (add_mset [TakeNext] T) h) (as_system st1 (add_mset [] T) h)"
      using locked_run [OF lock, of TakeNext "[]" "[]" "[]"] None
      by (simp add: perform_take_next_def)
    from run_trans [OF this finish_run] \<open>st1 = st'\<close>
    have "internal_run env (as_system st (add_mset [TakeNext] T) h) (as_system st' T (h @ []))"
      by simp
    then show ?thesis by blast
  next
    case (Some p)
    obtain n job where p: "p = (n, job)"
      by fastforce
    from rest Some p obtain st2 st3 successor where
      job: "on_ext (contain (job_run (env_jobs env) job)) st1 = (Returns (), st2)"
      and fin: "locked (env_watch env) (finish_running n) st2 = (Returns successor, st3)"
      and succ: "(if successor then spawn_fifo else exec_return ()) st3 = (Returns (), st')"
      by (auto simp: exec_bind_Returns)
    let ?h1 = "h @ [Started n]" and ?h2 = "(h @ [Started n]) @ [Executed n]"
      and ?h3 = "((h @ [Started n]) @ [Executed n]) @ [Released n]"
    have "internal_run env (as_system st (add_mset [TakeNext] T) h)
        (as_system st1 (add_mset [RunJob n job, FinishRunning n] T) ?h1)"
      using locked_run [OF lock, of TakeNext "[RunJob n job, FinishRunning n]" "[Started n]" "[]"]
      by (simp add: perform_take_next_def Some p)
    also have "internal_run env \<dots> (as_system st2 (add_mset [FinishRunning n] T) ?h2)"
      by (rule contain_run [OF job]) simp
    also have "internal_run env \<dots>
        (as_system st3 (add_mset ((if successor then [SpawnSuccessor] else []) @ []) T) ?h3)"
      by (rule finish_running_run [OF fin])
    also have "internal_run env \<dots> (as_system st' (add_mset [] T) ?h3)"
      by (rule spawn_run [OF succ])
    also have "internal_run env \<dots> (as_system st' T ?h3)"
      by (rule finish_run)
    finally have "internal_run env (as_system st (add_mset [TakeNext] T) h)
        (as_system st' T (h @ [Started n, Executed n, Released n]))"
      by simp
    then show ?thesis by blast
  qed
qed

section \<open>Shutdown, stop and cancellation\<close>

lemma shutdown_run:
  assumes "shutdown_service (env_watch env) st = (Returns (), st')"
  shows "internal_run env (as_system st (add_mset [ShutdownService] T) h)
    (as_system st' T (h @ [Closed]))"
proof -
  have "internal_run env (as_system st (add_mset [ShutdownService] T) h)
      (as_system st' (add_mset [] T) (h @ [Closed]))"
    using locked_run [of env shutdown st "()" st' ShutdownService "[]" "[Closed]" "[]"] assms
    by (simp add: shutdown_service_def perform_shutdown_def)
  also have "internal_run env \<dots> (as_system st' T (h @ [Closed]))"
    by (rule finish_run)
  finally show ?thesis .
qed

lemma finish_cancelling_run:
  assumes "locked (env_watch env) (finish_cancelling n) st = (Returns (), st')"
  shows "internal_run env (as_system st (add_mset (FinishCancelling n # k) T) h)
    (as_system st' (add_mset k T) (h @ [Released n]))"
  using locked_run [OF assms, of "FinishCancelling n" "[]" "[Released n]"]
  by (simp add: perform_finish_cancelling_def)

definition cancel_events :: "(usize \<times> 'job) list \<Rightarrow> event list" where
  "cancel_events owned = concat (map (\<lambda>p. [CancelRan (fst p), Released (fst p)]) owned)"

lemma cancel_owned_run:
  assumes "cancel_owned (env_jobs env) (env_watch env) owned st = (Returns (), st')"
  shows "internal_run env (as_system st (add_mset (cancel_actions owned) T) h)
    (as_system st' (add_mset [] T) (h @ cancel_events owned))"
  using assms
proof (induction owned arbitrary: st h)
  case Nil
  then show ?case by (simp add: cancel_actions_def cancel_events_def run_refl)
next
  case (Cons p owned)
  obtain n job where p: "p = (n, job)"
    by fastforce
  from Cons.prems p obtain st1 st2 where
    job: "on_ext (contain (job_cancel (env_jobs env) job)) st = (Returns (), st1)"
    and fin: "locked (env_watch env) (finish_cancelling n) st1 = (Returns (), st2)"
    and rest: "cancel_owned (env_jobs env) (env_watch env) owned st2 = (Returns (), st')"
    by (auto simp: exec_bind_Returns)
  have "internal_run env (as_system st (add_mset (cancel_actions (p # owned)) T) h)
      (as_system st1 (add_mset (FinishCancelling n # cancel_actions owned) T) (h @ [CancelRan n]))"
    unfolding cancel_actions_def p by (simp, rule contain_run [OF job]) simp
  also have "internal_run env \<dots>
      (as_system st2 (add_mset (cancel_actions owned) T) ((h @ [CancelRan n]) @ [Released n]))"
    by (rule finish_cancelling_run [OF fin])
  also have "internal_run env \<dots> (as_system st' (add_mset [] T)
      (((h @ [CancelRan n]) @ [Released n]) @ cancel_events owned))"
    by (rule Cons.IH [OF rest])
  finally show ?case
    by (simp add: p cancel_events_def)
qed

definition stop_events :: "(usize \<times> 'job) list \<Rightarrow> event list" where
  "stop_events owned = Closed # map (\<lambda>p. Claimed (fst p)) owned @ cancel_events owned"

lemma stop_run:
  assumes "stop_service (env_jobs env) (env_watch env) st = (Returns report, st')"
  shows "internal_run env (as_system st (add_mset [StopService] T) h)
    (as_system st' T (h @ stop_events (queue (inner st))))"
proof -
  from assms obtain owned st1 where lock: "locked (env_watch env) stop st = (Returns (report, owned), st1)"
    and rest: "cancel_owned (env_jobs env) (env_watch env) owned st1 = (Returns (), st')"
    unfolding stop_service_def by (auto simp: exec_bind_Returns)
  have owned: "owned = queue (inner st)"
    using lock by (auto simp: locked_Returns stop_eq Let_def)
  let ?h1 = "h @ (Closed # map (\<lambda>p. Claimed (fst p)) owned)"
  have "internal_run env (as_system st (add_mset [StopService] T) h)
      (as_system st1 (add_mset (cancel_actions owned) T) ?h1)"
    using locked_run [OF lock, of StopService "cancel_actions owned"
        "Closed # map (\<lambda>p. Claimed (fst p)) owned" "[]"]
    by (simp add: perform_stop_def)
  also have "internal_run env \<dots> (as_system st' (add_mset [] T) (?h1 @ cancel_events owned))"
    by (rule cancel_owned_run [OF rest])
  also have "internal_run env \<dots> (as_system st' T (?h1 @ cancel_events owned))"
    by (rule finish_run)
  finally show ?thesis
    by (simp add: owned stop_events_def)
qed

text \<open>The rest of a cancellation that owns its job.\<close>

lemma cancel_claimed_run:
  assumes job: "on_ext (contain (job_cancel (env_jobs env) job)) st = (Returns (), st1)"
    and fin: "locked (env_watch env) (finish_cancelling n) st1 = (Returns (), st')"
  shows "internal_run env (as_system st (add_mset [CancelJob n job, FinishCancelling n] T) h)
    (as_system st' T ((h @ [CancelRan n]) @ [Released n]))"
proof -
  have "internal_run env (as_system st (add_mset [CancelJob n job, FinishCancelling n] T) h)
      (as_system st1 (add_mset [FinishCancelling n] T) (h @ [CancelRan n]))"
    by (rule contain_run [OF job]) simp
  also have "internal_run env \<dots>
      (as_system st' (add_mset [] T) ((h @ [CancelRan n]) @ [Released n]))"
    by (rule finish_cancelling_run [OF fin])
  also have "internal_run env \<dots> (as_system st' T ((h @ [CancelRan n]) @ [Released n]))"
    by (rule finish_run)
  finally show ?thesis .
qed

text \<open>
  A cancellation that finds no queued task ends with the fallback \<open>absent\<close>, which is outside the
  critical section; the two other dispositions are the whole method.
\<close>

lemma cancel_claim_run:
  assumes run: "cancel_task (env_jobs env) (env_watch env) n absent st = (Returns result, st')"
    and claim: "fst (cancel_pending_task n (inner st)) \<noteq> Absent"
    and act: "perform env a (inner st) (ext st) = Some (perform_claim_cancel n (inner st) (ext st))"
  shows "\<exists>ev. internal_run env (as_system st (add_mset [a] T) h)
    (as_system st' T (h @ ev))"
proof -
  obtain d i' where c: "cancel_pending_task n (inner st) = (d, i')"
    by fastforce
  let ?st1 = "st\<lparr>inner := i'\<rparr>"
  show ?thesis
  proof (cases d)
    case (Owned job)
    from run c Owned obtain st2 where
      job: "on_ext (contain (job_cancel (env_jobs env) job)) ?st1 = (Returns (), st2)"
      and fin: "locked (env_watch env) (finish_cancelling n) st2 = (Returns (), st')"
      by (auto simp: cancel_task_def exec_bind_Returns)
    have "perform env a (inner st) (ext st) =
        Some (effect_of [CancelJob n job, FinishCancelling n] [Claimed n] i' (ext st))"
      by (simp add: act perform_claim_cancel_def c Owned)
    from act_run [OF this, of ?st1 "[]" T h]
    have "internal_run env (as_system st (add_mset [a] T) h)
        (as_system ?st1 (add_mset [CancelJob n job, FinishCancelling n] T) (h @ [Claimed n]))"
      by simp
    also have "internal_run env \<dots>
        (as_system st' T (((h @ [Claimed n]) @ [CancelRan n]) @ [Released n]))"
      by (rule cancel_claimed_run [OF job fin])
    finally show ?thesis
      by (intro exI [of _ "[Claimed n, CancelRan n, Released n]"]) simp
  next
    case InProgress
    have st': "st' = ?st1"
      using run by (simp add: cancel_task_def c InProgress)
    have "perform env a (inner st) (ext st) = Some (effect_of [] [] i' (ext st))"
      by (simp add: act perform_claim_cancel_def c InProgress)
    from act_run [OF this, of ?st1 "[]" T h]
    have "internal_run env (as_system st (add_mset [a] T) h)
        (as_system st' (add_mset [] T) h)"
      by (simp add: st')
    also have "internal_run env \<dots> (as_system st' T (h @ []))"
      by (simp add: finish_run)
    finally show ?thesis by blast
  next
    case Absent
    with claim c show ?thesis by simp
  qed
qed

lemma cancel_task_run:
  assumes "cancel_task (env_jobs env) (env_watch env) n absent st = (Returns result, st')"
    and "fst (cancel_pending_task n (inner st)) \<noteq> Absent"
  shows "\<exists>ev. internal_run env (as_system st (add_mset [ClaimCancel n] T) h)
    (as_system st' T (h @ ev))"
  by (rule cancel_claim_run [OF assms]) simp

text \<open>
  The detached endpoint takes up to three actions: the claim, the look at the running tasks, and
  the cancellation of the tracked task.
\<close>

lemma endpoint_absent_run:
  assumes run: "endpoint_absent api task n st = (Returns result, st')"
    and env: "env_tracked_cancel env n =
      exec_bind (tracked_cancel api task) (\<lambda>_. exec_return ())"
  shows "internal_run env (as_system st (add_mset [CheckRunning n] T) h) (as_system st' T h)"
proof (cases "is_running_task n (inner st)")
  case True
  then have "perform env (CheckRunning n) (inner st) (ext st) =
      Some (effect_of [] [] (inner st) (ext st))"
    by (simp add: perform_check_running_def)
  from act_run [OF this, of st "[]" T h] run True
  have "internal_run env (as_system st (add_mset [CheckRunning n] T) h)
      (as_system st' (add_mset [] T) h)"
    by (simp add: endpoint_absent_def)
  also note finish_run
  finally show ?thesis .
next
  case False
  with run obtain x' where cancel: "tracked_cancel api task (ext st) = (Returns result, x')"
    and st': "st' = st\<lparr>ext := x'\<rparr>"
    by (auto simp: endpoint_absent_def on_ext_Returns)
  from False have "perform env (CheckRunning n) (inner st) (ext st) =
      Some (effect_of [TrackedCancel n] [] (inner st) (ext st))"
    by (simp add: perform_check_running_def)
  from act_run [OF this, of st "[]" T h]
  have "internal_run env (as_system st (add_mset [CheckRunning n] T) h)
      (as_system st (add_mset [TrackedCancel n] T) h)"
    by simp
  also have "internal_run env \<dots> (as_system st' (add_mset [] T) h)"
  proof -
    have "perform env (TrackedCancel n) (inner st) (ext st) =
        Some (effect_of [] [] (inner st) x')"
      by (simp add: perform_tracked_cancel_def env exec_bind_def cancel)
    from act_run [OF this, of st' "[]" T h] st' show ?thesis
      by simp
  qed
  also note finish_run
  finally show ?thesis .
qed

lemma endpoint_cancel_run:
  assumes run: "endpoint_cancel api (env_jobs env) (env_watch env) hdl st = (Returns result, st')"
    and env: "env_tracked_cancel env (handle_task_id hdl) =
      exec_bind (tracked_cancel api (tracked hdl)) (\<lambda>_. exec_return ())"
  shows "\<exists>ev. internal_run env
    (as_system st (add_mset [EndpointCancel (handle_task_id hdl)] T) h) (as_system st' T (h @ ev))"
proof -
  let ?n = "handle_task_id hdl"
  obtain d i' where c: "cancel_pending_task ?n (inner st) = (d, i')"
    by fastforce
  show ?thesis
  proof (cases "d = Absent")
    case True
    with c have i': "i' = inner st"
      by (cases rule: cancel_pending_task_cases) simp_all
    from run c True have "endpoint_absent api (tracked hdl) ?n st = (Returns result, st')"
      by (simp add: endpoint_cancel_def cancel_task_def i')
    note rest = endpoint_absent_run [where env = env, OF this env]
    have "perform env (EndpointCancel ?n) (inner st) (ext st) =
        Some (effect_of [CheckRunning ?n] [] (inner st) (ext st))"
      by (simp add: perform_endpoint_cancel_def c True i')
    from act_run [OF this, of st "[]" T h]
    have "internal_run env (as_system st (add_mset [EndpointCancel ?n] T) h)
        (as_system st (add_mset [CheckRunning ?n] T) h)"
      by simp
    also note rest
    finally show ?thesis
      by (intro exI [of _ "[]"]) simp
  next
    case False
    then have "perform env (EndpointCancel ?n) (inner st) (ext st) =
        Some (perform_claim_cancel ?n (inner st) (ext st))"
      using c by (cases d) (simp_all add: perform_endpoint_cancel_def perform_claim_cancel_def)
    from cancel_claim_run [OF run [unfolded endpoint_cancel_def] _ this] c False show ?thesis
      by simp
  qed
qed

section \<open>Submission\<close>

lemma dispatch_run:
  "internal_run env (as_system st (add_mset (Dispatch n # k) T) h)
     (as_system (st\<lparr>spawned := spawned st + n\<rparr>) (add_mset k T) h)"
proof (induction n arbitrary: st)
  case 0
  have "perform env (Dispatch 0) (inner st) (ext st) = Some (effect_of [] [] (inner st) (ext st))"
    by (simp add: perform_dispatch_def)
  from act_run [OF this, of st k T h] show ?case
    by simp
next
  case (Suc n)
  let ?st1 = "st\<lparr>spawned := Suc (spawned st)\<rparr>"
  have "perform env (Dispatch (Suc n)) (inner st) (ext st) =
      Some ((effect_of [Dispatch n] [] (inner st) (ext st))\<lparr>eff_spawns := 1\<rparr>)"
    by (simp add: perform_dispatch_def)
  from act_run [OF this, of ?st1 k T h]
  have "internal_run env (as_system st (add_mset (Dispatch (Suc n) # k) T) h)
      (as_system ?st1 (add_mset (Dispatch n # k) T) h)"
    by simp
  also have "internal_run env \<dots>
      (as_system (?st1\<lparr>spawned := spawned ?st1 + n\<rparr>) (add_mset k T) h)"
    by (rule Suc.IH)
  finally show ?case
    by simp
qed

text \<open>Admission with the destructor of a refused job, and the dispatch after it.\<close>

lemma admit_job_run:
  assumes "admit_job (env_jobs env) job st = (Returns r, st')"
  shows "internal_run env (as_system st (add_mset [Admit job] T) h)
    (case r of
       Inl e \<Rightarrow> as_system st' (add_mset [] T) h
     | Inr a \<Rightarrow> as_system (st'\<lparr>spawned := spawned st' + unat (dispatch_count a)\<rparr>)
                 (add_mset [] T) (h @ [Accepted (admitted_task_id a)]))"
proof -
  obtain o1 i' x' where adm: "admit (job_accept (env_jobs env)) job (inner st) (ext st) = (o1, i', x')"
    by (metis prod_cases3)
  let ?st1 = "st\<lparr>inner := i', ext := x'\<rparr>"
  show ?thesis
  proof (cases r)
    case (Inr a)
    with assms adm have o1: "o1 = Returns (Inr a)" and st': "st' = ?st1"
      by (auto simp: admit_job_def exec_bind_Returns drop_while_unwinding_def Let_def
          split: outcome.splits sum.splits prod.splits)
    have "perform env (Admit job) (inner st) (ext st) =
        Some (effect_of [Dispatch (unat (dispatch_count a))] [Accepted (admitted_task_id a)] i' x')"
      by (simp add: adm o1)
    from act_run [OF this, of ?st1 "[]" T h]
    have "internal_run env (as_system st (add_mset [Admit job] T) h)
        (as_system ?st1 (add_mset (Dispatch (unat (dispatch_count a)) # []) T)
          (h @ [Accepted (admitted_task_id a)]))"
      by simp
    also note dispatch_run
    finally show ?thesis
      by (simp add: Inr st')
  next
    case (Inl e)
    with assms adm obtain x2 where o1: "o1 = Returns (Inl e)"
      and drop: "job_drop (env_jobs env) job x' = (Returns (), x2)" and st': "st' = ?st1\<lparr>ext := x2\<rparr>"
      by (auto simp: admit_job_def exec_bind_Returns on_ext_Returns drop_while_unwinding_def Let_def
          split: outcome.splits sum.splits prod.splits)
    have "perform env (Admit job) (inner st) (ext st) = Some (effect_of [DropRejected False job] [] i' x')"
      by (simp add: adm o1)
    from act_run [OF this, of ?st1 "[]" T h]
    have "internal_run env (as_system st (add_mset [Admit job] T) h)
        (as_system ?st1 (add_mset [DropRejected False job] T) h)"
      by simp
    also have "internal_run env \<dots> (as_system st' (add_mset [] T) h)"
    proof -
      have "perform env (DropRejected False job) (inner ?st1) (ext ?st1) =
          Some (effect_of [] [] (inner ?st1) x2)"
        by (simp add: perform_drop_def drop)
      from act_run [OF this, of st' "[]" T h] show ?thesis
        by (simp add: st')
    qed
    finally show ?thesis
      by (simp add: Inl)
  qed
qed

lemma submit_runnable_run:
  assumes jobs: "env_jobs env = queued_job_methods api"
    and run: "submit_runnable api task st = (Returns r, st')"
  shows "\<exists>ev. internal_run env (as_system st (add_mset [Admit (RunnableJob task)] T) h)
    (as_system st' T (h @ ev))"
proof -
  from run obtain a st1 where adm: "admit_job (env_jobs env) (RunnableJob task) st = (Returns a, st1)"
    and rest: "(case a of Inl e \<Rightarrow> exec_return (Inl e)
      | Inr admission \<Rightarrow> exec_bind (dispatch (dispatch_count admission)) (\<lambda>_. exec_return (Inr ())))
        st1 = (Returns r, st')"
    unfolding submit_runnable_def jobs by (auto simp: exec_bind_Returns)
  have st': "st' = (case a of Inl e \<Rightarrow> st1
      | Inr admission \<Rightarrow> st1\<lparr>spawned := spawned st1 + unat (dispatch_count admission)\<rparr>)"
    using rest by (auto simp: exec_bind_Returns dispatch_eq split: sum.splits)
  obtain ev where "internal_run env (as_system st (add_mset [Admit (RunnableJob task)] T) h)
      (as_system st' (add_mset [] T) (h @ ev))"
  proof (cases a)
    case (Inl e)
    with admit_job_run [OF adm, of T h] st' that [of "[]"] show ?thesis
      by simp
  next
    case (Inr admission)
    with admit_job_run [OF adm, of T h] st' that [of "[Accepted (admitted_task_id admission)]"]
    show ?thesis
      by simp
  qed
  from run_trans [OF this finish_run] show ?thesis
    by blast
qed

end
