(* ===== verification/Executor_Spec.thy ===== *)
theory Executor_Spec
  imports Progress
begin

text \<open>
  The abstract bounded executor, as an automaton over events, and the proof that the interleaved
  system implements it: the events of every reachable state are a run of the automaton, and the
  state it ends in is what the locked record and the threads hold. The automaton knows nothing of
  mutexes, threads, closures or counters: it says that a task is accepted only while the service is
  open and has room, that workers take the oldest waiting task and at most \<open>workers\<close> are active,
  that a task's code runs at most once and between its claim and its release, and that room is given
  back only after the code of the task has ended.
\<close>

record spec_state =
  spec_open :: bool
  spec_issued :: "usize list"
  spec_waiting :: "usize list"
  spec_active :: "usize set"
  spec_claimed :: "usize set"
  spec_pending :: "usize set"

definition spec_initial :: spec_state where
  "spec_initial =
     \<lparr>spec_open = True, spec_issued = [], spec_waiting = [], spec_active = {}, spec_claimed = {},
      spec_pending = {}\<rparr>"

definition spec_load :: "spec_state \<Rightarrow> nat" where
  "spec_load sp = length (spec_waiting sp) + card (spec_active sp) + card (spec_claimed sp)"

fun spec_step :: "nat \<Rightarrow> nat \<Rightarrow> event \<Rightarrow> spec_state \<Rightarrow> spec_state option" where
  "spec_step capacity workers (Accepted n) sp =
     (if spec_open sp \<and> spec_load sp < capacity \<and> list_all (\<lambda>m. m < n) (spec_issued sp)
      then Some (sp\<lparr>spec_issued := spec_issued sp @ [n], spec_waiting := spec_waiting sp @ [n]\<rparr>)
      else None)"
| "spec_step capacity workers (Started n) sp =
     (case spec_waiting sp of
        [] \<Rightarrow> None
      | m # waiting \<Rightarrow>
          if m = n \<and> card (spec_active sp) < workers
          then Some (sp\<lparr>spec_waiting := waiting, spec_active := insert n (spec_active sp),
                        spec_pending := insert n (spec_pending sp)\<rparr>)
          else None)"
| "spec_step capacity workers (Executed n) sp =
     (if n \<in> spec_active sp \<and> n \<in> spec_pending sp
      then Some (sp\<lparr>spec_pending := spec_pending sp - {n}\<rparr>) else None)"
| "spec_step capacity workers (Claimed n) sp =
     (if n \<in> set (spec_waiting sp)
      then Some (sp\<lparr>spec_waiting := removeAll n (spec_waiting sp),
                    spec_claimed := insert n (spec_claimed sp),
                    spec_pending := insert n (spec_pending sp)\<rparr>)
      else None)"
| "spec_step capacity workers (CancelRan n) sp =
     (if n \<in> spec_claimed sp \<and> n \<in> spec_pending sp
      then Some (sp\<lparr>spec_pending := spec_pending sp - {n}\<rparr>) else None)"
| "spec_step capacity workers (Released n) sp =
     (if n \<in> spec_active sp \<union> spec_claimed sp \<and> n \<notin> spec_pending sp
      then Some (sp\<lparr>spec_active := spec_active sp - {n}, spec_claimed := spec_claimed sp - {n}\<rparr>)
      else None)"
| "spec_step capacity workers Closed sp = Some (sp\<lparr>spec_open := False\<rparr>)"

fun spec_run :: "nat \<Rightarrow> nat \<Rightarrow> event list \<Rightarrow> spec_state \<Rightarrow> spec_state option" where
  "spec_run capacity workers [] sp = Some sp"
| "spec_run capacity workers (e # es) sp =
     (case spec_step capacity workers e sp of
        None \<Rightarrow> None | Some sp' \<Rightarrow> spec_run capacity workers es sp')"

lemma spec_run_append:
  "spec_run capacity workers es sp = Some sp' \<Longrightarrow>
     spec_run capacity workers (es @ es') sp = spec_run capacity workers es' sp'"
  by (induction es arbitrary: sp) (auto split: option.splits)

section \<open>What the automaton promises\<close>

definition spec_ok :: "nat \<Rightarrow> nat \<Rightarrow> spec_state \<Rightarrow> bool" where
  "spec_ok capacity workers sp \<longleftrightarrow>
     spec_load sp \<le> capacity \<and> card (spec_active sp) \<le> workers \<and>
     finite (spec_active sp) \<and> finite (spec_claimed sp) \<and>
     sorted_wrt (<) (spec_issued sp) \<and> sorted_wrt (<) (spec_waiting sp) \<and>
     set (spec_waiting sp) \<union> spec_active sp \<union> spec_claimed sp \<subseteq> set (spec_issued sp) \<and>
     set (spec_waiting sp) \<inter> (spec_active sp \<union> spec_claimed sp) = {} \<and>
     spec_active sp \<inter> spec_claimed sp = {} \<and>
     spec_pending sp \<subseteq> spec_active sp \<union> spec_claimed sp"

lemma sorted_wrt_removeAll: "sorted_wrt P xs \<Longrightarrow> sorted_wrt P (removeAll n xs)"
  by (induction xs) auto

lemma spec_step_ok:
  assumes ok: "spec_ok capacity workers sp" and step: "spec_step capacity workers e sp = Some sp'"
  shows "spec_ok capacity workers sp'"
proof (cases e)
  case (Accepted n)
  with step have room: "spec_load sp < capacity" and new: "\<forall>m \<in> set (spec_issued sp). m < n"
    and sp': "sp' = sp\<lparr>spec_issued := spec_issued sp @ [n], spec_waiting := spec_waiting sp @ [n]\<rparr>"
    by (auto simp: list_all_iff split: if_splits)
  have "n \<notin> set (spec_issued sp)"
    using new by blast
  with ok room new show ?thesis
    by (auto simp: sp' spec_ok_def spec_load_def sorted_wrt_append subset_iff)
next
  case (Started n)
  with step obtain waiting where w: "spec_waiting sp = n # waiting"
    and room: "card (spec_active sp) < workers"
    and sp': "sp' = sp\<lparr>spec_waiting := waiting, spec_active := insert n (spec_active sp),
      spec_pending := insert n (spec_pending sp)\<rparr>"
    by (auto split: list.splits if_splits)
  from ok w room show ?thesis
    by (auto simp: sp' spec_ok_def spec_load_def)
next
  case (Claimed n)
  with step have mem: "n \<in> set (spec_waiting sp)"
    and sp': "sp' = sp\<lparr>spec_waiting := removeAll n (spec_waiting sp),
      spec_claimed := insert n (spec_claimed sp), spec_pending := insert n (spec_pending sp)\<rparr>"
    by (auto split: if_splits)
  from ok mem have "n \<notin> spec_claimed sp"
    by (auto simp: spec_ok_def)
  with ok length_removeAll_less [OF mem] mem show ?thesis
    by (auto simp: sp' spec_ok_def spec_load_def sorted_wrt_removeAll)
next
  case (Released n)
  with step ok show ?thesis
    by (auto simp: spec_ok_def spec_load_def card_Diff_singleton_if split: if_splits)
qed (use step ok in \<open>auto simp: spec_ok_def spec_load_def split: if_splits\<close>)

interpretation spec: invariant_system
  "\<lambda>sp. sp = spec_initial" "\<lambda>sp e sp'. spec_step capacity workers e sp = Some sp'"
  "spec_ok capacity workers"
  for capacity workers
proof (unfold_locales, goal_cases)
  case (1 sp)
  then show ?case by (simp add: spec_ok_def spec_load_def spec_initial_def)
next
  case (2 sp e sp')
  then show ?case by (rule spec_step_ok)
qed

lemma spec_run_steps:
  "spec_run capacity workers es sp = Some sp' \<Longrightarrow>
     (\<lambda>sp sp'. \<exists>e. spec_step capacity workers e sp = Some sp')\<^sup>*\<^sup>* sp sp'"
  by (induction es arbitrary: sp)
    (auto split: option.splits intro: converse_rtranclp_into_rtranclp)

lemma spec_run_ok:
  "spec_run capacity workers es spec_initial = Some sp \<Longrightarrow> spec_ok capacity workers sp"
  by (rule spec.run_inv [OF spec_run_steps spec.start_inv [OF refl]])

section \<open>Threads finish what they own\<close>

text \<open>A thread that owns a job goes on to release its task right after the job's code.\<close>

fun matched :: "'job action list \<Rightarrow> bool" where
  "matched [] = True"
| "matched (RunJob n job # k) = ((\<exists>k'. k = FinishRunning n # k') \<and> matched k)"
| "matched (CancelJob n job # k) = ((\<exists>k'. k = FinishCancelling n # k') \<and> matched k)"
| "matched (a # k) = matched k"

lemma matched_tail: "matched (a # k) \<Longrightarrow> matched k"
  by (cases a) auto

lemma matched_append: "matched k \<Longrightarrow> matched k' \<Longrightarrow> matched (k @ k')"
  by (induction k rule: matched.induct) auto

lemma matched_publish [simp]: "matched (publish_actions sg)"
  by (auto simp: publish_actions_def split: option.split)

lemma matched_cancel_actions [simp]: "matched (cancel_actions owned)"
  by (induction owned) (auto simp: cancel_actions_def)

lemma matched_owned:
  "matched (k :: 'job action list) \<Longrightarrow> sum_list (map owned_ids k) \<subseteq>#
     sum_list (map running_ids k) + sum_list (map cancelling_ids k)"
proof (induction k rule: length_induct)
  case (1 k)
  show ?case
  proof (cases k)
    case Nil
    then show ?thesis by simp
  next
    case (Cons a k1)
    have IH: "sum_list (map owned_ids k') \<subseteq>#
        sum_list (map running_ids k') + sum_list (map cancelling_ids k')"
      if "length k' < length k" "matched k'"
      for k' :: "'job action list"
      using 1 that by blast
    show ?thesis
    proof (cases "owned_ids a = {#}")
      case True
      have "sum_list (map owned_ids k1) \<subseteq>#
          sum_list (map running_ids k1) + sum_list (map cancelling_ids k1)"
        using Cons 1(2) matched_tail by (intro IH) auto
      then have "sum_list (map owned_ids k1) \<subseteq># (running_ids a + cancelling_ids a) +
          (sum_list (map running_ids k1) + sum_list (map cancelling_ids k1))"
        by (simp add: subset_mset.add_increasing)
      with Cons True show ?thesis
        by (simp add: ac_simps)
    next
      case False
      then obtain n k' where "owned_ids a = {#n#}" "matched k'"
        "k1 = FinishRunning n # k' \<or> k1 = FinishCancelling n # k'"
        "running_ids a = {#}" "cancelling_ids a = {#}"
        using 1(2) Cons by (cases a) auto
      with Cons IH [of k'] show ?thesis
        by auto
    qed
  qed
qed

definition all_matched :: "'job action list multiset \<Rightarrow> bool" where
  "all_matched T \<longleftrightarrow> (\<forall>k \<in># T. matched k)"

lemma all_matched_simps [simp]:
  "all_matched {#}" "all_matched (add_mset k T) \<longleftrightarrow> matched k \<and> all_matched T"
  "all_matched (T + U) \<longleftrightarrow> all_matched T \<and> all_matched U"
  "all_matched (replicate_mset m [TakeNext])"
  by (auto simp: all_matched_def)

lemma all_matched_owned:
  "all_matched T \<Longrightarrow> total owned_ids T \<subseteq># total running_ids T + total cancelling_ids T"
proof (induction T)
  case (add k T)
  then have "sum_list (map owned_ids k) \<subseteq>#
      sum_list (map running_ids k) + sum_list (map cancelling_ids k)"
    and "total owned_ids T \<subseteq># total running_ids T + total cancelling_ids T"
    by (simp_all add: matched_owned)
  from subset_mset.add_mono [OF this] show ?case
    by (simp add: ac_simps)
qed simp

lemma perform_matched:
  assumes "perform env a i x = Some e"
  shows "matched (eff_next e)"
  using assms
  by (cases a) (auto simp: run_contained_Some quiet_defs perform_take_next_def
      perform_finish_running_def perform_claim_cancel_def perform_endpoint_cancel_def
      perform_finish_cancelling_def perform_shutdown_def perform_stop_def matched_append
      split: prod.splits option.splits outcome.splits sum.splits if_splits cancel_disposition.splits)

section \<open>The simulation\<close>

definition simulates ::
  "'job rayon_executor_service_inner \<Rightarrow> usize multiset \<Rightarrow> event list \<Rightarrow> spec_state \<Rightarrow> bool" where
  "simulates i D h sp \<longleftrightarrow>
     (spec_open sp \<longleftrightarrow> lifecycle i = Running) \<and>
     spec_waiting sp = map fst (queue i) \<and> spec_active sp = running_tasks i \<and>
     spec_claimed sp = cancelling i \<and> finite (spec_pending sp) \<and> mset_set (spec_pending sp) = D \<and>
     set (spec_issued sp) = set_mset (accepted h)"

lemma spec_run_claims:
  "spec_waiting sp = ids \<Longrightarrow> distinct ids \<Longrightarrow>
     spec_run capacity workers (map Claimed ids) sp =
       Some (sp\<lparr>spec_waiting := [], spec_claimed := spec_claimed sp \<union> set ids,
                spec_pending := spec_pending sp \<union> set ids\<rparr>)"
proof (induction ids arbitrary: sp)
  case (Cons n ids)
  then show ?case
    by (simp add: insert_def [symmetric])
qed simp

lemma mset_set_add_msetD:
  assumes "finite A" and eq: "mset_set A = add_mset n D"
  shows "n \<in> A \<and> mset_set (A - {n}) = D"
proof -
  have "n \<in> A"
    using assms by (metis finite_set_mset_mset_set union_single_eq_member)
  from trans [OF eq [symmetric] mset_set_remove [OF assms(1) this]] \<open>n \<in> A\<close> show ?thesis
    by simp
qed

lemma removeAll_keys: "removeAll n (map fst q) = map fst (filter (\<lambda>p. fst p \<noteq> n) q)"
  by (induction q) auto

lemma quiet_events:
  assumes "quiet_action a" and "quiet_effect a i e" and "perform env a i x = Some e"
  shows "eff_events e =
    (case a of RunJob n job \<Rightarrow> [Executed n] | CancelJob n job \<Rightarrow> [CancelRan n] | _ \<Rightarrow> [])"
  using assms(1,3) quiet_effectD(7) [OF assms(2)]
  by (cases a) (auto simp: run_contained_Some quiet_defs perform_endpoint_cancel_def
    split: prod.splits outcome.splits if_splits cancel_disposition.splits)

text \<open>
  One action. \<open>answers\<close> says that the events of an effect are steps of the automaton that lead to a
  state simulated by the new record; \<open>D\<close> are the jobs owned by the rest of the system. First the
  actions whose events need an argument of their own.
\<close>

definition answers ::
  "'job rayon_executor_service_inner \<Rightarrow> usize multiset \<Rightarrow> event list \<Rightarrow> spec_state \<Rightarrow>
     ('job, 'x) effect \<Rightarrow> bool" where
  "answers i D h sp e \<longleftrightarrow>
     (\<exists>sp'. spec_run (unat (task_capacity i)) (unat (num_threads i)) (eff_events e) sp = Some sp' \<and>
        simulates (eff_inner e) (sum_list (map owned_ids (eff_next e)) + D) (h @ eff_events e) sp')"

lemma accepted_answers:
  assumes ok: "inner_ok i" and sim: "simulates i D h sp"
    and issued: "\<forall>n \<in># accepted h. n < next_task_id i"
    and room: "lifecycle i = Running" "occupied i < task_capacity i"
    and e: "eff_inner e = i\<lparr>next_task_id := next_task_id i + 1,
         queue := btree_insert (next_task_id i) job (queue i), scheduled := m\<rparr>"
      "eff_next e = [Dispatch k]" "eff_events e = [Accepted (next_task_id i)]"
  shows "answers i D h sp e"
proof -
  let ?n = "next_task_id i"
  have q: "btree_insert ?n job (queue i) = queue i @ [(?n, job)]"
    using inner_okD(6) [OF ok] by (intro btree_insert_last) (auto simp: tasks_ok_def)
  have load: "spec_load sp = unat (occupied i)"
    using sim inner_okD(4) [OF ok] by (simp add: spec_load_def simulates_def unat_occupied [OF ok])
  show ?thesis
    using sim issued load room
    by (auto simp: answers_def simulates_def e q list_all_iff word_less_nat_alt)
qed

lemma started_answers:
  assumes ok: "inner_ok i" and sim: "simulates i D h sp"
    and q: "queue i = (n, job) # q" and idle: "unat (running i) < unat (scheduled i)"
    and free: "n \<notin> spec_pending sp"
  shows "answers i D h sp (effect_of [RunJob n job, FinishRunning n] [Started n]
    (i\<lparr>queue := q, running := running i + 1, running_tasks := insert n (running_tasks i)\<rparr>) x)"
proof -
  have "card (running_tasks i) < unat (num_threads i)"
    using idle inner_okD(4,7) [OF ok] by (simp add: counters_ok_def)
  with sim q free show ?thesis
    by (auto simp: answers_def simulates_def)
qed

lemma claimed_answers:
  assumes sim: "simulates i D h sp" and n: "map_of (queue i) n = Some job"
    and free: "n \<notin> spec_pending sp"
  shows "answers i D h sp (effect_of [CancelJob n job, FinishCancelling n] [Claimed n]
    (i\<lparr>queue := filter (\<lambda>p. fst p \<noteq> n) (queue i), cancelling := insert n (cancelling i)\<rparr>) x)"
  using sim free map_of_btree_Some [OF n]
  by (auto simp: answers_def simulates_def btree_keys_def removeAll_keys)

text \<open>The events of \<open>stop\<close>: admission is closed and every waiting task is claimed.\<close>

lemma stopped_answers:
  assumes ok: "inner_ok i" and sim: "simulates i D h sp"
    and free: "btree_keys (queue i) \<inter> spec_pending sp = {}"
    and e: "eff_inner e = i\<lparr>lifecycle := Stopping, queue := [],
         cancelling := cancelling i \<union> btree_keys (queue i)\<rparr>"
      "sum_list (map owned_ids (eff_next e)) = mset (map fst (queue i))"
      "eff_events e = Closed # map (\<lambda>p. Claimed (fst p)) (queue i)"
  shows "answers i D h sp e"
proof -
  note distinct = btree_ok_distinct [OF inner_okD(1) [OF ok]]
  have "finite (spec_pending sp)"
    using sim by (simp add: simulates_def)
  then have "mset_set (spec_pending sp \<union> btree_keys (queue i)) = D + mset (map fst (queue i))"
    using sim free btree_keys_mset [OF inner_okD(1) [OF ok]]
    by (simp add: mset_set_Union Int_commute simulates_def btree_keys_def)
  with sim distinct spec_run_claims [of "sp\<lparr>spec_open := False\<rparr>" "map fst (queue i)"] show ?thesis
    by (simp add: answers_def simulates_def e comp_def btree_keys_def)
qed

lemma released_answers:
  assumes sim: "simulates i D h sp" and free: "n \<notin> spec_pending sp"
    and mem: "n \<in> running_tasks i \<and> n \<notin> cancelling i \<and> eff_inner e = i\<lparr>running_tasks :=
        running_tasks i - {n}, running := r, scheduled := m\<rparr> \<or>
      n \<in> cancelling i \<and> n \<notin> running_tasks i \<and> eff_inner e = i\<lparr>cancelling := cancelling i - {n}\<rparr>"
    and e: "sum_list (map owned_ids (eff_next e)) = {#}" "eff_events e = [Released n]"
  shows "answers i D h sp e"
  using sim free mem by (auto simp: answers_def simulates_def e)

lemma ended_answers:
  assumes sim: "simulates i (add_mset n D) h sp"
    and e: "eff_inner e = i" "sum_list (map owned_ids (eff_next e)) = {#}"
      "eff_events e = [Executed n] \<and> n \<in> running_tasks i \<or> eff_events e = [CancelRan n] \<and> n \<in> cancelling i"
  shows "answers i D h sp e"
proof -
  have "finite (spec_pending sp)" and "mset_set (spec_pending sp) = add_mset n D"
    using sim by (simp_all add: simulates_def)
  note mset_set_add_msetD [OF this]
  with sim e show ?thesis
    by (auto simp: answers_def simulates_def)
qed

lemma unchanged_answers:
  assumes "simulates i D h sp" and "eff_events e = []" and "sum_list (map owned_ids (eff_next e)) = {#}"
    and "eff_inner e = i\<lparr>next_task_id := m\<rparr> \<or> eff_inner e = i\<lparr>scheduled := m\<rparr> \<or> eff_inner e = i"
  shows "answers i D h sp e"
  using assms by (auto simp: answers_def simulates_def)

text \<open>
  All actions. \<open>M\<close> and \<open>C\<close> are the running tasks and cancellations held by the rest of the system.
\<close>

lemma quiet_answers:
  assumes e: "perform env a i x = Some e" and quiet: "quiet_action a" "quiet_effect a i e"
    and runs: "\<And>n job. a = RunJob n job \<Longrightarrow> n \<in> running_tasks i"
    and cancels: "\<And>n job. a = CancelJob n job \<Longrightarrow> n \<in> cancelling i"
    and sim: "simulates i (owned_ids a + D) h sp"
  shows "answers i D h sp e"
proof -
  note ev = quiet_events [OF quiet e] and q = quiet_effectD(1,8) [OF quiet(2)]
  show ?thesis
  proof (cases a)
    case (RunJob n job)
    with sim ev q runs show ?thesis
      by (intro ended_answers [of i n]) auto
  next
    case (CancelJob n job)
    with sim ev q cancels show ?thesis
      by (intro ended_answers [of i n]) auto
  qed (use sim ev q in \<open>auto intro: unchanged_answers\<close>)
qed

lemma held_once:
  assumes "mset_set A = add_mset n M" and "set_mset D \<subseteq> set_mset M \<union> B" and "A \<inter> B = {}"
  shows "n \<in> A" and "n \<notin> B" and "n \<notin># D"
proof -
  have "count (mset_set A) n = Suc (count M n)"
    by (simp add: assms(1))
  then have "n \<in> A \<and> n \<notin># M"
    by (auto simp: count_mset_set' not_in_iff split: if_splits)
  with assms(2,3) show "n \<in> A" and "n \<notin> B" and "n \<notin># D"
    by auto
qed

text \<open>A task that the acting thread is about to release: nobody else holds it, and its code has ended.\<close>

lemma held_alone:
  assumes "simulates i D h sp"
    and "mset_set A = add_mset n N" "set_mset D \<subseteq> set_mset N \<union> B" "A \<inter> B = {}"
  shows "n \<in> A \<and> n \<notin> B \<and> n \<notin> spec_pending sp"
proof -
  have "spec_pending sp = set_mset D"
    using assms(1) by (metis finite_set_mset_mset_set simulates_def)
  with held_once [OF assms(2-4)] show ?thesis
    by simp
qed

lemma perform_simulates:
  assumes ok: "inner_ok i" and e: "perform env a i x = Some e"
    and M: "running_ids a + M = mset_set (running_tasks i)"
    and C: "cancelling_ids a + C = mset_set (cancelling i)"
    and room: "a = TakeNext \<Longrightarrow> unat (running i) < unat (scheduled i)"
    and issued: "\<forall>n \<in># accepted h. n < next_task_id i"
    and owned: "D \<subseteq># M + C"
    and runs: "\<And>n job. a = RunJob n job \<Longrightarrow> n \<in># M"
    and cancels: "\<And>n job. a = CancelJob n job \<Longrightarrow> n \<in># C"
    and sim: "simulates i (owned_ids a + D) h sp"
  shows "answers i D h sp e"
proof -
  note tasks = inner_okD(6) [OF ok, unfolded tasks_ok_def]
  have mem: "set_mset M \<subseteq> running_tasks i" "set_mset C \<subseteq> cancelling i"
    using arg_cong [OF M, of set_mset] arg_cong [OF C, of set_mset] inner_okD(2,3) [OF ok] by auto
  have pending: "spec_pending sp = set_mset (owned_ids a) \<union> set_mset D"
    using sim by (metis finite_set_mset_mset_set set_mset_union simulates_def)
  have D: "set_mset D \<subseteq> set_mset M \<union> set_mset C"
    using set_mset_mono [OF owned] by simp
  have "set_mset (owned_ids a) \<subseteq> running_tasks i \<union> cancelling i"
    using runs cancels mem by (cases a) auto
  with pending D mem have busy: "spec_pending sp \<subseteq> running_tasks i \<union> cancelling i"
    by auto
  from e show ?thesis
  proof (cases rule: perform_effects)
    case (refused job u)
    with sim show ?thesis by (auto intro: unchanged_answers)
  next
    case (admitted job n)
    with ok sim issued show ?thesis by (auto intro: accepted_answers)
  next
    case (idled i')
    with sim show ?thesis by (auto intro: unchanged_answers)
  next
    case (taken n job q)
    with ok sim room busy tasks show ?thesis by (auto intro!: started_answers)
  next
    case (finished n i')
    have held: "n \<in> running_tasks i \<and> n \<notin> cancelling i \<and> n \<notin> spec_pending sp"
      by (rule held_alone [of i D h sp _ n M]) (use sim M D mem tasks finished(1) in auto)
    show ?thesis
      by (rule released_answers [where n = n]) (use sim held finished in simp_all)
  next
    case (claimed n job)
    with sim busy tasks map_of_btree_Some [OF claimed(2)] show ?thesis
      by (auto intro!: claimed_answers)
  next
    case (unclaimed n)
    with sim show ?thesis by (auto intro: unchanged_answers)
  next
    case (released n i')
    have held: "n \<in> cancelling i \<and> n \<notin> running_tasks i \<and> n \<notin> spec_pending sp"
      by (rule held_alone [of i D h sp _ n C]) (use sim C D mem tasks released(1) in auto)
    show ?thesis
      by (rule released_answers [where n = n]) (use sim held released in simp_all)
  next
    case (shut i')
    with sim show ?thesis by (auto simp: answers_def simulates_def)
  next
    case (stopped i')
    have "btree_keys (queue i) \<inter> spec_pending sp = {}"
      using busy tasks by auto
    with stopped ok sim show ?thesis by (auto intro!: stopped_answers)
  next
    case quiet
    with e sim runs cancels mem show ?thesis by (intro quiet_answers) auto
  qed
qed

text \<open>The invariant: the history is a run of the automaton, and it ends in this state.\<close>

definition refines :: "('job, 'x) system \<Rightarrow> bool" where
  "refines s \<longleftrightarrow>
     sys_ok s \<and> all_matched (threads s) \<and>
     (\<exists>sp. spec_run (unat (task_capacity (sys_inner s))) (unat (num_threads (sys_inner s)))
         (history s) spec_initial = Some sp \<and>
       simulates (sys_inner s) (total owned_ids (threads s)) (history s) sp)"

text \<open>A closure that is about to take a task holds a reservation beyond those of the running tasks.\<close>

lemma reservation_left:
  assumes inner: "inner_ok i" and bal: "balanced i (add_mset (TakeNext # rest) others)"
  shows "unat (running i) < unat (scheduled i)"
proof -
  let ?U = "add_mset rest others"
  have M: "total running_ids ?U = mset_set (running_tasks i)"
    and R: "Suc (total reserved ?U) = unat (scheduled i)"
    using bal by (simp_all add: balanced_def)
  have "unat (running i) = size (total running_ids ?U)"
    unfolding M using inner_okD(4) [OF inner] by simp
  with R running_reserved [of ?U] show ?thesis
    by linarith
qed

lemma act_refines:
  assumes ref: "refines s" and T: "threads s = add_mset (a # rest) others"
    and e: "perform env a (sys_inner s) (sys_ext s) = Some e"
  shows "refines (apply_effect e rest others (history s))"
proof -
  let ?i = "sys_inner s" and ?U = "add_mset rest others"
  have ok: "sys_ok s" and matched: "matched (a # rest)" "all_matched ?U"
    using ref T matched_tail by (auto simp: refines_def)
  then have inner: "inner_ok ?i" and bal: "balanced ?i (threads s)"
    and led: "ledger ?i (threads s) (history s)"
    by (simp_all add: sys_ok_def)
  from ref obtain sp where
    run: "spec_run (unat (task_capacity ?i)) (unat (num_threads ?i)) (history s) spec_initial = Some sp"
    and sim: "simulates ?i (total owned_ids (threads s)) (history s) sp"
    by (auto simp: refines_def)
  have M: "running_ids a + total running_ids ?U = mset_set (running_tasks ?i)"
    and C: "cancelling_ids a + total cancelling_ids ?U = mset_set (cancelling ?i)"
    using bal by (simp_all add: balanced_def T add.assoc)
  have room: "unat (running ?i) < unat (scheduled ?i)" if "a = TakeNext"
    using reservation_left [OF inner] bal by (simp add: T that)
  have runs: "n \<in># total running_ids ?U" if "a = RunJob n job" for n job
    using matched(1) that by auto
  have cancels: "n \<in># total cancelling_ids ?U" if "a = CancelJob n job" for n job
    using matched(1) that by auto
  have sim: "simulates ?i (owned_ids a + total owned_ids ?U) (history s) sp"
    using sim by (simp add: T add.assoc)
  have issued: "\<forall>n \<in># accepted (history s). n < next_task_id ?i"
    using led by (simp add: ledger_def)
  have "answers ?i (total owned_ids ?U) (history s) sp e"
    by (rule perform_simulates [OF inner e M C room issued all_matched_owned [OF matched(2)] _ _ sim])
      (auto dest: runs cancels)
  then obtain sp' where
    "spec_run (unat (task_capacity ?i)) (unat (num_threads ?i)) (eff_events e) sp = Some sp'"
    and "simulates (eff_inner e) (sum_list (map owned_ids (eff_next e)) + total owned_ids ?U)
      (history s @ eff_events e) sp'"
    unfolding answers_def by blast
  moreover have "matched (eff_next e @ rest)"
    using matched_append [OF perform_matched [OF e]] matched by simp
  ultimately show ?thesis
    using act_sys_ok [OF ok T e] matched(2) perform_frame(1,2) [OF e] run
    by (simp add: refines_def apply_effect_def total_spawned spec_run_append add.assoc)
qed

lemma client_matched: "client_action a \<Longrightarrow> matched [a]"
  by (cases a) auto

interpretation traces: invariant_system
  "\<lambda>s. \<exists>capacity workers x. s = initial_system capacity workers x" "system_step env" refines
  for env
proof (unfold_locales, goal_cases)
  case (1 s)
  then obtain capacity workers x where s: "s = initial_system capacity workers x"
    by blast
  have "sys_ok s"
    unfolding s by (rule sys_ok_initial)
  then show ?case
    by (auto simp: refines_def s initial_system_def new_state_def simulates_def spec_initial_def)
next
  case (2 s w s')
  have ok: "sys_ok s'"
    using 2 svc.step_inv by (auto simp: refines_def)
  from 2(2) show ?case
  proof (cases rule: system_step.cases)
    case internal
    then show ?thesis
    proof (cases rule: internal_step.cases)
      case (act a rest others e)
      with 2(1) show ?thesis by (auto intro: act_refines)
    next
      case (finish others)
      with 2(1) ok show ?thesis by (auto simp: refines_def)
    qed
  next
    case (call a)
    with 2(1) ok client_holds_nothing [OF call(3)] client_matched [OF call(3)] show ?thesis
      by (simp add: refines_def)
  next
    case (outside x')
    with 2(1) ok show ?thesis by (simp add: refines_def)
  qed
qed

lemma reachable_refines:
  assumes "reachable env (initial_system capacity workers x) s"
  shows "refines s"
  by (rule traces.run_inv [OF reachable_run [OF assms] traces.start_inv]) blast

end
