(* ===== verification/Channels.thy ===== *)
theory Channels
  imports Progress
begin

text \<open>
  Lifecycle and notifications of the interleaved system: termination is stable and the observed
  lifecycle only moves forward; every step that releases capacity or changes the lifecycle leaves a
  publication for its thread to make; and the termination channel says \<open>true\<close> exactly when the
  service is drained, once the publications still owed are made (\<open>chan_ok\<close>). The hypothesis
  \<open>private_channels\<close> is Rust's privacy of the two senders: job methods do not change their values.
\<close>

section \<open>Termination is stable\<close>

definition settled :: "'job rayon_executor_service_inner \<Rightarrow> bool" where
  "settled i \<longleftrightarrow>
     lifecycle i \<noteq> Running \<and> queue i = [] \<and> running_tasks i = {} \<and> cancelling i = {}"

lemma drained_settled: "inner_ok i \<Longrightarrow> drained i \<longleftrightarrow> settled i"
  by (simp add: drained_iff settled_def)

lemma drained_frame [simp]:
  "drained (i\<lparr>next_task_id := n\<rparr>) = drained i" "drained (i\<lparr>scheduled := m\<rparr>) = drained i"
  by (simp_all add: drained_def occupied_def)

lemma perform_settled:
  assumes e: "perform env a i x = Some e" and st: "settled i"
  shows "settled (eff_inner e)"
  using e
proof (cases rule: perform_effects)
  case quiet
  with st show ?thesis
    by (simp add: quiet_effectD)
qed (use st in \<open>auto simp: settled_def\<close>)

lemma step_settled: "system_step env s w s' \<Longrightarrow> settled (sys_inner s) \<Longrightarrow> settled (sys_inner s')"
  by (auto elim!: system_step.cases internal_step.cases intro: perform_settled
      simp: apply_effect_def)

lemma step_observed_lifecycle:
  assumes ok: "sys_ok s" and step: "system_step env s w s'"
    and raw: "lifecycle (sys_inner s) \<noteq> Terminated"
  shows "observed_lifecycle (sys_inner s) \<le> observed_lifecycle (sys_inner s')"
proof -
  have "inner_ok (sys_inner s)" and "inner_ok (sys_inner s')"
    using ok svc.step_inv [OF ok step] by (simp_all add: sys_ok_def)
  with step_settled [OF step] have "drained (sys_inner s) \<Longrightarrow> drained (sys_inner s')"
    by (simp add: drained_settled)
  with step_frame [OF step] raw show ?thesis
    by (auto simp: observed_lifecycle_eq)
qed

section \<open>Admission is closed for good\<close>

lemma perform_no_accept:
  assumes e: "perform env a i x = Some e" and closed: "lifecycle i \<noteq> Running"
  shows "accepted (eff_events e) = {#}"
  using e
proof (cases rule: perform_effects)
  case (admitted job n)
  with closed show ?thesis by simp
next
  case quiet
  then show ?thesis
    by (simp add: quiet_effectD)
qed auto

lemma step_no_accept:
  assumes step: "system_step env s w s'" and ok: "sys_ok s"
    and closed: "lifecycle (sys_inner s) \<noteq> Running"
  shows "accepted (history s') = accepted (history s)"
proof -
  have "inner_ok (sys_inner s)"
    using ok by (simp add: sys_ok_def)
  with step closed show ?thesis
    by (auto elim!: system_step.cases internal_step.cases simp: apply_effect_def perform_no_accept)
qed

text \<open>
  Both over a run: what clients see of the lifecycle grows, and once it has left \<open>Running\<close> no task is
  accepted any more.
\<close>

definition seen_order ::
  "executor_service_lifecycle \<times> bool \<times> usize multiset \<Rightarrow>
     executor_service_lifecycle \<times> bool \<times> usize multiset \<Rightarrow> bool" where
  "seen_order = (\<lambda>(l, closed, tasks) (l', closed', tasks').
     l \<le> l' \<and> (closed \<longrightarrow> closed' \<and> tasks' = tasks))"

lemma seen_order_refl: "seen_order a a"
  by (auto simp: seen_order_def)

lemma seen_order_trans: "seen_order a b \<Longrightarrow> seen_order b c \<Longrightarrow> seen_order a c"
  by (auto simp: seen_order_def intro: order_trans)

interpretation observed: simulation_system
  "\<lambda>s. \<exists>capacity workers x. s = initial_system capacity workers x" "system_step env"
  "\<lambda>s. sys_ok s \<and> lifecycle (sys_inner s) \<noteq> Terminated"
  "\<lambda>s. (observed_lifecycle (sys_inner s), is_not_running (sys_inner s), accepted (history s))"
  seen_order
  for env
proof (unfold_locales, goal_cases)
  case (1 s)
  then show ?case
    by (auto simp: sys_ok_initial) (simp add: initial_system_def new_state_def)
next
  case (2 s w s')
  with step_frame [OF 2(2)] svc.step_inv [of s env w s'] show ?case
    by simp
next
  case (3 s w s')
  have "is_not_running (sys_inner s) \<Longrightarrow>
      is_not_running (sys_inner s') \<and> accepted (history s') = accepted (history s)"
    using step_frame [OF 3(2)] step_no_accept [OF 3(2)] 3(1) by (auto simp: is_not_running_def)
  with step_observed_lifecycle [OF _ 3(2)] 3(1) show ?case
    by (intro r_into_rtranclp) (simp add: seen_order_def)
qed

lemma run_observed:
  assumes "reachable env (initial_system capacity workers x) s" and "reachable env s s'"
  shows "observed_lifecycle (sys_inner s) \<le> observed_lifecycle (sys_inner s')"
    and "is_not_running (sys_inner s) \<Longrightarrow>
      is_not_running (sys_inner s') \<and> accepted (history s') = accepted (history s)"
proof -
  have "sys_ok s \<and> lifecycle (sys_inner s) \<noteq> Terminated"
    using reachable_ok [OF assms(1)] reachable_config(3) [OF assms(1)] by simp
  note seen = observed.run_seen [OF reachable_run [OF assms(2)] this]
  have "seen_order
      (observed_lifecycle (sys_inner s), is_not_running (sys_inner s), accepted (history s))
      (observed_lifecycle (sys_inner s'), is_not_running (sys_inner s'), accepted (history s'))"
    by (rule run_preorder [OF conjunct2 [OF seen] seen_order_refl seen_order_trans])
  then show "observed_lifecycle (sys_inner s) \<le> observed_lifecycle (sys_inner s')"
    and "is_not_running (sys_inner s) \<Longrightarrow>
      is_not_running (sys_inner s') \<and> accepted (history s') = accepted (history s)"
    by (simp_all add: seen_order_def)
qed

section \<open>The termination channel agrees with the service\<close>

text \<open>Code that leaves the values of both channels alone.\<close>

definition leaves_channels :: "'x watch_api \<Rightarrow> ('x, 'a) exec \<Rightarrow> bool" where
  "leaves_channels w m \<longleftrightarrow>
     exec_keeps (termination_value w) m \<and> exec_keeps (capacity_value w) m"

definition private_channels :: "('job, 'x) environment \<Rightarrow> 'x watch_api \<Rightarrow> bool" where
  "private_channels env w \<longleftrightarrow>
     env_watch env = Some w \<and> watch_laws w \<and>
     (\<forall>job. leaves_channels w (job_accept (env_jobs env) job) \<and>
       leaves_channels w (job_run (env_jobs env) job) \<and>
       leaves_channels w (job_cancel (env_jobs env) job) \<and>
       leaves_channels w (job_drop (env_jobs env) job)) \<and>
     (\<forall>n. leaves_channels w (env_tracked_cancel env n))"

lemma private_channelsD:
  assumes "private_channels env w"
  shows "env_watch env = Some w" and "watch_laws w"
    and "exec_keeps (termination_value w) (job_accept (env_jobs env) job)"
    and "exec_keeps (termination_value w) (job_run (env_jobs env) job)"
    and "exec_keeps (termination_value w) (job_cancel (env_jobs env) job)"
    and "exec_keeps (termination_value w) (job_drop (env_jobs env) job)"
    and "exec_keeps (termination_value w) (env_tracked_cancel env n)"
    and "exec_keeps (capacity_value w) (job_accept (env_jobs env) job)"
    and "exec_keeps (capacity_value w) (job_run (env_jobs env) job)"
    and "exec_keeps (capacity_value w) (job_cancel (env_jobs env) job)"
    and "exec_keeps (capacity_value w) (job_drop (env_jobs env) job)"
    and "exec_keeps (capacity_value w) (env_tracked_cancel env n)"
  using assms by (simp_all add: private_channels_def leaves_channels_def)

definition owes_termination :: "'job action list multiset \<Rightarrow> bool" where
  "owes_termination T \<longleftrightarrow> (\<exists>k \<in># T. \<exists>c. Publish c True \<in> set k)"

definition chan_ok :: "'x watch_api \<Rightarrow> ('job, 'x) system \<Rightarrow> bool" where
  "chan_ok w s \<longleftrightarrow>
     (termination_value w (sys_ext s) \<longrightarrow> drained (sys_inner s)) \<and>
     (owes_termination (threads s) \<longrightarrow> drained (sys_inner s)) \<and>
     (drained (sys_inner s) \<longrightarrow>
       termination_value w (sys_ext s) \<or> owes_termination (threads s))"

lemma owes_termination_simps [simp]:
  "\<not> owes_termination {#}"
  "owes_termination (add_mset k T) \<longleftrightarrow> (\<exists>c. Publish c True \<in> set k) \<or> owes_termination T"
  "\<not> owes_termination (replicate_mset n [TakeNext])"
  "owes_termination (T + U) \<longleftrightarrow> owes_termination T \<or> owes_termination U"
  by (auto simp: owes_termination_def)

lemma exec_keepsD: "exec_keeps obs m \<Longrightarrow> m s = (r, s') \<Longrightarrow> obs s' = obs s"
  unfolding exec_keeps_def by (metis snd_conv)

lemmas locked_actions =
  perform_dispatch_def perform_take_next_def perform_finish_running_def perform_claim_cancel_def
  perform_endpoint_cancel_def perform_check_running_def perform_subscribe_termination_def
  perform_finish_cancelling_def perform_shutdown_def perform_stop_def

text \<open>Only a publication changes what no job method changes.\<close>

lemma perform_keeps:
  assumes e: "perform env a i x = Some e" and "\<nexists>c t. a = Publish c t"
    and accept: "\<And>job. exec_keeps obs (job_accept (env_jobs env) job)"
    and run: "\<And>job. exec_keeps obs (job_run (env_jobs env) job)"
    and cancel: "\<And>job. exec_keeps obs (job_cancel (env_jobs env) job)"
    and drop: "\<And>job. exec_keeps obs (job_drop (env_jobs env) job)"
    and tracked: "\<And>n. exec_keeps obs (env_tracked_cancel env n)"
  shows "obs (eff_ext e) = obs x"
proof (cases a)
  case (Admit job)
  obtain r i' x' where adm: "admit (job_accept (env_jobs env)) job i x = (r, i', x')"
    by (metis prod_cases3)
  have "obs x' = obs x"
    using adm exec_keepsD [OF accept] by (cases rule: admit_cases) (auto simp: prod_eq_iff)
  with Admit e adm show ?thesis
    by (auto split: outcome.splits sum.splits)
next
  case (DropRejected u job)
  with e show ?thesis
    by (auto simp: perform_drop_def dest: exec_keepsD [OF drop]
        split: prod.splits outcome.splits if_splits)
next
  case (RunJob task_id job)
  with e contain_keeps [OF run] show ?thesis
    by (auto simp: run_contained_Some)
next
  case (CancelJob task_id job)
  with e contain_keeps [OF cancel] show ?thesis
    by (auto simp: run_contained_Some)
next
  case (TrackedCancel n)
  with e show ?thesis
    by (auto simp: perform_tracked_cancel_def dest: exec_keepsD [OF tracked]
        split: prod.splits outcome.splits)
next
  case (Publish c t)
  with assms(2) show ?thesis by simp
qed (use e in \<open>auto simp: locked_actions split: prod.splits option.splits if_splits
    cancel_disposition.splits\<close>)

lemma perform_publish_values:
  assumes "perform env (Publish c t) i x = Some e" and priv: "private_channels env w"
  shows "termination_value w (eff_ext e) \<longleftrightarrow> t \<or> termination_value w x"
    and "capacity_value w (eff_ext e) = (if c then capacity_value w x + 1 else capacity_value w x)"
proof -
  obtain r x' where n: "notify_async_changes (env_watch env) c t x = (r, x')"
    by fastforce
  have "eff_ext e = x'"
    using assms(1) n by (auto simp: perform_publish_def split: outcome.splits)
  with notify_async_changes_effect [of w c t x r x'] n private_channelsD(1,2) [OF priv]
  show "termination_value w (eff_ext e) \<longleftrightarrow> t \<or> termination_value w x"
    and "capacity_value w (eff_ext e) = (if c then capacity_value w x + 1 else capacity_value w x)"
    by simp_all
qed

lemma perform_termination_value:
  assumes e: "perform env a i x = Some e" and priv: "private_channels env w"
  shows "termination_value w (eff_ext e) \<longleftrightarrow>
    termination_value w x \<or> (\<exists>c. a = Publish c True)"
proof (cases "\<exists>c t. a = Publish c t")
  case True
  with e perform_publish_values(1) [OF _ priv] show ?thesis
    by fastforce
next
  case False
  with perform_keeps [OF e False private_channelsD(3-7) [OF priv]] show ?thesis
    by blast
qed

lemma publish_in_cancel_actions [simp]: "Publish c t \<notin> set (cancel_actions q)"
  by (auto simp: cancel_actions_def)

text \<open>A record that shows a task running or being cancelled is not drained.\<close>

lemma not_drained:
  "inner_ok i \<Longrightarrow> running_tasks i \<noteq> {} \<or> cancelling i \<noteq> {} \<Longrightarrow> \<not> drained i"
  by (auto simp: drained_iff)

lemma perform_owes:
  assumes e: "perform env a i x = Some e" and ok': "inner_ok (eff_inner e)"
  shows "(\<exists>c. Publish c True \<in> set (eff_next e)) \<Longrightarrow> drained (eff_inner e)"
    and "drained (eff_inner e) \<Longrightarrow> drained i \<or> (\<exists>c. Publish c True \<in> set (eff_next e))"
proof -
  have "((\<exists>c. Publish c True \<in> set (eff_next e)) \<longrightarrow> drained (eff_inner e)) \<and>
    (drained (eff_inner e) \<longrightarrow> drained i \<or> (\<exists>c. Publish c True \<in> set (eff_next e)))"
    using e
  proof (cases rule: perform_effects)
    case (admitted job n)
    then have "\<not> drained (eff_inner e)"
      by (simp add: drained_def)
    with admitted show ?thesis by simp
  next
    case (taken n job q)
    with not_drained [OF ok'] show ?thesis by simp
  next
    case (claimed n job)
    with not_drained [OF ok'] show ?thesis by simp
  next
    case quiet
    then show ?thesis
      using quiet_effectD(1) [OF quiet(2)] quiet_effectD(11) [OF quiet(2), of _ True] by auto
  qed auto
  then show "(\<exists>c. Publish c True \<in> set (eff_next e)) \<Longrightarrow> drained (eff_inner e)"
    and "drained (eff_inner e) \<Longrightarrow> drained i \<or> (\<exists>c. Publish c True \<in> set (eff_next e))"
    by blast+
qed

lemma step_drained:
  assumes "sys_ok s" and "system_step env s w s'" and "drained (sys_inner s)"
  shows "drained (sys_inner s')"
proof -
  have "inner_ok (sys_inner s)" and "inner_ok (sys_inner s')"
    using assms(1) svc.step_inv [OF assms(1,2)] by (simp_all add: sys_ok_def)
  with step_settled [OF assms(2)] assms(3) show ?thesis
    by (simp add: drained_settled)
qed

lemma act_chan_ok:
  assumes priv: "private_channels env w" and ok: "sys_ok s" and chan: "chan_ok w s"
    and T: "threads s = add_mset (a # rest) others"
    and e: "perform env a (sys_inner s) (sys_ext s) = Some e"
  shows "chan_ok w (apply_effect e rest others (history s))"
proof -
  let ?s' = "apply_effect e rest others (history s)"
  have step: "system_step env s (eff_wake e) ?s'"
    by (rule system_step.internal [OF internal_step.act [OF T e]])
  have "inner_ok (eff_inner e)"
    using act_sys_ok [OF ok T e] by (simp add: sys_ok_def apply_effect_def)
  note owes = perform_owes [OF e this]
  have stable: "drained (sys_inner s) \<Longrightarrow> drained (eff_inner e)"
    using step_drained [OF ok step] by (simp add: apply_effect_def)
  show ?thesis
    using chan owes stable perform_termination_value [OF e priv]
    by (auto simp: chan_ok_def T apply_effect_def)
qed

text \<open>The channel invariant, for an environment whose channels are private.\<close>

interpretation chan: invariant_system
  "\<lambda>s. private_channels env w \<and> \<not> termination_value w (sys_ext s) \<and>
     (\<exists>capacity workers x. s = initial_system capacity workers x)"
  "system_step env" "\<lambda>s. private_channels env w \<and> sys_ok s \<and> chan_ok w s"
  for env w
proof (unfold_locales, goal_cases)
  case (1 s)
  then show ?case
    by (auto simp: sys_ok_initial chan_ok_def)
      (simp add: initial_system_def new_state_def drained_def)+
next
  case (2 s l s')
  then have ok: "sys_ok s'"
    by (auto intro: svc.step_inv)
  from 2(2) have "chan_ok w s'"
  proof (cases rule: system_step.cases)
    case internal
    then show ?thesis
      using 2(1)
      by (cases rule: internal_step.cases) (auto simp: act_chan_ok, auto simp: chan_ok_def)
  next
    case (call a)
    from call(3) have "\<forall>c t. Publish c t \<noteq> a"
      by auto
    with call 2(1) show ?thesis
      by (auto simp: chan_ok_def)
  next
    case (outside x')
    with 2(1) show ?thesis
      by (auto simp: chan_ok_def private_channels_def same_channels_def)
  qed
  with 2(1) ok show ?case by simp
qed

lemma reachable_chan_ok:
  assumes priv: "private_channels env w" and init: "\<not> termination_value w x"
    and reach: "reachable env (initial_system capacity workers x) s"
  shows "chan_ok w s"
proof -
  let ?s0 = "initial_system capacity workers x"
  have "\<not> termination_value w (sys_ext ?s0)"
    using init by (simp add: initial_system_def)
  then have "private_channels env w \<and> \<not> termination_value w (sys_ext ?s0) \<and>
      (\<exists>capacity workers x. ?s0 = initial_system capacity workers x)"
    using priv by blast
  from chan.run_inv [OF reachable_run [OF reach] chan.start_inv [OF this]] show ?thesis
    by simp
qed

end
