(* ===== verification/Phases.thy ===== *)
theory Phases
  imports Channels
begin

text \<open>
  The life of one task. \<open>task_phase\<close> abstracts the locked record to the phase of a single
  identifier, \<open>phase_step\<close> is the automaton a task promises to follow (accepted, then claimed
  either by a worker or by one cancellation, then finished), and the lemmas show that the
  interleaved system simulates it: every step of any thread is a stutter or one transition of the
  automaton, for every task. The cancellation endpoint of a handle rests on it: between its two
  critical sections other threads may run, and its fallback is reached only for a finished task.
\<close>

datatype phase = Fresh | Queued | Active | Cancelling | Finished

text \<open>The second transition is an \<open>accept\<close> that panics: the identifier is consumed without a task.\<close>

inductive phase_step :: "phase \<Rightarrow> phase \<Rightarrow> bool" where
  admitted: "phase_step Fresh Queued"
| burned: "phase_step Fresh Finished"
| taken: "phase_step Queued Active"
| claimed: "phase_step Queued Cancelling"
| executed: "phase_step Active Finished"
| cancelled: "phase_step Cancelling Finished"

code_pred phase_step .

inductive_simps phase_step_simps [simp]:
  "phase_step Fresh p" "phase_step Queued p" "phase_step Active p" "phase_step Cancelling p"
  "phase_step Finished p"

definition task_phase :: "'job rayon_executor_service_inner \<Rightarrow> usize \<Rightarrow> phase" where
  "task_phase i n =
     (if n \<in> btree_keys (queue i) then Queued
      else if n \<in> running_tasks i then Active
      else if n \<in> cancelling i then Cancelling
      else if n < next_task_id i then Finished
      else Fresh)"

fun phase_rank :: "phase \<Rightarrow> nat" where
  "phase_rank Fresh = 0"
| "phase_rank Queued = 1"
| "phase_rank Active = 2"
| "phase_rank Cancelling = 2"
| "phase_rank Finished = 3"

lemma phase_step_rank: "phase_step p q \<Longrightarrow> phase_rank p < phase_rank q"
  by (cases rule: phase_step.cases) auto

lemma phase_steps_rank: "phase_step\<^sup>*\<^sup>* p q \<Longrightarrow> phase_rank p \<le> phase_rank q"
  by (induction rule: rtranclp_induct) (auto dest: phase_step_rank)

lemma phase_steps_claimed:
  "phase_step\<^sup>*\<^sup>* p q \<Longrightarrow> p = Active \<or> p = Cancelling \<or> p = Finished \<Longrightarrow> q = p \<or> q = Finished"
  by (induction rule: rtranclp_induct) auto

section \<open>Every step is a transition of the automaton\<close>

lemma task_phase_frame [simp]:
  "task_phase (i\<lparr>lifecycle := l\<rparr>) n = task_phase i n"
  "task_phase (i\<lparr>scheduled := k\<rparr>) n = task_phase i n"
  "task_phase (i\<lparr>running := k\<rparr>) n = task_phase i n"
  by (simp_all add: task_phase_def)

lemma perform_phase:
  assumes e: "perform env a i x = Some e" and ok: "inner_ok i"
  shows "task_phase (eff_inner e) n = task_phase i n \<or>
    phase_step (task_phase i n) (task_phase (eff_inner e) n)"
proof -
  note tasks = inner_okD(6) [OF ok, unfolded tasks_ok_def]
  from e show ?thesis
  proof (cases rule: perform_effects)
    case (refused job u)
    then show ?thesis by (auto simp: task_phase_def less_next_id)
  next
    case (admitted job k)
    with fresh_id [OF ok] show ?thesis by (auto simp: task_phase_def less_next_id)
  next
    case (taken m job q)
    with tasks show ?thesis by (auto simp: task_phase_def btree_ok_Cons)
  next
    case (finished m i')
    with tasks show ?thesis by (auto simp: task_phase_def)
  next
    case (claimed m job)
    with tasks map_of_btree_Some [OF claimed(2)] show ?thesis
      by (auto simp: task_phase_def btree_keys_filter)
  next
    case (released m i')
    with tasks show ?thesis by (auto simp: task_phase_def)
  next
    case (stopped i')
    with tasks show ?thesis by (auto simp: task_phase_def)
  next
    case quiet
    then show ?thesis by (simp add: quiet_effectD)
  qed simp_all
qed

lemma step_phase:
  assumes "sys_ok s" and "system_step env s w s'"
  shows "task_phase (sys_inner s') n = task_phase (sys_inner s) n \<or>
    phase_step (task_phase (sys_inner s) n) (task_phase (sys_inner s') n)"
proof -
  have ok: "inner_ok (sys_inner s)"
    using assms(1) by (simp add: sys_ok_def)
  from assms(2) show ?thesis
  proof (cases rule: system_step.cases)
    case internal
    then show ?thesis
      by (cases rule: internal_step.cases) (auto simp: apply_effect_def dest!: perform_phase [OF _ ok])
  qed auto
qed

interpretation phases: simulation_system
  "\<lambda>s. \<exists>capacity workers x. s = initial_system capacity workers x" "system_step env" sys_ok
  "\<lambda>s. task_phase (sys_inner s) n" phase_step
  for env n
proof (unfold_locales, goal_cases)
  case (1 s w s')
  from step_phase [OF this, of n] show ?case
    by auto
qed

lemma run_phases:
  "reachable env s s' \<Longrightarrow> sys_ok s \<Longrightarrow>
     sys_ok s' \<and> phase_step\<^sup>*\<^sup>* (task_phase (sys_inner s) n) (task_phase (sys_inner s') n)"
  by (rule phases.run_seen [OF reachable_run])

section \<open>What the dispositions of a claim say\<close>

lemma map_of_btree_keys: "map_of q n = None \<longleftrightarrow> n \<notin> btree_keys q"
  by (simp add: btree_keys_def map_of_eq_None_iff)

lemma absent_phase:
  assumes "inner_ok i"
  shows "fst (cancel_pending_task n i) = Absent \<longleftrightarrow>
    task_phase i n = Active \<or> task_phase i n = Finished \<or> task_phase i n = Fresh"
  using inner_okD(6) [OF assms]
  by (auto simp: cancel_pending_task_def btree_remove_def task_phase_def tasks_ok_def
      map_of_btree_keys dest: map_of_btree_Some split: option.splits)

lemma fresh_phase: "inner_ok i \<Longrightarrow> task_phase i n = Fresh \<longleftrightarrow> \<not> n < next_task_id i"
  by (auto simp: task_phase_def inner_ok_defs)

end
