(* ===== verification/Endpoint.thy ===== *)
theory Endpoint
  imports Executor_Spec Phases
begin

text \<open>
  The race of the detached cancellation endpoint (\<open>cancellation_handle\<close> in
  \<open>src/rayon_task_handle.rs\<close>). The endpoint finds its task absent from the queue in one critical
  section, looks at the running tasks in a second one, and only then asks the tracked task to
  cancel. \<open>endpoint_ok\<close> is what each of the three actions may rely on; it is stable under the
  steps of all other threads because the phase of a task only moves forward, so that the tracked
  task is asked only when the service is done with it.
\<close>

fun endpoint_ok :: "'job rayon_executor_service_inner \<Rightarrow> 'job action \<Rightarrow> bool" where
  "endpoint_ok i (EndpointCancel n) = (task_phase i n \<noteq> Fresh)"
| "endpoint_ok i (CheckRunning n) = (task_phase i n = Active \<or> task_phase i n = Finished)"
| "endpoint_ok i (TrackedCancel n) = (task_phase i n = Finished)"
| "endpoint_ok i _ = True"

definition endpoints_ok :: "'job rayon_executor_service_inner \<Rightarrow> 'job action list multiset \<Rightarrow> bool" where
  "endpoints_ok i T \<longleftrightarrow> (\<forall>k \<in># T. list_all (endpoint_ok i) k)"

lemma endpoints_ok_simps [simp]:
  "endpoints_ok i {#}"
  "endpoints_ok i (add_mset k T) \<longleftrightarrow> list_all (endpoint_ok i) k \<and> endpoints_ok i T"
  "endpoints_ok i (T + U) \<longleftrightarrow> endpoints_ok i T \<and> endpoints_ok i U"
  "endpoints_ok i (replicate_mset m [TakeNext])"
  by (auto simp: endpoints_ok_def)

definition phases_advance ::
  "'job rayon_executor_service_inner \<Rightarrow> 'job rayon_executor_service_inner \<Rightarrow> bool" where
  "phases_advance i i' \<longleftrightarrow>
     (\<forall>n. task_phase i' n = task_phase i n \<or> phase_step (task_phase i n) (task_phase i' n))"

lemma endpoint_ok_stable:
  assumes adv: "phases_advance i i'" and ok: "endpoint_ok i a"
  shows "endpoint_ok i' a"
proof -
  have "task_phase i' n = task_phase i n \<or> phase_step (task_phase i n) (task_phase i' n)" for n
    using adv by (simp add: phases_advance_def)
  note adv = this
  show ?thesis
  proof (cases a)
    case (EndpointCancel n)
    with ok adv [of n] show ?thesis by (auto elim: phase_step.cases)
  next
    case (CheckRunning n)
    with ok adv [of n] show ?thesis by auto
  next
    case (TrackedCancel n)
    with ok adv [of n] show ?thesis by auto
  qed simp_all
qed

lemma endpoints_ok_stable: "phases_advance i i' \<Longrightarrow> endpoints_ok i T \<Longrightarrow> endpoints_ok i' T"
  by (auto simp: endpoints_ok_def list_all_iff intro: endpoint_ok_stable)

text \<open>The actions that no other action continues with.\<close>

fun endpoint_action :: "'job action \<Rightarrow> bool" where
  "endpoint_action (EndpointCancel n) = True"
| "endpoint_action (CheckRunning n) = True"
| "endpoint_action (TrackedCancel n) = True"
| "endpoint_action _ = False"

lemma endpoint_ok_trivial: "\<not> endpoint_action a \<Longrightarrow> endpoint_ok i a"
  by (cases a) auto

lemma publish_actions_plain [simp]: "list_all (endpoint_ok i) (publish_actions sg)"
  by (auto simp: publish_actions_def split: option.split)

lemma cancel_actions_plain [simp]: "list_all (endpoint_ok i) (cancel_actions owned)"
  by (induction owned) (auto simp: cancel_actions_def)

lemma perform_endpoint_ok:
  assumes e: "perform env a i x = Some e" and ok: "inner_ok i" and a: "endpoint_ok i a"
  shows "list_all (endpoint_ok (eff_inner e)) (eff_next e)"
proof (cases "endpoint_action a")
  case True
  then show ?thesis
  proof (cases a)
    case (EndpointCancel n)
    with endpoint_cancel_cases [of n i x] consider "e = perform_claim_cancel n i x"
      | "e = effect_of [CheckRunning n] [] i x" "fst (cancel_pending_task n i) = Absent"
      using e by auto
    then show ?thesis
    proof cases
      case 1
      then show ?thesis
        by (auto simp: perform_claim_cancel_def split: prod.split cancel_disposition.split)
    next
      case 2
      with a EndpointCancel absent_phase [OF ok, of n] show ?thesis by auto
    qed
  next
    case (CheckRunning n)
    with a e show ?thesis
      by (auto simp: perform_check_running_def is_running_task_def task_phase_def split: if_splits)
  next
    case (TrackedCancel n)
    with e show ?thesis
      by (auto simp: perform_tracked_cancel_def split: prod.splits outcome.splits)
  qed simp_all
next
  case False
  with e show ?thesis
    by (cases a) (auto simp: run_contained_Some perform_drop_def perform_dispatch_def
        perform_publish_def perform_subscribe_termination_def perform_take_next_def
        perform_finish_running_def perform_claim_cancel_def perform_finish_cancelling_def
        perform_shutdown_def perform_stop_def
        split: prod.splits option.splits outcome.splits sum.splits if_splits
          cancel_disposition.splits)
qed

lemma perform_advances:
  "perform env a i x = Some e \<Longrightarrow> inner_ok i \<Longrightarrow> phases_advance i (eff_inner e)"
  unfolding phases_advance_def by (intro allI perform_phase)

lemma client_endpoint_ok:
  "client_action a \<Longrightarrow> handle_exists i a \<Longrightarrow> inner_ok i \<Longrightarrow> endpoint_ok i a"
  by (cases a) (auto simp: fresh_phase)

interpretation endpoints: invariant_system
  "\<lambda>s. \<exists>capacity workers x. s = initial_system capacity workers x" "system_step env"
  "\<lambda>s. sys_ok s \<and> endpoints_ok (sys_inner s) (threads s)"
  for env
proof (unfold_locales, goal_cases)
  case (1 s)
  then show ?case
    by (auto simp: sys_ok_initial) (simp add: initial_system_def)
next
  case (2 s w s')
  then have ok: "sys_ok s'" and inner: "inner_ok (sys_inner s)"
    using svc.step_inv by (auto simp: sys_ok_def)
  from 2(2) show ?case
  proof (cases rule: system_step.cases)
    case internal
    then show ?thesis
    proof (cases rule: internal_step.cases)
      case (act a rest others e)
      note adv = perform_advances [OF act(4) inner]
      from 2(1) act(3) have "endpoint_ok (sys_inner s) a"
        and "endpoints_ok (sys_inner s) (add_mset rest others)"
        by simp_all
      with perform_endpoint_ok [OF act(4) inner] endpoints_ok_stable [OF adv, of "add_mset rest others"]
      show ?thesis
        using ok by (simp add: act(2) apply_effect_def)
    next
      case (finish others)
      with 2(1) ok show ?thesis by simp
    qed
  next
    case (call a)
    with 2(1) ok inner show ?thesis by (simp add: client_endpoint_ok)
  next
    case (outside x')
    with 2(1) ok show ?thesis by simp
  qed
qed

lemma reachable_endpoints_ok:
  assumes "reachable env (initial_system capacity workers x) s"
  shows "endpoints_ok (sys_inner s) (threads s)"
  using endpoints.run_inv [OF reachable_run [OF assms] endpoints.start_inv] by blast

text \<open>A finished task owns no code: it was run or cancelled if it was ever accepted.\<close>

lemma finished_has_ended:
  assumes ref: "refines s" and fin: "task_phase (sys_inner s) n = Finished"
  shows "count (ended (history s)) n = count (accepted (history s)) n"
proof -
  let ?i = "sys_inner s"
  have out: "n \<notin> btree_keys (queue ?i)" "n \<notin> running_tasks ?i" "n \<notin> cancelling ?i"
    using fin by (auto simp: task_phase_def split: if_splits)
  have ok: "sys_ok s" and "all_matched (threads s)"
    using ref by (simp_all add: refines_def)
  then have "total owned_ids (threads s) \<subseteq># mset_set (running_tasks ?i) + mset_set (cancelling ?i)"
    and led: "ledger ?i (threads s) (history s)"
    using all_matched_owned [of "threads s"] by (simp_all add: sys_ok_def balanced_def)
  then have "count (total owned_ids (threads s)) n = 0"
    using out mset_subset_eqD [of "total owned_ids (threads s)"] elem_mset_set
    by (metis count_inI infinite_set_mset_mset_set empty_iff union_iff)
  moreover have "count (mset (map fst (queue ?i))) n = 0"
    using out(1) by (simp add: btree_keys_def count_eq_zero_iff)
  moreover have "count (mset (map fst (queue ?i)) + total owned_ids (threads s) + ended (history s)) n =
      count (accepted (history s)) n"
    using led unfolding ledger_def by presburger
  ultimately show ?thesis
    by simp
qed

end
