(* ===== verification/Task_Histories.thy ===== *)
theory Task_Histories
  imports Executor_Spec
begin

text \<open>
  The history of one task. \<open>task_events n\<close> keeps the events of task \<open>n\<close>; in every run of the abstract
  executor they are a beginning of one of two lives: accepted, started by a worker, executed and
  released, or accepted, claimed by a cancellation, cancelled and released. \<open>life_so_far\<close> says how far
  the life has got, from the state of the automaton alone. With the simulation of
  \<^theory_text>\<open>Executor_Spec\<close> the same holds of every interleaving of the service.
\<close>

fun event_task :: "event \<Rightarrow> usize option" where
  "event_task (Accepted n) = Some n"
| "event_task (Started n) = Some n"
| "event_task (Executed n) = Some n"
| "event_task (Claimed n) = Some n"
| "event_task (CancelRan n) = Some n"
| "event_task (Released n) = Some n"
| "event_task Closed = None"

definition task_events :: "usize \<Rightarrow> event list \<Rightarrow> event list" where
  "task_events n h = filter (\<lambda>e. event_task e = Some n) h"

definition run_life :: "usize \<Rightarrow> event list" where
  "run_life n = [Accepted n, Started n, Executed n, Released n]"

definition cancel_life :: "usize \<Rightarrow> event list" where
  "cancel_life n = [Accepted n, Claimed n, CancelRan n, Released n]"

definition life_so_far :: "spec_state \<Rightarrow> usize \<Rightarrow> event list \<Rightarrow> bool" where
  "life_so_far sp n es \<longleftrightarrow>
     (if n \<notin> set (spec_issued sp) then es = []
      else if n \<in> set (spec_waiting sp) then es = take 1 (run_life n)
      else if n \<in> spec_active sp
      then es = take (if n \<in> spec_pending sp then 2 else 3) (run_life n)
      else if n \<in> spec_claimed sp
      then es = take (if n \<in> spec_pending sp then 2 else 3) (cancel_life n)
      else es = run_life n \<or> es = cancel_life n)"

lemma life_so_far_initial: "life_so_far spec_initial n []"
  by (simp add: life_so_far_def spec_initial_def)

lemma life_so_far_other:
  assumes "spec_step capacity workers e sp = Some sp'" and "event_task e \<noteq> Some n"
  shows "life_so_far sp' n es = life_so_far sp n es"
proof -
  have "(n \<in> set (spec_issued sp') \<longleftrightarrow> n \<in> set (spec_issued sp)) \<and>
    (n \<in> set (spec_waiting sp') \<longleftrightarrow> n \<in> set (spec_waiting sp)) \<and>
    (n \<in> spec_active sp' \<longleftrightarrow> n \<in> spec_active sp) \<and>
    (n \<in> spec_claimed sp' \<longleftrightarrow> n \<in> spec_claimed sp) \<and>
    (n \<in> spec_pending sp' \<longleftrightarrow> n \<in> spec_pending sp)"
    using assms by (cases e) (auto split: if_splits list.splits)
  then show ?thesis
    by (simp only: life_so_far_def)
qed

lemma life_so_far_step:
  assumes ok: "spec_ok capacity workers sp" and step: "spec_step capacity workers e sp = Some sp'"
    and life: "life_so_far sp n es" and e: "event_task e = Some n"
  shows "life_so_far sp' n (es @ [e])"
proof -
  note defs = life_so_far_def run_life_def cancel_life_def
  note places = ok [unfolded spec_ok_def]
  show ?thesis
  proof (cases e)
    case (Accepted m)
    with e step have "n \<notin> set (spec_issued sp)"
      by (auto simp: list_all_iff split: if_splits)
    with Accepted e step life show ?thesis
      by (auto simp: defs split: if_splits)
  next
    case (Started m)
    with e step obtain waiting where w: "spec_waiting sp = n # waiting"
      by (auto split: list.splits if_splits)
    have "n \<notin> set waiting" "n \<in> set (spec_issued sp)"
      using places w by auto
    with w Started e step life show ?thesis
      by (auto simp: defs split: if_splits)
  next
    case (Executed m)
    then have "n \<in> spec_active sp" "n \<in> spec_pending sp"
      using e step by (auto split: if_splits)
    moreover from this have "n \<notin> set (spec_waiting sp)" "n \<in> set (spec_issued sp)"
      using places by auto
    ultimately show ?thesis
      using Executed e step life by (auto simp: defs)
  next
    case (Claimed m)
    then have "n \<in> set (spec_waiting sp)"
      using e step by (auto split: if_splits)
    moreover from this have "n \<notin> spec_active sp" "n \<in> set (spec_issued sp)"
      using places by auto
    ultimately show ?thesis
      using Claimed e step life by (auto simp: defs)
  next
    case (CancelRan m)
    then have "n \<in> spec_claimed sp" "n \<in> spec_pending sp"
      using e step by (auto split: if_splits)
    moreover from this have "n \<notin> set (spec_waiting sp)" "n \<notin> spec_active sp"
      "n \<in> set (spec_issued sp)"
      using places by auto
    ultimately show ?thesis
      using CancelRan e step life by (auto simp: defs)
  next
    case (Released m)
    then have "n \<in> spec_active sp \<union> spec_claimed sp" "n \<notin> spec_pending sp"
      using e step by (auto split: if_splits)
    moreover from this have "n \<notin> set (spec_waiting sp)" "n \<in> set (spec_issued sp)"
      using places by auto
    ultimately show ?thesis
      using Released e step life by (auto simp: defs split: if_splits)
  qed (use e in simp)
qed

lemma spec_run_life:
  assumes "spec_run capacity workers h sp = Some sp'" and "spec_ok capacity workers sp"
    and "life_so_far sp n es"
  shows "life_so_far sp' n (es @ task_events n h)"
  using assms
proof (induction h arbitrary: sp es)
  case Nil
  then show ?case by (simp add: task_events_def)
next
  case (Cons e h)
  then obtain sp1 where step: "spec_step capacity workers e sp = Some sp1"
    and rest: "spec_run capacity workers h sp1 = Some sp'"
    by (auto split: option.splits)
  have "life_so_far sp1 n (es @ task_events n [e])"
    using life_so_far_step [OF Cons.prems(2) step Cons.prems(3)] life_so_far_other [OF step]
      Cons.prems(3) by (simp add: task_events_def)
  from Cons.IH [OF rest spec_step_ok [OF Cons.prems(2) step] this] show ?case
    by (cases "event_task e = Some n") (simp_all add: task_events_def)
qed

text \<open>How far a life has got is how much of one of the two lives has been seen.\<close>

lemma life_so_far_take:
  assumes "life_so_far sp n es"
  shows "es = take (length es) (run_life n) \<or> es = take (length es) (cancel_life n)"
  using assms by (auto simp: life_so_far_def run_life_def cancel_life_def split: if_splits)

lemma reachable_life:
  assumes "reachable env (initial_system capacity workers x) s"
  obtains sp where "simulates (sys_inner s) (total owned_ids (threads s)) (history s) sp"
    and "spec_ok (unat (task_capacity (sys_inner s))) (unat (num_threads (sys_inner s))) sp"
    and "life_so_far sp n (task_events n (history s))"
proof -
  from reachable_refines [OF assms] obtain sp where
    run: "spec_run (unat (task_capacity (sys_inner s))) (unat (num_threads (sys_inner s)))
      (history s) spec_initial = Some sp"
    and sim: "simulates (sys_inner s) (total owned_ids (threads s)) (history s) sp"
    by (auto simp: refines_def)
  from spec_run_life [OF run spec.start_inv [OF refl] life_so_far_initial] sim spec_run_ok [OF run]
    that show ?thesis
    by simp
qed

lemma life_so_far_places:
  assumes ok: "spec_ok capacity workers sp" and life: "life_so_far sp n es"
  shows "n \<in> set (spec_waiting sp) \<Longrightarrow> es = take 1 (run_life n)"
    and "n \<in> spec_active sp \<Longrightarrow> es = take 2 (run_life n) \<or> es = take 3 (run_life n)"
    and "n \<in> spec_claimed sp \<Longrightarrow> es = take 2 (cancel_life n) \<or> es = take 3 (cancel_life n)"
proof -
  note places = ok [unfolded spec_ok_def]
  show "es = take 1 (run_life n)" if "n \<in> set (spec_waiting sp)"
  proof -
    have "n \<in> set (spec_issued sp)"
      using places that by blast
    with life that show ?thesis by (simp add: life_so_far_def)
  qed
  show "es = take 2 (run_life n) \<or> es = take 3 (run_life n)" if "n \<in> spec_active sp"
  proof -
    have "n \<in> set (spec_issued sp)" "n \<notin> set (spec_waiting sp)"
      using places that by blast+
    with life that show ?thesis by (simp add: life_so_far_def split: if_splits)
  qed
  show "es = take 2 (cancel_life n) \<or> es = take 3 (cancel_life n)" if "n \<in> spec_claimed sp"
  proof -
    have "n \<in> set (spec_issued sp)" "n \<notin> set (spec_waiting sp)" "n \<notin> spec_active sp"
      using places that by blast+
    with life that show ?thesis by (simp add: life_so_far_def split: if_splits)
  qed
qed

end
