(* ===== verification/Bounded_Bypass.thy ===== *)
theory Bounded_Bypass
  imports Phases
begin

text \<open>
  Bounded waiting. Workers take tasks in the order of admission, so what a queued task can still be
  made to wait for is fixed at the moment it is looked at: the tasks ahead of it. New submissions,
  cancellations and the number of workers do not matter.
\<close>

definition ahead_of :: "usize \<Rightarrow> 'job rayon_executor_service_inner \<Rightarrow> nat" where
  "ahead_of n i = length (filter (\<lambda>p. fst p < n) (queue i))"

lemma perform_started:
  assumes e: "perform env a i x = Some e"
  shows "set (started (eff_events e)) \<subseteq> btree_keys (queue i)"
  using e
proof (cases rule: perform_effects)
  case (taken n job q)
  then show ?thesis by simp
next
  case quiet
  then show ?thesis by (simp add: quiet_effectD)
qed auto

lemma step_started:
  assumes "system_step env s w s'"
  obtains new where "started (history s') = started (history s) @ new"
    and "set new \<subseteq> btree_keys (queue (sys_inner s))"
  using assms
proof (cases rule: system_step.cases)
  case internal
  then show ?thesis
  proof (cases rule: internal_step.cases)
    case (act a rest others e)
    with that [of "started (eff_events e)"] perform_started [OF act(4)] show ?thesis
      by (simp add: apply_effect_def)
  qed (use that [of "[]"] in simp)
qed (use that [of "[]"] in simp_all)

text \<open>A task that is queued later was queued already, or not given out yet.\<close>

lemma queued_before:
  assumes "reachable env s s'" and ok: "sys_ok s" and "m \<in> btree_keys (queue (sys_inner s'))"
  shows "m \<in> btree_keys (queue (sys_inner s)) \<or> \<not> m < next_task_id (sys_inner s)"
proof -
  have "task_phase (sys_inner s') m = Queued"
    using assms(3) by (simp add: task_phase_def)
  with run_phases [OF assms(1,2), of m]
  have "phase_rank (task_phase (sys_inner s) m) \<le> phase_rank Queued"
    using phase_steps_rank by metis
  then have "task_phase (sys_inner s) m = Fresh \<or> task_phase (sys_inner s) m = Queued"
    by (cases "task_phase (sys_inner s) m") auto
  then show ?thesis
    by (auto simp: task_phase_def split: if_splits)
qed

lemma run_started:
  assumes "reachable env s s'" and "sys_ok s"
  shows "\<exists>new. started (history s') = started (history s) @ new \<and>
    (\<forall>m \<in> set new. m \<in> btree_keys (queue (sys_inner s)) \<or> \<not> m < next_task_id (sys_inner s))"
  using assms
proof (induction rule: reachable.induct)
  case initial
  then show ?case by simp
next
  case (step s1 w s2)
  then obtain new where new: "started (history s1) = started (history s) @ new"
    "\<forall>m \<in> set new. m \<in> btree_keys (queue (sys_inner s)) \<or> \<not> m < next_task_id (sys_inner s)"
    by blast
  from step_started [OF step.hyps(2)] obtain more where
    "started (history s2) = started (history s1) @ more"
    "set more \<subseteq> btree_keys (queue (sys_inner s1))"
    by blast
  with new queued_before [OF step.hyps(1) step.prems] show ?case
    by (intro exI [of _ "new @ more"]) auto
qed

lemma card_ahead:
  assumes "inner_ok i"
  shows "card {m \<in> btree_keys (queue i). m < n} = ahead_of n i"
proof -
  let ?ids = "map fst (filter (\<lambda>p. fst p < n) (queue i))"
  have "distinct ?ids"
    using btree_ok_distinct [OF inner_okD(1) [OF assms]] by (simp add: distinct_map_filter)
  from distinct_card [OF this] have "card (set ?ids) = ahead_of n i"
    by (simp only: ahead_of_def length_map)
  moreover have "{m \<in> btree_keys (queue i). m < n} = set ?ids"
    by (auto simp: btree_keys_def)
  ultimately show ?thesis
    by (simp only:)
qed

lemma bypass_bounded:
  assumes ok: "sys_ok s" and run: "reachable env s s'"
    and n: "n \<in> btree_keys (queue (sys_inner s))" and n': "n \<in> btree_keys (queue (sys_inner s'))"
  shows "length (started (history s')) \<le> length (started (history s)) + ahead_of n (sys_inner s)"
proof -
  have inner: "inner_ok (sys_inner s)" and fifo: "fifo (sys_inner s') (history s')"
    using ok run_phases [OF run ok] by (simp_all add: sys_ok_def)
  obtain new where new: "started (history s') = started (history s) @ new"
    and m: "\<forall>m \<in> set new. m \<in> btree_keys (queue (sys_inner s)) \<or> \<not> m < next_task_id (sys_inner s)"
    using run_started [OF run ok] by blast
  have "n < next_task_id (sys_inner s)"
    using inner_okD(6) [OF inner] n by (auto simp: tasks_ok_def)
  moreover have "\<forall>m \<in> set new. m < n"
    using fifo n' by (auto simp: fifo_def new)
  ultimately have "set new \<subseteq> {m \<in> btree_keys (queue (sys_inner s)). m < n}"
    using m by fastforce
  then have "card (set new) \<le> ahead_of n (sys_inner s)"
    using card_mono [of "{m \<in> btree_keys (queue (sys_inner s)). m < n}" "set new"] card_ahead [OF inner]
    by (simp add: finite_btree_keys)
  moreover have "distinct new"
    using fifo by (simp add: fifo_def new sorted_wrt_append strict_sorted_iff)
  ultimately show ?thesis
    by (simp add: new distinct_card)
qed

end
