(* ===== verification/Termination_Wait.thy ===== *)
theory Termination_Wait
  imports Channels
begin

text \<open>
  The blocking waits of \<open>src/rayon_executor_service_state.rs\<close>. \<open>wait_for_termination\<close> and
  \<open>wait_for_termination_timeout\<close> are loops over what a waiter sees each time it holds the mutex:
  the locked record, and the time elapsed since the call. \<open>wait_step\<close> then runs any number of
  waiters beside the interleaved system with the condition variable \<open>terminated\<close>: a waiter that
  finds work left blocks (releasing the mutex and enqueueing itself in one step, as
  \<open>Condvar::wait\<close> does), \<open>notify_all\<close> wakes every blocked waiter, and a woken waiter has to check
  again. No wake-up is lost: a blocked waiter implies that the service is not terminated.
\<close>

definition must_wait :: "'job rayon_executor_service_inner \<Rightarrow> bool" where
  "must_wait i \<longleftrightarrow> lifecycle i = Running \<or> occupied i \<noteq> 0"

text \<open>The loop over the records seen at each wake-up; \<open>None\<close> while the caller is still blocked.\<close>

fun wait_for_termination ::
  "'job rayon_executor_service_inner list \<Rightarrow> 'job rayon_executor_service_inner option" where
  "wait_for_termination [] = None"
| "wait_for_termination (i # seen) = (if must_wait i then wait_for_termination seen else Some i)"

text \<open>
  The elapsed time and the timeout are \<open>Duration\<close>s, in nanoseconds: subtraction on naturals is
  \<open>Duration::saturating_sub\<close>.
\<close>

fun wait_for_termination_timeout ::
  "nat \<Rightarrow> ('job rayon_executor_service_inner \<times> nat) list \<Rightarrow> bool option" where
  "wait_for_termination_timeout timeout [] = None"
| "wait_for_termination_timeout timeout ((i, elapsed) # seen) =
     (if must_wait i
      then let remaining = timeout - elapsed
           in if remaining = 0 then Some False else wait_for_termination_timeout timeout seen
      else Some True)"

text \<open>The trait methods.\<close>

definition wait_termination ::
  "'job rayon_executor_service_inner list \<Rightarrow> 'job rayon_executor_service_inner option" where
  "wait_termination seen = wait_for_termination seen"

definition wait_termination_timeout ::
  "nat \<Rightarrow> ('job rayon_executor_service_inner \<times> nat) list \<Rightarrow> bool option" where
  "wait_termination_timeout timeout seen = wait_for_termination_timeout timeout seen"

lemma must_wait_iff: "must_wait i \<longleftrightarrow> \<not> drained i"
  by (auto simp: must_wait_def drained_def)

section \<open>Waiters beside the system\<close>

record ('job, 'x) wait_system =
  service :: "('job, 'x) system"
  awake :: nat
  blocked :: nat
  returned :: nat

inductive wait_step ::
  "('job, 'x) environment \<Rightarrow> ('job, 'x) wait_system \<Rightarrow> ('job, 'x) wait_system \<Rightarrow> bool"
  for env :: "('job, 'x) environment" where
  service_quiet: "system_step env (service ws) False s' \<Longrightarrow> wait_step env ws (ws\<lparr>service := s'\<rparr>)"
| service_wakes: "system_step env (service ws) True s' \<Longrightarrow>
     wait_step env ws
       (ws\<lparr>service := s', awake := awake ws + blocked ws, blocked := 0\<rparr>)"
| enter: "wait_step env ws (ws\<lparr>awake := Suc (awake ws)\<rparr>)"
| block: "awake ws = Suc n \<Longrightarrow> must_wait (sys_inner (service ws)) \<Longrightarrow>
     wait_step env ws (ws\<lparr>awake := n, blocked := Suc (blocked ws)\<rparr>)"
| return: "awake ws = Suc n \<Longrightarrow> \<not> must_wait (sys_inner (service ws)) \<Longrightarrow>
     wait_step env ws (ws\<lparr>awake := n, returned := Suc (returned ws)\<rparr>)"
| spurious: "blocked ws = Suc n \<Longrightarrow>
     wait_step env ws (ws\<lparr>awake := Suc (awake ws), blocked := n\<rparr>)"

definition wait_initial :: "('job, 'x) system \<Rightarrow> ('job, 'x) wait_system" where
  "wait_initial s = \<lparr>service = s, awake = 0, blocked = 0, returned = 0\<rparr>"

inductive wait_reachable ::
  "('job, 'x) environment \<Rightarrow> ('job, 'x) wait_system \<Rightarrow> ('job, 'x) wait_system \<Rightarrow> bool"
  for env :: "('job, 'x) environment" and w0 :: "('job, 'x) wait_system" where
  initial: "wait_reachable env w0 w0"
| step: "wait_reachable env w0 ws \<Longrightarrow> wait_step env ws ws' \<Longrightarrow> wait_reachable env w0 ws'"

section \<open>The step that completes termination notifies\<close>

lemma perform_wakes:
  assumes e: "perform env a i x = Some e" and ok': "inner_ok (eff_inner e)"
    and now: "drained (eff_inner e)"
  shows "drained i \<or> eff_wake e"
  using e
proof (cases rule: perform_effects)
  case (taken n job q)
  with now not_drained [OF ok'] show ?thesis by simp
next
  case (claimed n job)
  with now not_drained [OF ok'] show ?thesis by simp
next
  case quiet
  with now show ?thesis
    by (simp add: quiet_effectD)
qed (use now in \<open>auto simp: drained_def occupied_def\<close>)

lemma step_wakes:
  assumes ok: "sys_ok s" and step: "system_step env s w s'" and now: "drained (sys_inner s')"
  shows "drained (sys_inner s) \<or> w"
  using step
proof (cases rule: system_step.cases)
  case internal
  have "inner_ok (sys_inner s')"
    using svc.step_inv [OF ok step] by (simp add: sys_ok_def)
  with internal now show ?thesis
    by (cases rule: internal_step.cases) (auto simp: apply_effect_def dest: perform_wakes)
qed (use now in auto)

definition wait_ok :: "('job, 'x) wait_system \<Rightarrow> bool" where
  "wait_ok ws \<longleftrightarrow>
     sys_ok (service ws) \<and>
     (blocked ws \<noteq> 0 \<longrightarrow> must_wait (sys_inner (service ws))) \<and>
     (returned ws \<noteq> 0 \<longrightarrow> drained (sys_inner (service ws)))"

interpretation waiting: invariant_system
  "\<lambda>ws. \<exists>capacity workers x. ws = wait_initial (initial_system capacity workers x)"
  "\<lambda>ws (l :: unit) ws'. wait_step env ws ws'" wait_ok
  for env
proof (unfold_locales, goal_cases)
  case (1 ws)
  then show ?case by (auto simp: wait_ok_def wait_initial_def sys_ok_initial)
next
  case (2 ws l ws')
  from 2(2) show ?case
  proof (cases rule: wait_step.cases)
    case (service_quiet s')
    with 2(1) svc.step_inv [OF _ service_quiet(2)] step_wakes [OF _ service_quiet(2)]
      step_drained [OF _ service_quiet(2)]
    show ?thesis by (auto simp: wait_ok_def must_wait_iff)
  next
    case (service_wakes s')
    with 2(1) svc.step_inv [OF _ service_wakes(2)] step_drained [OF _ service_wakes(2)]
    show ?thesis by (auto simp: wait_ok_def)
  qed (use 2(1) in \<open>auto simp: wait_ok_def must_wait_iff\<close>)
qed

lemma wait_reachable_run:
  "wait_reachable env w0 ws \<Longrightarrow> (\<lambda>ws ws'. \<exists>l :: unit. wait_step env ws ws')\<^sup>*\<^sup>* w0 ws"
  by (induction rule: wait_reachable.induct) (auto intro: rtranclp.rtrancl_into_rtrancl)

text \<open>Seen without its waiters, the system is the service.\<close>

interpretation waited_service: simulation_system
  "\<lambda>ws. \<exists>capacity workers x. ws = wait_initial (initial_system capacity workers x)"
  "\<lambda>ws (l :: unit) ws'. wait_step env ws ws'" wait_ok service "reachable env"
  for env
  by unfold_locales (auto elim!: wait_step.cases intro: seen_step)

lemma wait_reachable_ok:
  assumes "wait_reachable env (wait_initial (initial_system capacity workers x)) ws"
  shows "wait_ok ws"
  by (rule waiting.run_inv [OF wait_reachable_run [OF assms] waiting.start_inv]) blast

lemma wait_service_reachable:
  assumes "wait_reachable env (wait_initial (initial_system capacity workers x)) ws"
  shows "reachable env (initial_system capacity workers x) (service ws)"
proof -
  let ?w0 = "wait_initial (initial_system capacity workers x)"
  have "wait_ok ?w0"
    by (rule waiting.start_inv) blast
  from waited_service.run_seen [OF wait_reachable_run [OF assms] this] show ?thesis
    by (simp add: wait_initial_def seen_reachable)
qed

lemma wait_reachable_raw:
  "wait_reachable env (wait_initial (initial_system capacity workers x)) ws \<Longrightarrow>
     lifecycle (sys_inner (service ws)) \<noteq> Terminated"
  by (rule reachable_config(3) [OF wait_service_reachable])

section \<open>What a wait returns\<close>

text \<open>The first observation that satisfies \<open>Q\<close>, after observations that satisfy \<open>P\<close>.\<close>

definition first_at :: "('a \<Rightarrow> bool) \<Rightarrow> ('a \<Rightarrow> bool) \<Rightarrow> 'a list \<Rightarrow> bool" where
  "first_at P Q seen \<longleftrightarrow> (\<exists>before a after. seen = before @ a # after \<and> Q a \<and> (\<forall>b \<in> set before. P b))"

lemma first_at_simps [simp]:
  "\<not> first_at P Q []"
  "first_at P Q (a # seen) \<longleftrightarrow> Q a \<or> P a \<and> first_at P Q seen"
proof -
  show "\<not> first_at P Q []"
    by (simp add: first_at_def)
  have "first_at P Q (a # seen)" if "P a" "first_at P Q seen"
  proof -
    from that(2) obtain before b after where
      "seen = before @ b # after" "Q b" "\<forall>c \<in> set before. P c"
      by (auto simp: first_at_def)
    with that(1) have "a # seen = (a # before) @ b # after \<and> Q b \<and> (\<forall>c \<in> set (a # before). P c)"
      by simp
    then show ?thesis
      unfolding first_at_def by blast
  qed
  moreover have "first_at P Q (a # seen)" if "Q a"
    using that unfolding first_at_def by (metis append_Nil empty_iff list.set(1))
  moreover have "Q a \<or> P a \<and> first_at P Q seen" if "first_at P Q (a # seen)"
    using that unfolding first_at_def Cons_eq_append_conv by auto blast
  ultimately show "first_at P Q (a # seen) \<longleftrightarrow> Q a \<or> P a \<and> first_at P Q seen"
    by blast
qed

lemma wait_for_termination_returns:
  "wait_for_termination seen = Some i \<longleftrightarrow> first_at must_wait (\<lambda>j. drained j \<and> j = i) seen"
  by (induction seen) (auto simp: must_wait_iff)

lemma wait_timeout_returns:
  "wait_for_termination_timeout timeout seen = Some b \<longleftrightarrow>
     first_at (\<lambda>(i, elapsed). must_wait i \<and> elapsed < timeout)
       (\<lambda>(i, elapsed). if b then drained i else must_wait i \<and> timeout \<le> elapsed) seen"
proof (induction seen)
  case (Cons p seen)
  then show ?case
    by (cases p; cases b) (auto simp: must_wait_iff Let_def)
qed simp

lemma wait_timeout_None:
  "wait_for_termination_timeout timeout seen = None \<longleftrightarrow>
     (\<forall>(i, elapsed) \<in> set seen. must_wait i \<and> elapsed < timeout)"
  by (induction seen) (auto simp: Let_def split: if_splits)

end
