(* ===== verification/Wait_Progress.thy ===== *)
theory Wait_Progress
  imports Termination_Wait
begin

text \<open>
  Liveness of the blocking waits. \<open>wait_move\<close> is the part of \<open>wait_step\<close> that makes progress by
  itself: the steps of the service's threads, and waiters that check the condition and return or
  block; new callers, new clients and spurious wake-ups are left out, as they may come at any time
  and need no fairness. The interpretation \<open>waits\<close> gives these moves a measure, so once shutdown or
  stop has been requested every maximal run of them returns every waiter.
\<close>

inductive wait_move ::
  "('job, 'x) environment \<Rightarrow> ('job, 'x) wait_system \<Rightarrow> ('job, 'x) wait_system \<Rightarrow> bool"
  for env :: "('job, 'x) environment" where
  service_quiet: "internal_step env (service ws) False s' \<Longrightarrow> wait_move env ws (ws\<lparr>service := s'\<rparr>)"
| service_wakes: "internal_step env (service ws) True s' \<Longrightarrow>
     wait_move env ws (ws\<lparr>service := s', awake := awake ws + blocked ws, blocked := 0\<rparr>)"
| block: "awake ws = Suc n \<Longrightarrow> must_wait (sys_inner (service ws)) \<Longrightarrow>
     wait_move env ws (ws\<lparr>awake := n, blocked := Suc (blocked ws)\<rparr>)"
| return: "awake ws = Suc n \<Longrightarrow> \<not> must_wait (sys_inner (service ws)) \<Longrightarrow>
     wait_move env ws (ws\<lparr>awake := n, returned := Suc (returned ws)\<rparr>)"

inductive_cases wait_moveE: "wait_move env ws ws'"

lemma wait_move_step: "wait_move env ws ws' \<Longrightarrow> wait_step env ws ws'"
  by (auto elim!: wait_move.cases intro: wait_step.intros system_step.internal)

definition wait_potential :: "('job, 'x) wait_system \<Rightarrow> nat" where
  "wait_potential ws = potential (service ws) * Suc (awake ws + blocked ws) + awake ws"

lemma potential_drop: "p' < p \<Longrightarrow> a' \<le> w \<Longrightarrow> p' * Suc w + a' < p * Suc w + (a :: nat)"
proof -
  assume "p' < p" and "a' \<le> w"
  then have "p' * Suc w + a' < p' * Suc w + Suc w"
    by simp
  also have "\<dots> = Suc p' * Suc w"
    by simp
  also have "\<dots> \<le> p * Suc w"
    using \<open>p' < p\<close> by (intro mult_le_mono1) simp
  finally show ?thesis
    by simp
qed

lemma wait_move_decreases:
  assumes ok: "wait_ok ws" and m: "wait_move env ws ws'"
  shows "wait_potential ws' < wait_potential ws"
  using m
proof (cases rule: wait_move.cases)
  case (service_quiet s')
  have "potential s' < potential (service ws)"
    using ok service_quiet(2) by (intro internal_decreases) (auto simp: wait_ok_def)
  from potential_drop [OF this, of "awake ws" "awake ws + blocked ws" "awake ws"]
  show ?thesis
    by (simp add: service_quiet(1) wait_potential_def)
next
  case (service_wakes s')
  have "potential s' < potential (service ws)"
    using ok service_wakes(2) by (intro internal_decreases) (auto simp: wait_ok_def)
  from potential_drop [OF this, of "awake ws + blocked ws" "awake ws + blocked ws" "awake ws"]
  show ?thesis
    by (simp add: service_wakes(1) wait_potential_def)
qed (simp_all add: wait_potential_def)

lemma wait_move_exists:
  assumes env: "env_ok env" and busy: "threads (service ws) \<noteq> {#} \<or> awake ws \<noteq> 0"
  shows "\<exists>ws'. wait_move env ws ws'"
proof (cases "awake ws")
  case 0
  with busy internal_enabled [OF env, of "service ws"]
  obtain w s' where step: "internal_step env (service ws) w s'"
    by blast
  show ?thesis
  proof (cases w)
    case True
    then show ?thesis
      using wait_move.service_wakes [of env ws s'] step by auto
  next
    case False
    then show ?thesis
      using wait_move.service_quiet [of env ws s'] step by auto
  qed
next
  case (Suc n)
  then show ?thesis
    by (cases "must_wait (sys_inner (service ws))") (blast intro: wait_move.block wait_move.return)+
qed

interpretation waits: progress_system
  "\<lambda>ws. env_ok env \<and>
     (\<exists>capacity workers x. ws = wait_initial (initial_system capacity workers x))"
  "\<lambda>ws (l :: unit) ws'. wait_step env ws ws'" "\<lambda>ws. env_ok env \<and> wait_ok ws"
  "\<lambda>ws l ws'. wait_move env ws ws'" wait_potential "\<lambda>ws. threads (service ws) = {#} \<and> awake ws = 0"
  for env
proof (unfold_locales, goal_cases)
  case (1 ws)
  then show ?case
    by (auto intro: waiting.start_inv)
next
  case (2 ws l ws')
  then show ?case
    by (auto intro: waiting.step_inv)
next
  case (3 ws l ws')
  then show ?case by (rule wait_move_step)
next
  case (4 ws l ws')
  then show ?case by (auto intro: wait_move_decreases)
next
  case (5 ws)
  then show ?case by (auto intro: wait_move_exists)
qed

definition wait_run ::
  "('job, 'x) environment \<Rightarrow> ('job, 'x) wait_system \<Rightarrow> ('job, 'x) wait_system \<Rightarrow> bool" where
  "wait_run env = (wait_move env)\<^sup>*\<^sup>*"

lemma wait_run_moves: "wait_run env = (\<lambda>ws ws'. \<exists>l :: unit. wait_move env ws ws')\<^sup>*\<^sup>*"
  by (simp add: wait_run_def)

text \<open>What a run of moves keeps.\<close>

lemma wait_run_keeps:
  assumes "wait_run env ws ws'" and "wait_ok ws" and "lifecycle (sys_inner (service ws)) \<noteq> Terminated"
  shows "wait_ok ws' \<and>
    num_threads (sys_inner (service ws')) = num_threads (sys_inner (service ws)) \<and>
    lifecycle (sys_inner (service ws)) \<le> lifecycle (sys_inner (service ws')) \<and>
    lifecycle (sys_inner (service ws')) \<noteq> Terminated \<and>
    awake ws' + blocked ws' + returned ws' = awake ws + blocked ws + returned ws"
  using assms(1) unfolding wait_run_def
proof (induction rule: rtranclp_induct)
  case base
  then show ?case using assms by simp
next
  case (step ws1 ws2)
  have "wait_ok ws2"
    using step by (auto intro: waiting.step_inv wait_move_step)
  moreover have frame: "internal_step env (service ws1) w s' \<Longrightarrow>
      num_threads (sys_inner s') = num_threads (sys_inner (service ws1)) \<and>
      lifecycle (sys_inner (service ws1)) \<le> lifecycle (sys_inner s') \<and>
      lifecycle (sys_inner s') \<noteq> Terminated" for w s'
    using step_frame [OF system_step.internal, of env "service ws1" w s'] step.IH by simp
  ultimately show ?case
    using step.hyps(2) step.IH
    by (elim wait_moveE) (auto dest!: frame)
qed

text \<open>Every run of the service is one beside no waiters.\<close>

lemma reachable_without_waiters:
  assumes "reachable env s0 s"
  shows "wait_reachable env (wait_initial s0) (wait_initial s)"
  using assms
proof (induction rule: reachable.induct)
  case initial
  show ?case by (rule wait_reachable.initial)
next
  case (step s w s')
  have "wait_step env (wait_initial s) (wait_initial s')"
  proof (cases w)
    case True
    with step.hyps(2) wait_step.service_wakes [of env "wait_initial s" s'] show ?thesis
      by (simp add: wait_initial_def)
  next
    case False
    with step.hyps(2) wait_step.service_quiet [of env "wait_initial s" s'] show ?thesis
      by (simp add: wait_initial_def)
  qed
  with step.IH show ?case
    by (rule wait_reachable.step)
qed

text \<open>Where a maximal run of moves ends.\<close>

lemma stuck_waits_returned:
  assumes env: "env_ok env" and workers: "workers \<noteq> 0"
    and reach: "wait_reachable env (wait_initial (initial_system capacity workers x)) ws"
    and closed: "lifecycle (sys_inner (service ws)) \<noteq> Running"
    and run: "wait_run env ws ws'" and stuck: "\<nexists>ws''. wait_move env ws' ws''"
  shows "awake ws' = 0 \<and> blocked ws' = 0 \<and> returned ws' = returned ws + awake ws + blocked ws"
proof -
  note reach' = wait_service_reachable [OF reach]
  note kept = wait_run_keeps [OF run wait_reachable_ok [OF reach] reachable_config(3) [OF reach']]
  have idle: "threads (service ws') = {#}" and none: "awake ws' = 0"
    using wait_move_exists [OF env, of ws'] stuck by blast+
  have ok: "sys_ok (service ws')"
    using kept by (simp add: wait_ok_def)
  have "num_threads (sys_inner (service ws')) \<noteq> 0"
    using kept reachable_config(2) [OF reach'] workers by simp
  note empty = idle_system_empty [OF ok idle this]
  have "lifecycle (sys_inner (service ws')) \<noteq> Running"
    using kept closed by auto
  with empty ok have "drained (sys_inner (service ws'))"
    by (simp add: drained_iff sys_ok_def)
  with kept have "blocked ws' = 0"
    by (auto simp: wait_ok_def must_wait_iff)
  with none kept show ?thesis
    by simp
qed

end
