(* ===== verification/Timed_Wait.thy ===== *)
theory Timed_Wait
  imports Wait_Progress
begin

text \<open>
  Timed waiters beside the system. \<open>timeout_check\<close> is one pass through the loop of
  \<open>wait_for_termination_timeout\<close> (\<open>src/rayon_executor_service_state.rs\<close>): the condition, then the
  time that remains. \<open>timed_step\<close> runs any number of callers, each with the instant it started and
  its timeout, against a clock that advances at any time, also between the reading of
  \<open>started.elapsed()\<close> and the moment the caller is asleep. A sleeper is woken by \<open>notify_all\<close>, at the
  end of its time, or spuriously, and then has to check again. \<open>timed_ok\<close> is the invariant; the
  interpretation \<open>timed_waits\<close> bounds what can happen between two ticks of the clock.
\<close>

definition timeout_check ::
  "nat \<Rightarrow> 'job rayon_executor_service_inner \<Rightarrow> nat \<Rightarrow> bool + nat" where
  "timeout_check timeout i elapsed =
     (if must_wait i
      then let remaining = timeout - elapsed
           in if remaining = 0 then Inl False else Inr remaining
      else Inl True)"

text \<open>The loop is the check, repeated.\<close>

lemma wait_timeout_check:
  "wait_for_termination_timeout timeout ((i, elapsed) # seen) =
     (case timeout_check timeout i elapsed of
        Inl answer \<Rightarrow> Some answer
      | Inr remaining \<Rightarrow> wait_for_termination_timeout timeout seen)"
  by (simp add: timeout_check_def Let_def)

lemma timeout_check_simps:
  "timeout_check timeout i elapsed = Inl True \<longleftrightarrow> drained i"
  "timeout_check timeout i elapsed = Inl False \<longleftrightarrow> must_wait i \<and> timeout \<le> elapsed"
  "timeout_check timeout i elapsed = Inr r \<longleftrightarrow>
     must_wait i \<and> elapsed < timeout \<and> r = timeout - elapsed"
  by (auto simp: timeout_check_def must_wait_iff Let_def)

section \<open>Timed waiters beside the system\<close>

record ('job, 'x) timed_system =
  timed_service :: "('job, 'x) system"
  clock :: nat
  looking :: "(nat \<times> nat) multiset"
  sleeping :: "(nat \<times> nat \<times> nat) multiset"
  answered :: "(nat \<times> nat \<times> nat \<times> bool) multiset"

definition wake_sleepers :: "('job, 'x) timed_system \<Rightarrow> ('job, 'x) timed_system" where
  "wake_sleepers ts =
     ts\<lparr>looking := looking ts + image_mset (\<lambda>(since, timeout, until). (since, timeout)) (sleeping ts),
        sleeping := {#}\<rparr>"

inductive timed_step ::
  "('job, 'x) environment \<Rightarrow> ('job, 'x) timed_system \<Rightarrow> ('job, 'x) timed_system \<Rightarrow> bool"
  for env :: "('job, 'x) environment" where
  service_quiet: "system_step env (timed_service ts) False s' \<Longrightarrow>
     timed_step env ts (ts\<lparr>timed_service := s'\<rparr>)"
| service_wakes: "system_step env (timed_service ts) True s' \<Longrightarrow>
     timed_step env ts (wake_sleepers (ts\<lparr>timed_service := s'\<rparr>))"
| tick: "timed_step env ts (ts\<lparr>clock := clock ts + d\<rparr>)"
| enter: "timed_step env ts (ts\<lparr>looking := add_mset (clock ts, timeout) (looking ts)\<rparr>)"
| answer: "looking ts = add_mset (since, timeout) waiting \<Longrightarrow>
     timeout_check timeout (sys_inner (timed_service ts)) (clock ts - since) = Inl result \<Longrightarrow>
     timed_step env ts
       (ts\<lparr>looking := waiting,
          answered := add_mset (since, timeout, clock ts, result) (answered ts)\<rparr>)"
| sleep: "looking ts = add_mset (since, timeout) waiting \<Longrightarrow>
     timeout_check timeout (sys_inner (timed_service ts)) (clock ts - since) = Inr remaining \<Longrightarrow>
     timed_step env ts
       (ts\<lparr>looking := waiting, clock := clock ts + d,
          sleeping := add_mset (since, timeout, clock ts + d + remaining) (sleeping ts)\<rparr>)"
| wake: "sleeping ts = add_mset (since, timeout, until) others \<Longrightarrow>
     timed_step env ts
       (ts\<lparr>looking := add_mset (since, timeout) (looking ts), sleeping := others\<rparr>)"

definition timed_initial :: "('job, 'x) system \<Rightarrow> nat \<Rightarrow> ('job, 'x) timed_system" where
  "timed_initial s now =
     \<lparr>timed_service = s, clock = now, looking = {#}, sleeping = {#}, answered = {#}\<rparr>"

definition timed_reachable ::
  "('job, 'x) environment \<Rightarrow> ('job, 'x) timed_system \<Rightarrow> ('job, 'x) timed_system \<Rightarrow> bool" where
  "timed_reachable env = (timed_step env)\<^sup>*\<^sup>*"

lemma timed_reachable_initial: "timed_reachable env t0 t0"
  by (simp add: timed_reachable_def)

lemma timed_reachable_step:
  "timed_reachable env t0 ts \<Longrightarrow> timed_step env ts ts' \<Longrightarrow> timed_reachable env t0 ts'"
  by (simp add: timed_reachable_def)

definition timed_ok :: "('job, 'x) timed_system \<Rightarrow> bool" where
  "timed_ok ts \<longleftrightarrow>
     sys_ok (timed_service ts) \<and>
     (sleeping ts \<noteq> {#} \<longrightarrow> must_wait (sys_inner (timed_service ts))) \<and>
     (\<forall>(since, timeout) \<in># looking ts. since \<le> clock ts) \<and>
     (\<forall>(since, timeout, until) \<in># sleeping ts. since \<le> clock ts \<and> since + timeout \<le> until) \<and>
     (\<forall>(since, timeout, at, result) \<in># answered ts. since \<le> at \<and> at \<le> clock ts \<and>
        (if result then drained (sys_inner (timed_service ts)) else since + timeout \<le> at))"

text \<open>A step of the service, sleepers aside.\<close>

lemma timed_ok_service:
  assumes ok: "timed_ok ts" and step: "system_step env (timed_service ts) w s'"
    and awake: "w \<Longrightarrow> sleeping ts = {#}"
  shows "timed_ok (ts\<lparr>timed_service := s'\<rparr>)"
proof -
  have s: "sys_ok (timed_service ts)"
    using ok by (simp add: timed_ok_def)
  note svc.step_inv [OF s step] step_drained [OF s step] step_wakes [OF s step]
  with ok awake show ?thesis
    by (cases "sleeping ts = {#}") (auto simp: timed_ok_def must_wait_iff split: if_splits)
qed

lemma timed_ok_wake_sleepers: "timed_ok ts \<Longrightarrow> timed_ok (wake_sleepers ts)"
  by (auto simp: timed_ok_def wake_sleepers_def)

lemma wake_sleepers_service:
  "wake_sleepers (ts\<lparr>timed_service := s'\<rparr>) = (wake_sleepers ts)\<lparr>timed_service := s'\<rparr>"
  by (simp add: wake_sleepers_def)

lemma timed_ok_initial: "timed_ok (timed_initial (initial_system capacity workers x) now)"
  by (simp add: timed_ok_def timed_initial_def sys_ok_initial)

interpretation timed: invariant_system
  "\<lambda>ts. \<exists>capacity workers x now. ts = timed_initial (initial_system capacity workers x) now"
  "\<lambda>ts (l :: unit) ts'. timed_step env ts ts'" timed_ok
  for env
proof (unfold_locales, goal_cases)
  case (1 ts)
  then show ?case by (auto simp: timed_ok_initial)
next
  case (2 ts l ts')
  from 2(2) show ?case
  proof (cases rule: timed_step.cases)
    case (service_quiet s')
    with 2(1) show ?thesis by (auto intro: timed_ok_service)
  next
    case (service_wakes s')
    have "sleeping (wake_sleepers ts) = {#}"
      by (simp add: wake_sleepers_def)
    then show ?thesis
      using service_wakes timed_ok_service [OF timed_ok_wake_sleepers [OF 2(1)], of env True s']
      by (simp add: wake_sleepers_service) (simp add: wake_sleepers_def)
  next
    case (answer since timeout waiting result)
    with 2(1) show ?thesis
      by (cases result) (auto simp: timed_ok_def timeout_check_simps)
  next
    case (sleep since timeout waiting remaining d)
    with 2(1) show ?thesis
      by (fastforce simp: timed_ok_def timeout_check_simps)
  next
    case (tick d)
    with 2(1) show ?thesis
      by (fastforce simp: timed_ok_def)
  qed (use 2(1) in \<open>auto simp: timed_ok_def\<close>)
qed

lemma timed_reachable_run:
  "timed_reachable env t0 ts \<Longrightarrow> (\<lambda>ts ts'. \<exists>l :: unit. timed_step env ts ts')\<^sup>*\<^sup>* t0 ts"
  by (simp add: timed_reachable_def)

text \<open>Seen without its callers, the system is the service.\<close>

interpretation timed_seen: simulation_system
  "\<lambda>ts. \<exists>capacity workers x now. ts = timed_initial (initial_system capacity workers x) now"
  "\<lambda>ts (l :: unit) ts'. timed_step env ts ts'" timed_ok timed_service
  "reachable env"
  for env
  by unfold_locales (auto elim!: timed_step.cases intro: seen_step simp: wake_sleepers_def)

lemma timed_reachable_ok:
  assumes "timed_reachable env (timed_initial (initial_system capacity workers x) now) ts"
  shows "timed_ok ts"
  by (rule timed.run_inv [OF timed_reachable_run [OF assms] timed_ok_initial])

lemma timed_service_reachable:
  assumes "timed_reachable env (timed_initial (initial_system capacity workers x) now) ts"
  shows "reachable env (initial_system capacity workers x) (timed_service ts)"
  using timed_seen.run_seen [OF timed_reachable_run [OF assms] timed_ok_initial]
  by (simp add: timed_initial_def seen_reachable)

section \<open>Between two ticks\<close>

text \<open>
  What happens without the clock: moves of the service's threads, callers that look, and sleepers
  whose time is over.
\<close>

inductive timed_move ::
  "('job, 'x) environment \<Rightarrow> ('job, 'x) timed_system \<Rightarrow> ('job, 'x) timed_system \<Rightarrow> bool"
  for env :: "('job, 'x) environment" where
  service_quiet: "internal_step env (timed_service ts) False s' \<Longrightarrow>
     timed_move env ts (ts\<lparr>timed_service := s'\<rparr>)"
| service_wakes: "internal_step env (timed_service ts) True s' \<Longrightarrow>
     timed_move env ts (wake_sleepers (ts\<lparr>timed_service := s'\<rparr>))"
| answer: "looking ts = add_mset (since, timeout) waiting \<Longrightarrow>
     timeout_check timeout (sys_inner (timed_service ts)) (clock ts - since) = Inl result \<Longrightarrow>
     timed_move env ts
       (ts\<lparr>looking := waiting,
          answered := add_mset (since, timeout, clock ts, result) (answered ts)\<rparr>)"
| sleep: "looking ts = add_mset (since, timeout) waiting \<Longrightarrow>
     timeout_check timeout (sys_inner (timed_service ts)) (clock ts - since) = Inr remaining \<Longrightarrow>
     timed_move env ts
       (ts\<lparr>looking := waiting,
          sleeping := add_mset (since, timeout, clock ts + remaining) (sleeping ts)\<rparr>)"
| expire: "sleeping ts = add_mset (since, timeout, until) others \<Longrightarrow> until \<le> clock ts \<Longrightarrow>
     timed_move env ts
       (ts\<lparr>looking := add_mset (since, timeout) (looking ts), sleeping := others\<rparr>)"

lemma timed_move_step:
  assumes "timed_move env ts ts'"
  shows "timed_step env ts ts'"
  using assms
proof (cases rule: timed_move.cases)
  case (sleep since timeout waiting remaining)
  then show ?thesis
    using timed_step.sleep [of ts since timeout waiting remaining env 0] by simp
qed (auto intro: timed_step.intros system_step.internal)

definition overdue :: "('job, 'x) timed_system \<Rightarrow> nat" where
  "overdue ts = size (filter_mset (\<lambda>(since, timeout, until). until \<le> clock ts) (sleeping ts))"

definition callers :: "('job, 'x) timed_system \<Rightarrow> nat" where
  "callers ts = size (looking ts) + size (sleeping ts)"

definition timed_potential :: "('job, 'x) timed_system \<Rightarrow> nat" where
  "timed_potential ts =
     potential (timed_service ts) * Suc (2 * callers ts) + size (looking ts) + 2 * overdue ts"

lemma overdue_0: "overdue ts = 0 \<longleftrightarrow> (\<forall>(since, timeout, until) \<in># sleeping ts. clock ts < until)"
  by (fastforce simp: overdue_def not_le)

lemma overdue_le: "overdue ts \<le> size (sleeping ts)"
  by (simp add: overdue_def size_mset_mono)

lemma callers_wake_sleepers [simp]: "callers (wake_sleepers ts) = callers ts"
  by (simp add: callers_def wake_sleepers_def)

lemma looking_overdue: "size (looking ts) + 2 * overdue ts \<le> 2 * callers ts"
  using overdue_le [of ts] by (simp add: callers_def)

lemma timed_move_decreases:
  assumes ok: "timed_ok ts" and m: "timed_move env ts ts'"
  shows "timed_potential ts' < timed_potential ts"
  using m
proof (cases rule: timed_move.cases)
  case (service_quiet s')
  have less: "potential s' < potential (timed_service ts)"
    using ok service_quiet(2) by (intro internal_decreases) (auto simp: timed_ok_def)
  from potential_drop [OF less looking_overdue [of ts]]
  show ?thesis
    by (simp add: service_quiet(1) timed_potential_def callers_def overdue_def add.assoc)
next
  case (service_wakes s')
  have less: "potential s' < potential (timed_service ts)"
    using ok service_wakes(2) by (intro internal_decreases) (auto simp: timed_ok_def)
  from potential_drop [OF less, of "size (looking ts') + 2 * overdue ts'" "2 * callers ts"]
  show ?thesis
    using looking_overdue [of ts'] service_wakes(1)
    by (simp add: timed_potential_def wake_sleepers_def callers_def overdue_def add.assoc)
next
  case (sleep since timeout waiting remaining)
  from sleep(3) have "remaining \<noteq> 0"
    by (simp add: timeout_check_simps)
  with sleep(1,2) show ?thesis
    by (simp add: timed_potential_def callers_def overdue_def)
next
  case (answer since timeout waiting result)
  then show ?thesis
    by (simp add: timed_potential_def callers_def overdue_def)
next
  case (expire since timeout until others)
  then show ?thesis
    by (simp add: timed_potential_def callers_def overdue_def)
qed

lemma timed_move_exists:
  assumes env: "env_ok env"
    and busy: "threads (timed_service ts) \<noteq> {#} \<or> looking ts \<noteq> {#} \<or> overdue ts \<noteq> 0"
  shows "\<exists>ts'. timed_move env ts ts'"
proof -
  consider "threads (timed_service ts) \<noteq> {#}" | since timeout waiting where
    "looking ts = add_mset (since, timeout) waiting" | "overdue ts \<noteq> 0"
    using busy by (metis multiset_cases prod.exhaust)
  then show ?thesis
  proof cases
    case 1
    with internal_enabled [OF env] obtain w s' where "internal_step env (timed_service ts) w s'"
      by blast
    then show ?thesis
      by (cases w) (auto intro: timed_move.service_quiet timed_move.service_wakes)
  next
    case 2
    then show ?thesis
      by (cases "timeout_check timeout (sys_inner (timed_service ts)) (clock ts - since)")
        (blast intro: timed_move.answer timed_move.sleep)+
  next
    case 3
    then obtain since timeout until where "(since, timeout, until) \<in># sleeping ts" "until \<le> clock ts"
      by (auto simp: overdue_0 not_less)
    then show ?thesis
      by (blast dest: multi_member_split intro: timed_move.expire)
  qed
qed

interpretation timed_waits: progress_system
  "\<lambda>ts. env_ok env \<and>
     (\<exists>capacity workers x now. ts = timed_initial (initial_system capacity workers x) now)"
  "\<lambda>ts (l :: unit) ts'. timed_step env ts ts'" "\<lambda>ts. env_ok env \<and> timed_ok ts"
  "\<lambda>ts l ts'. timed_move env ts ts'" timed_potential
  "\<lambda>ts. threads (timed_service ts) = {#} \<and> looking ts = {#} \<and> overdue ts = 0"
  for env
proof (unfold_locales, goal_cases)
  case (1 ts)
  then show ?case
    by (auto simp: timed_ok_initial)
next
  case (2 ts l ts')
  then show ?case
    by (auto intro: timed.step_inv)
next
  case (3 ts l ts')
  then show ?case by (rule timed_move_step)
next
  case (4 ts l ts')
  then show ?case by (auto intro: timed_move_decreases)
next
  case (5 ts)
  then show ?case by (auto intro: timed_move_exists)
qed

definition timed_run ::
  "('job, 'x) environment \<Rightarrow> ('job, 'x) timed_system \<Rightarrow> ('job, 'x) timed_system \<Rightarrow> bool" where
  "timed_run env = (timed_move env)\<^sup>*\<^sup>*"

text \<open>What a run of moves keeps.\<close>

lemma timed_move_keeps:
  assumes m: "timed_move env ts ts'" and raw: "lifecycle (sys_inner (timed_service ts)) \<noteq> Terminated"
  shows "clock ts' = clock ts \<and> callers ts' + size (answered ts') = callers ts + size (answered ts) \<and>
    num_threads (sys_inner (timed_service ts')) = num_threads (sys_inner (timed_service ts)) \<and>
    lifecycle (sys_inner (timed_service ts)) \<le> lifecycle (sys_inner (timed_service ts')) \<and>
    lifecycle (sys_inner (timed_service ts')) \<noteq> Terminated"
proof -
  note frame = step_frame [OF system_step.internal]
  from m show ?thesis
    by (cases rule: timed_move.cases)
      (use raw in \<open>auto simp: callers_def wake_sleepers_def dest!: frame\<close>)
qed

lemma timed_run_keeps:
  assumes run: "timed_run env ts ts'" and ok: "timed_ok ts"
    and raw: "lifecycle (sys_inner (timed_service ts)) \<noteq> Terminated"
  shows "timed_ok ts' \<and> clock ts' = clock ts \<and>
    callers ts' + size (answered ts') = callers ts + size (answered ts) \<and>
    num_threads (sys_inner (timed_service ts')) = num_threads (sys_inner (timed_service ts)) \<and>
    lifecycle (sys_inner (timed_service ts)) \<le> lifecycle (sys_inner (timed_service ts')) \<and>
    lifecycle (sys_inner (timed_service ts')) \<noteq> Terminated"
  using run unfolding timed_run_def
proof (induction rule: rtranclp_induct)
  case base
  with ok raw show ?case by simp
next
  case (step ts1 ts2)
  have "timed_ok ts2"
    using step by (auto intro: timed.step_inv timed_move_step)
  with step.IH timed_move_keeps [OF step.hyps(2)] show ?case
    by auto
qed

text \<open>Where a maximal run of moves ends.\<close>

lemma stuck_timed_waits:
  assumes env: "env_ok env" and workers: "workers \<noteq> 0"
    and reach: "timed_reachable env (timed_initial (initial_system capacity workers x) now) ts"
    and run: "timed_run env ts ts'" and stuck: "\<nexists>ts''. timed_move env ts' ts''"
  shows "looking ts' = {#} \<and> (\<forall>(since, timeout, until) \<in># sleeping ts'. clock ts < until) \<and>
    size (sleeping ts') + size (answered ts') = callers ts + size (answered ts) \<and>
    (lifecycle (sys_inner (timed_service ts)) \<noteq> Running \<longrightarrow> sleeping ts' = {#})"
proof -
  note reach' = timed_service_reachable [OF reach]
  note kept = timed_run_keeps [OF run timed_reachable_ok [OF reach] reachable_config(3) [OF reach']]
  have idle: "threads (timed_service ts') = {#}" and none: "looking ts' = {#}" "overdue ts' = 0"
    using timed_move_exists [OF env, of ts'] stuck by blast+
  have ok: "sys_ok (timed_service ts')" and wait: "sleeping ts' \<noteq> {#} \<Longrightarrow>
      must_wait (sys_inner (timed_service ts'))"
    using kept by (simp_all add: timed_ok_def)
  have "num_threads (sys_inner (timed_service ts')) \<noteq> 0"
    using kept reachable_config(2) [OF reach'] workers by simp
  note empty = idle_system_empty [OF ok idle this]
  have "sleeping ts' = {#}" if "lifecycle (sys_inner (timed_service ts)) \<noteq> Running"
  proof -
    have "lifecycle (sys_inner (timed_service ts')) \<noteq> Running"
      using kept that by auto
    with empty ok have "drained (sys_inner (timed_service ts'))"
      by (simp add: drained_iff sys_ok_def)
    with wait show ?thesis
      by (auto simp: must_wait_iff)
  qed
  moreover have "\<forall>(since, timeout, until) \<in># sleeping ts'. clock ts < until"
    using none(2) kept by (simp add: overdue_0)
  ultimately show ?thesis
    using none(1) kept by (simp add: callers_def)
qed

inductive_cases timed_moveE: "timed_move env ts ts'"

lemma timed_run_exists:
  assumes "env_ok env" and "timed_ok ts"
  shows "\<exists>ts'. timed_run env ts ts' \<and> (\<nexists>ts''. timed_move env ts' ts'')"
proof -
  have "timed_run env = (\<lambda>ts ts'. \<exists>l :: unit. timed_move env ts ts')\<^sup>*\<^sup>*"
    by (simp add: timed_run_def)
  with timed_waits.reaches_final [of env ts] assms obtain ts' where "timed_run env ts ts'"
    and "threads (timed_service ts') = {#}" "looking ts' = {#}" "overdue ts' = 0"
    by auto
  moreover from this have "\<nexists>ts''. timed_move env ts' ts''"
    by (auto simp: overdue_0 elim!: timed_moveE internal_stepE)
  ultimately show ?thesis
    by blast
qed

lemma timed_moves_bounded:
  assumes "env_ok env" and "timed_ok ts" and "(timed_move env ^^ n) ts ts'"
  shows "n \<le> timed_potential ts"
  using timed_waits.moves_bounded [of n env ts ts'] assms by simp

text \<open>Every run of the service is one beside no callers.\<close>

lemma reachable_without_callers:
  assumes "reachable env s0 s"
  shows "timed_reachable env (timed_initial s0 now) (timed_initial s now)"
  using assms
proof (induction rule: reachable.induct)
  case initial
  show ?case by (rule timed_reachable_initial)
next
  case (step s w s')
  have "timed_step env (timed_initial s now) (timed_initial s' now)"
  proof (cases w)
    case True
    with step.hyps(2) timed_step.service_wakes [of env "timed_initial s now" s'] show ?thesis
      by (simp add: timed_initial_def wake_sleepers_def)
  next
    case False
    with step.hyps(2) timed_step.service_quiet [of env "timed_initial s now" s'] show ?thesis
      by (simp add: timed_initial_def)
  qed
  with step.IH show ?case
    by (rule timed_reachable_step)
qed

end
