(* ===== verification/Capacity_Account.thy ===== *)
theory Capacity_Account
  imports Channels
begin

text \<open>
  The capacity channel keeps exact accounts. Its generation counts, modulo two to the 64, the
  releases of capacity and the requests to close admission in the history, less the publications
  that threads still have before them. Since capacity is given back by those events only, a
  subscriber that takes the generation before a refused submission cannot miss a later release.
\<close>

fun capacity_owed :: "'job action \<Rightarrow> nat" where
  "capacity_owed (Publish True t) = 1"
| "capacity_owed _ = 0"

fun release_event :: "event \<Rightarrow> nat" where
  "release_event (Released n) = 1"
| "release_event Closed = 1"
| "release_event _ = 0"

definition releases :: "event list \<Rightarrow> nat" where
  "releases h = sum_list (map release_event h)"

lemma releases_simps [simp]:
  "releases [] = 0" "releases (h @ h') = releases h + releases h'"
  "releases [Accepted n] = 0" "releases [Started n] = 0" "releases [Executed n] = 0"
  "releases [Claimed n] = 0" "releases [CancelRan n] = 0" "releases [Released n] = 1"
  "releases [Closed] = 1" "releases (Closed # h) = Suc (releases h)"
  "releases (map (\<lambda>p. Claimed (f p)) ps) = 0"
  by (simp_all add: releases_def comp_def)

lemma capacity_owed_cancel_actions [simp]: "sum_list (map capacity_owed (cancel_actions q)) = 0"
  by (induction q) (auto simp: cancel_actions_def)

lemma capacity_owed_spawned [simp]: "total capacity_owed (replicate_mset n [TakeNext]) = 0"
  by (simp add: total_replicate)

lemma capacity_owed_term_publish [simp]: "sum_list (map capacity_owed (term_publish i)) = 0"
  by (simp add: term_publish_def)

text \<open>Each action publishes, or comes to owe, one generation for each release it records.\<close>

lemma quiet_owes:
  assumes "quiet_action a" and "quiet_effect a i e" and "perform env a i x = Some e"
  shows "sum_list (map capacity_owed (eff_next e)) = 0" and "releases (eff_events e) = 0"
proof -
  have "capacity_owed b = 0" if "b \<in> set (eff_next e)" for b
    using quiet_effectD(11) [OF assms(2)] that by (cases b rule: capacity_owed.cases) auto
  then show "sum_list (map capacity_owed (eff_next e)) = 0"
    by simp
  show "releases (eff_events e) = 0"
    using assms(1,3) quiet_effectD(7) [OF assms(2)]
    by (cases a) (auto simp: run_contained_Some quiet_defs perform_endpoint_cancel_def
      split: prod.splits outcome.splits if_splits cancel_disposition.splits)
qed

lemma perform_owes_releases:
  assumes e: "perform env a i x = Some e"
  shows "sum_list (map capacity_owed (eff_next e)) = releases (eff_events e)"
  using e
proof (cases rule: perform_effects)
  case quiet
  with quiet_owes [OF quiet e] show ?thesis by simp
qed auto

lemma perform_capacity:
  assumes e: "perform env a i x = Some e" and priv: "private_channels env w"
  shows "capacity_value w (eff_ext e) + of_nat (sum_list (map capacity_owed (eff_next e))) =
    capacity_value w x + of_nat (capacity_owed a) + of_nat (releases (eff_events e))"
proof (cases "\<exists>c t. a = Publish c t")
  case True
  then obtain c t where a: "a = Publish c t"
    by blast
  with e have "eff_next e = []" "eff_events e = []"
    by (auto simp: perform_publish_def split: prod.splits outcome.splits)
  with e a perform_publish_values(2) [OF _ priv] show ?thesis
    by (cases c) fastforce+
next
  case False
  from perform_keeps [OF e False private_channelsD(8-12) [OF priv]]
    perform_owes_releases [OF e] show ?thesis
    using False by (cases a) auto
qed

definition capacity_account :: "'x watch_api \<Rightarrow> u64 \<Rightarrow> ('job, 'x) system \<Rightarrow> bool" where
  "capacity_account w c0 s \<longleftrightarrow>
     capacity_value w (sys_ext s) + of_nat (total capacity_owed (threads s)) =
       c0 + of_nat (releases (history s))"

lemma act_capacity_account:
  assumes priv: "private_channels env w" and acc: "capacity_account w c0 s"
    and T: "threads s = add_mset (a # rest) others"
    and e: "perform env a (sys_inner s) (sys_ext s) = Some e"
  shows "capacity_account w c0 (apply_effect e rest others (history s))"
proof -
  let ?R = "of_nat (sum_list (map capacity_owed rest)) + of_nat (total capacity_owed others) :: u64"
  have "capacity_value w (eff_ext e) + of_nat (sum_list (map capacity_owed (eff_next e))) + ?R =
      capacity_value w (sys_ext s) + of_nat (capacity_owed a) + ?R + of_nat (releases (eff_events e))"
    using perform_capacity [OF e priv] by (simp add: algebra_simps)
  with acc show ?thesis
    by (simp add: capacity_account_def apply_effect_def T algebra_simps)
qed

interpretation account: invariant_system
  "\<lambda>s. private_channels env w \<and> capacity_value w (sys_ext s) = c0 \<and>
     (\<exists>capacity workers x. s = initial_system capacity workers x)"
  "system_step env" "\<lambda>s. private_channels env w \<and> capacity_account w c0 s"
  for env w c0
proof (unfold_locales, goal_cases)
  case (1 s)
  then show ?case
    by (auto simp: capacity_account_def initial_system_def)
next
  case (2 s l s')
  from 2(2) have "capacity_account w c0 s'"
  proof (cases rule: system_step.cases)
    case internal
    then show ?thesis
      using 2(1)
      by (cases rule: internal_step.cases)
        (auto simp: act_capacity_account, simp add: capacity_account_def)
  next
    case (call a)
    from call(3) have "capacity_owed a = 0"
      by (cases a) auto
    with call 2(1) show ?thesis
      by (simp add: capacity_account_def)
  next
    case (outside x')
    with 2(1) show ?thesis
      by (auto simp: capacity_account_def private_channels_def same_channels_def)
  qed
  with 2(1) show ?case by simp
qed

lemma reachable_capacity_account:
  assumes "private_channels env w" and "reachable env (initial_system capacity workers x) s"
  shows "capacity_account w (capacity_value w x) s"
proof -
  let ?s0 = "initial_system capacity workers x"
  have "capacity_value w (sys_ext ?s0) = capacity_value w x"
    by (simp add: initial_system_def)
  with account.run_inv [OF reachable_run [OF assms(2)] account.start_inv] assms(1) show ?thesis
    by blast
qed

section \<open>Capacity is given back by releases only\<close>

lemma card_le_Suc_remove: "finite A \<Longrightarrow> card A \<le> Suc (card (A - {n}))"
  by (simp add: card_Diff_singleton_if) arith

lemma perform_gives_back:
  assumes ok: "inner_ok i" and ok': "inner_ok (eff_inner e)" and e: "perform env a i x = Some e"
  shows "unat (occupied i) \<le> unat (occupied (eff_inner e)) + releases (eff_events e)"
proof -
  note count = unat_occupied [OF ok] unat_occupied [OF ok'] inner_okD(4) [OF ok] inner_okD(4) [OF ok']
  note tasks = inner_okD(6) [OF ok, unfolded tasks_ok_def]
  note fin = inner_okD(2,3) [OF ok]
  from e show ?thesis
  proof (cases rule: perform_effects)
    case (admitted job n)
    with count length_btree_insert_fresh [OF fresh_id(1) [OF ok]] show ?thesis
      by simp
  next
    case (taken n job q)
    moreover from taken have "n \<notin> running_tasks i"
      using tasks by auto
    ultimately show ?thesis
      using count fin by simp
  next
    case (finished n i')
    with count card_le_Suc_remove [OF fin(1), of n] show ?thesis
      by simp
  next
    case (claimed n job)
    moreover have "n \<notin> cancelling i"
      using tasks map_of_btree_Some [OF claimed(2)] by auto
    ultimately show ?thesis
      using count fin length_filter_key [OF inner_okD(1) [OF ok] claimed(2)] by simp
  next
    case (released n i')
    with count card_le_Suc_remove [OF fin(2), of n] show ?thesis
      by simp
  next
    case (stopped i')
    moreover have "card (cancelling i \<union> btree_keys (queue i)) = card (cancelling i) + length (queue i)"
      using tasks fin by (subst card_Un_disjoint) (auto simp: length_btree_keys)
    ultimately show ?thesis
      using count by simp
  next
    case quiet
    then show ?thesis
      by (simp add: quiet_effectD)
  qed (auto simp: occupied_def)
qed

text \<open>
  The thread that lowers the number of accepted tasks or changes the lifecycle has the capacity
  publication before it.
\<close>

lemma perform_lifecycle_event:
  "perform env a i x = Some e \<Longrightarrow> lifecycle (eff_inner e) \<noteq> lifecycle i \<Longrightarrow>
     releases (eff_events e) \<noteq> 0"
  by (erule perform_effects) (auto simp: quiet_effectD)

lemma perform_release_publishes:
  assumes e: "perform env a i x = Some e" and ok: "inner_ok i" and ok': "inner_ok (eff_inner e)"
    and change: "occupied (eff_inner e) < occupied i \<or> lifecycle (eff_inner e) \<noteq> lifecycle i"
  shows "\<exists>t. Publish True t \<in> set (eff_next e)"
proof -
  have "releases (eff_events e) \<noteq> 0"
    using change perform_gives_back [OF ok ok' e] perform_lifecycle_event [OF e]
    by (auto simp: word_less_nat_alt)
  then have owed: "sum_list (map capacity_owed (eff_next e)) \<noteq> 0"
    using perform_owes_releases [OF e] by simp
  show ?thesis
  proof (rule ccontr)
    assume "\<nexists>t. Publish True t \<in> set (eff_next e)"
    then have "capacity_owed b = 0" if "b \<in> set (eff_next e)" for b
      using that by (cases b rule: capacity_owed.cases) auto
    with owed show False by simp
  qed
qed

lemma step_gives_back:
  assumes ok: "sys_ok s" and step: "system_step env s w s'"
  shows "releases (history s) \<le> releases (history s') \<and>
    unat (occupied (sys_inner s)) + releases (history s) \<le>
      unat (occupied (sys_inner s')) + releases (history s')"
proof -
  have inner: "inner_ok (sys_inner s)" "inner_ok (sys_inner s')"
    using ok svc.step_inv [OF ok step] by (simp_all add: sys_ok_def)
  from step show ?thesis
  proof (cases rule: system_step.cases)
    case internal
    then show ?thesis
    proof (cases rule: internal_step.cases)
      case (act a rest others e)
      with perform_gives_back [OF inner(1) _ act(4)] inner(2) show ?thesis
        by (simp add: apply_effect_def)
    qed simp
  qed simp_all
qed

text \<open>The releases recorded and the tasks accepted, over a run.\<close>

definition gives_back_at_most :: "nat \<times> nat \<Rightarrow> nat \<times> nat \<Rightarrow> bool" where
  "gives_back_at_most = (\<lambda>(r, n) (r', n'). r \<le> r' \<and> n + r \<le> n' + r')"

interpretation giving_back: simulation_system
  "\<lambda>s. \<exists>capacity workers x. s = initial_system capacity workers x" "system_step env" sys_ok
  "\<lambda>s. (releases (history s), unat (occupied (sys_inner s)))" gives_back_at_most
  for env
proof (unfold_locales, goal_cases)
  case (1 s w s')
  from step_gives_back [OF this] show ?case
    by (intro r_into_rtranclp) (simp add: gives_back_at_most_def)
qed

lemma run_gives_back:
  assumes "reachable env s s'" and "sys_ok s"
  shows "sys_ok s' \<and> releases (history s) \<le> releases (history s') \<and>
    unat (occupied (sys_inner s)) + releases (history s) \<le>
      unat (occupied (sys_inner s')) + releases (history s')"
proof -
  note seen = giving_back.run_seen [OF reachable_run [OF assms(1)] assms(2)]
  from run_preorder [OF conjunct2 [OF seen]] seen show ?thesis
    by (auto simp: gives_back_at_most_def)
qed

end
