(* ===== verification/Job_Custody.thy ===== *)
theory Job_Custody
  imports Progress
begin

text \<open>
  The custody of jobs. A job is a boxed trait object that owns the user's task: it is handed from the
  submitting thread to the queue, from the queue to a worker or a cancelling thread, and consumed
  there by \<open>run\<close>, \<open>cancel\<close> or its destructor. \<open>jobs_alive\<close> is the multiset of the boxes alive in a
  system, and \<open>custody_run\<close> is a run of the interleaved system that records the jobs submitted.
  Which task a job owns is the parameter \<open>task\<close>, and \<open>drops u\<close> counts the destructor runs of the task
  \<open>u\<close>. The invariant \<open>custody_ok\<close>: for each task by itself, the boxes alive that own it and its
  destructor runs add up to its submissions, so no interleaving leaks a task or destroys one twice,
  refused submissions, panicking tasks and cancellations included.
\<close>

fun jobs_of :: "'job action \<Rightarrow> 'job multiset" where
  "jobs_of (Admit job) = {#job#}"
| "jobs_of (DropRejected u job) = {#job#}"
| "jobs_of (RunJob n job) = {#job#}"
| "jobs_of (CancelJob n job) = {#job#}"
| "jobs_of _ = {#}"

definition queued_jobs :: "'job rayon_executor_service_inner \<Rightarrow> 'job multiset" where
  "queued_jobs i = image_mset snd (mset (queue i))"

definition jobs_alive :: "('job, 'x) system \<Rightarrow> 'job multiset" where
  "jobs_alive s = queued_jobs (sys_inner s) + total jobs_of (threads s)"

abbreviation tally_of :: "('job \<Rightarrow> 'u) \<Rightarrow> 'job multiset \<Rightarrow> 'u \<Rightarrow> nat" where
  "tally_of task J u \<equiv> count (image_mset task J) u"

text \<open>
  The environment as far as the counters are concerned: accepting borrows the job; running,
  cancelling and dropping it destroy its own task, once, and no other; nothing else destroys a task.
\<close>

definition custody_laws ::
  "('u \<Rightarrow> 'x \<Rightarrow> nat) \<Rightarrow> ('job \<Rightarrow> 'u) \<Rightarrow> ('job, 'x) environment \<Rightarrow> bool" where
  "custody_laws drops task env \<longleftrightarrow>
     (\<forall>u job. exec_adds (drops u) 0 (job_accept (env_jobs env) job) \<and>
        exec_adds (drops u) (if task job = u then 1 else 0) (job_run (env_jobs env) job) \<and>
        exec_adds (drops u) (if task job = u then 1 else 0) (job_cancel (env_jobs env) job) \<and>
        exec_adds (drops u) (if task job = u then 1 else 0) (job_drop (env_jobs env) job)) \<and>
     (\<forall>u n. exec_adds (drops u) 0 (env_tracked_cancel env n)) \<and>
     (\<forall>u c t. exec_adds (drops u) 0 (notify_async_changes (env_watch env) c t))"

lemma queued_jobs_custody:
  assumes "\<forall>u. counts_task (drops u) u api" and "env_jobs env = queued_job_methods api"
    and "\<forall>u n. exec_adds (drops u) 0 (env_tracked_cancel env n)"
    and "\<forall>u c t. exec_adds (drops u) 0 (notify_async_changes (env_watch env) c t)"
  shows "custody_laws drops task_of env"
proof -
  have laws: "tasks_weigh (drops u) (\<lambda>v. if v = u then 1 else 0) api" for u
    using assms(1) by (simp add: counts_task_def)
  show ?thesis
    using job_accepted_adds [OF laws] job_consumed_adds [OF laws] assms(2-4)
    by (simp add: custody_laws_def queued_job_methods_def)
qed

section \<open>One action\<close>

lemma jobs_of_publish [simp]: "sum_list (map jobs_of (publish_actions sg)) = {#}"
  by (auto simp: publish_actions_def split: option.split)

lemma jobs_of_term_publish [simp]: "sum_list (map jobs_of (term_publish i)) = {#}"
  by (simp add: term_publish_def)

lemma jobs_of_cancel_actions [simp]:
  "sum_list (map jobs_of (cancel_actions q)) = image_mset snd (mset q)"
  by (induction q) (auto simp: cancel_actions_def)

lemma run_contained_adds:
  assumes "exec_adds drops n m" and "run_contained m ev i x = Some e"
  shows "drops (eff_ext e) = drops x + n"
proof -
  have "e = effect_of [] ev i (snd (contain m x))" "fst (contain m x) = Returns ()"
    using assms(2) by (simp_all add: run_contained_Some)
  then show ?thesis
    using exec_addsD(1) [OF contain_adds [OF assms(1)], of x] by (cases "contain m x") auto
qed

text \<open>The job an action consumes, and what that does to the counters.\<close>

fun consumed_by :: "'job action \<Rightarrow> 'job multiset" where
  "consumed_by (DropRejected u job) = {#job#}"
| "consumed_by (RunJob n job) = {#job#}"
| "consumed_by (CancelJob n job) = {#job#}"
| "consumed_by _ = {#}"

lemma perform_drops:
  assumes laws: "custody_laws drops task env" and e: "perform env a i x = Some e"
  shows "drops u (eff_ext e) = drops u x + tally_of task (consumed_by a) u"
proof -
  note laws = laws [unfolded custody_laws_def]
  let ?own = "\<lambda>job. if task job = u then 1 else 0 :: nat"
  show ?thesis
  proof (cases a)
    case (Admit job)
    obtain r i' x' where adm: "admit (job_accept (env_jobs env)) job i x = (r, i', x')"
      by (metis prod_cases3)
    have acc: "exec_adds (drops u) 0 (job_accept (env_jobs env) job)"
      using laws by blast
    from adm have "r \<noteq> Aborts \<Longrightarrow> drops u x' = drops u x"
      using exec_addsD(1) [OF acc]
      by (fastforce simp: admit_def Let_def split: if_splits option.splits prod.splits outcome.splits)
    with e adm Admit show ?thesis
      by (auto split: outcome.splits sum.splits)
  next
    case (DropRejected unwinding job)
    have "exec_adds (drops u) (?own job) (job_drop (env_jobs env) job)"
      using laws by blast
    from exec_addsD(1) [OF this] DropRejected e show ?thesis
      by (auto simp: perform_drop_def split: prod.splits outcome.splits if_splits)
  next
    case (RunJob n job)
    have "exec_adds (drops u) (?own job) (job_run (env_jobs env) job)"
      using laws by blast
    from run_contained_adds [OF this, of "[Executed n]" i x e] RunJob e show ?thesis
      by simp
  next
    case (CancelJob n job)
    have "exec_adds (drops u) (?own job) (job_cancel (env_jobs env) job)"
      using laws by blast
    from run_contained_adds [OF this, of "[CancelRan n]" i x e] CancelJob e show ?thesis
      by simp
  next
    case (TrackedCancel n)
    have "exec_adds (drops u) 0 (env_tracked_cancel env n)"
      using laws by blast
    from exec_addsD(1) [OF this] TrackedCancel e show ?thesis
      by (auto simp: perform_tracked_cancel_def split: prod.splits outcome.splits)
  next
    case (Publish c t)
    have "exec_adds (drops u) 0 (notify_async_changes (env_watch env) c t)"
      using laws by blast
    from exec_addsD(1) [OF this] Publish e show ?thesis
      by (auto simp: perform_publish_def split: prod.splits outcome.splits)
  qed (use e in \<open>auto simp: perform_dispatch_def perform_take_next_def perform_finish_running_def
      perform_claim_cancel_def perform_endpoint_cancel_def perform_check_running_def
      perform_finish_cancelling_def perform_shutdown_def perform_stop_def
      perform_subscribe_termination_def split: prod.splits option.splits cancel_disposition.splits\<close>)
qed

lemma quiet_jobs:
  assumes "perform env a i x = Some e" and "quiet_action a"
    and "\<nexists>n. a = EndpointCancel n"
  shows "sum_list (map jobs_of (eff_next e)) + consumed_by a = jobs_of a"
  using assms
  by (cases a) (auto simp: quiet_defs run_contained_Some split: prod.splits outcome.splits if_splits)

lemma perform_jobs:
  assumes e: "perform env a i x = Some e" and ok: "inner_ok i"
  shows "queued_jobs (eff_inner e) + sum_list (map jobs_of (eff_next e)) + consumed_by a =
    queued_jobs i + jobs_of a"
  using e
proof (cases rule: perform_effects)
  case (admitted job n)
  then show ?thesis
    using mset_btree_insert_fresh [OF fresh_id(1) [OF ok], of job] by (simp add: queued_jobs_def)
next
  case (claimed n job)
  from arg_cong [OF mset_filter_key [OF inner_okD(1) [OF ok] claimed(2)], of "image_mset snd"]
  have "queued_jobs i = add_mset job (queued_jobs (eff_inner e))"
    by (simp add: claimed queued_jobs_def)
  with claimed show ?thesis
    by auto
next
  case quiet
  show ?thesis
  proof (cases "\<exists>n. a = EndpointCancel n")
    case True
    with e quiet(2) show ?thesis
      by (auto simp: perform_endpoint_cancel_def quiet_effect_def split: prod.splits
          cancel_disposition.splits)
  next
    case False
    from quiet_jobs [OF e quiet(1) False] quiet_effectD(1) [OF quiet(2)] show ?thesis
      by (simp add: add.assoc)
  qed
qed (auto simp: queued_jobs_def)

section \<open>Runs that record submissions\<close>

inductive custody_step ::
  "('u \<Rightarrow> 'x \<Rightarrow> nat) \<Rightarrow> ('job, 'x) environment \<Rightarrow> 'job multiset \<times> ('job, 'x) system \<Rightarrow> bool \<Rightarrow>
     'job multiset \<times> ('job, 'x) system \<Rightarrow> bool"
  for drops :: "'u \<Rightarrow> 'x \<Rightarrow> nat" and env :: "('job, 'x) environment" where
  move: "internal_step env s w s' \<Longrightarrow> custody_step drops env (J, s) w (J, s')"
| submit: "custody_step drops env (J, s) False
     (add_mset job J, s\<lparr>threads := add_mset [Admit job] (threads s)\<rparr>)"
| call: "client_action a \<Longrightarrow> handle_exists (sys_inner s) a \<Longrightarrow> jobs_of a = {#} \<Longrightarrow>
     custody_step drops env (J, s) False (J, s\<lparr>threads := add_mset [a] (threads s)\<rparr>)"
| outside: "same_channels (env_watch env) (sys_ext s) x' \<Longrightarrow>
     (\<And>u. drops u x' = drops u (sys_ext s)) \<Longrightarrow>
     custody_step drops env (J, s) False (J, s\<lparr>sys_ext := x'\<rparr>)"

definition custody_run ::
  "('u \<Rightarrow> 'x \<Rightarrow> nat) \<Rightarrow> ('job, 'x) environment \<Rightarrow> 'job multiset \<times> ('job, 'x) system \<Rightarrow>
     'job multiset \<times> ('job, 'x) system \<Rightarrow> bool" where
  "custody_run drops env = (\<lambda>c c'. \<exists>w. custody_step drops env c w c')\<^sup>*\<^sup>*"

lemma custody_step_system: "custody_step drops env (J, s) w (J', s') \<Longrightarrow> system_step env s w s'"
  by (cases rule: custody_step.cases, assumption)
    (auto intro: system_step.intros simp: system_step.call [of "Admit _"])

definition custody_ok ::
  "('u \<Rightarrow> 'x \<Rightarrow> nat) \<Rightarrow> ('job \<Rightarrow> 'u) \<Rightarrow> ('u \<Rightarrow> nat) \<Rightarrow> 'job multiset \<times> ('job, 'x) system \<Rightarrow> bool" where
  "custody_ok drops task base = (\<lambda>(J, s).
     sys_ok s \<and>
     (\<forall>u. drops u (sys_ext s) + tally_of task (jobs_alive s) u = base u + tally_of task J u))"

lemma act_custody:
  assumes laws: "custody_laws drops task env" and ok: "inner_ok (sys_inner s)"
    and T: "threads s = add_mset (a # rest) others"
    and e: "perform env a (sys_inner s) (sys_ext s) = Some e"
  shows "drops u (eff_ext e) + tally_of task (jobs_alive (apply_effect e rest others (history s))) u =
    drops u (sys_ext s) + tally_of task (jobs_alive s) u"
proof -
  let ?s' = "apply_effect e rest others (history s)"
  have "jobs_alive ?s' + consumed_by a = jobs_alive s"
    using perform_jobs [OF e ok]
    by (simp add: jobs_alive_def apply_effect_def T total_replicate add.assoc add.left_commute
        add.commute)
  then have "tally_of task (jobs_alive ?s') u + tally_of task (consumed_by a) u =
      tally_of task (jobs_alive s) u"
    by (metis count_union image_mset_union)
  with perform_drops [OF laws e, of u] show ?thesis
    by simp
qed

lemma custody_initial:
  "custody_ok drops task (\<lambda>u. drops u x) ({#}, initial_system capacity workers x)"
  by (simp add: custody_ok_def sys_ok_initial)
    (simp add: jobs_alive_def queued_jobs_def initial_system_def new_state_def)

interpretation custody: invariant_system
  "\<lambda>(J, s). custody_laws drops task env \<and> J = {#} \<and>
     (\<exists>capacity workers x. s = initial_system capacity workers x \<and> base = (\<lambda>u. drops u x))"
  "custody_step drops env" "\<lambda>c. custody_laws drops task env \<and> custody_ok drops task base c"
  for drops task env base
proof (unfold_locales, goal_cases)
  case (1 c)
  then show ?case
    by (auto simp: custody_initial)
next
  case (2 c w c')
  then obtain J s J' s' where c: "c = (J, s)" "c' = (J', s')"
    by (metis prod.exhaust)
  have laws: "custody_laws drops task env" and ok: "sys_ok s"
    and count: "drops u (sys_ext s) + tally_of task (jobs_alive s) u = base u + tally_of task J u" for u
    using 2(1) by (simp_all add: c custody_ok_def)
  have ok': "sys_ok s'"
    using svc.step_inv [OF ok] custody_step_system 2(2) unfolding c by blast
  have "drops u (sys_ext s') + tally_of task (jobs_alive s') u = base u + tally_of task J' u" for u
    using 2(2) unfolding c
  proof (cases rule: custody_step.cases)
    case move
    from move(2) show ?thesis
    proof (cases rule: internal_step.cases)
      case (act a rest others e)
      with act_custody [OF laws, of s a rest others e u] ok count [of u] move(1) show ?thesis
        by (simp add: sys_ok_def apply_effect_def)
    next
      case (finish others)
      with count [of u] move(1) show ?thesis by (simp add: jobs_alive_def)
    qed
  qed (use count [of u] in \<open>simp_all add: jobs_alive_def\<close>)
  with laws ok' show ?case
    by (simp add: c custody_ok_def)
qed

text \<open>Seen without the record of submissions, a run with custody is a run.\<close>

interpretation custody_seen: simulation_system
  "\<lambda>(J, s). custody_laws drops task env \<and> J = {#} \<and>
     (\<exists>capacity workers x. s = initial_system capacity workers x \<and> base = (\<lambda>u. drops u x))"
  "custody_step drops env" "\<lambda>c. custody_laws drops task env \<and> custody_ok drops task base c" snd
  "reachable env"
  for drops task env base
proof (unfold_locales, goal_cases)
  case (1 c w c')
  then show ?case
    by (cases c; cases c') (auto intro: seen_step dest: custody_step_system)
qed

lemma custody_run_ok:
  assumes laws: "custody_laws drops task env"
    and run: "custody_run drops env ({#}, initial_system capacity workers x) (J, s)"
  shows "sys_ok s" and "reachable env (initial_system capacity workers x) s"
    and "drops u (sys_ext s) + tally_of task (jobs_alive s) u = drops u x + tally_of task J u"
proof -
  note start = conjI [OF laws custody_initial [of drops task x capacity workers]]
  from custody_seen.run_seen [OF run [unfolded custody_run_def] start]
  have "custody_ok drops task (\<lambda>u. drops u x) (J, s)"
    and "(reachable env)\<^sup>*\<^sup>* (initial_system capacity workers x) s"
    by simp_all
  then show "sys_ok s" and "reachable env (initial_system capacity workers x) s"
    and "drops u (sys_ext s) + tally_of task (jobs_alive s) u = drops u x + tally_of task J u"
    by (simp_all add: custody_ok_def seen_reachable)
qed

text \<open>When every thread is done, nothing is left in custody.\<close>

lemma custody_over:
  assumes "sys_ok s" and "threads s = {#}" and "num_threads (sys_inner s) \<noteq> 0"
  shows "jobs_alive s = {#}"
  using idle_system_empty(1) [OF assms] assms(2) by (simp add: jobs_alive_def queued_jobs_def)

end
