(* ===== verification/Wakers.thy ===== *)
theory Wakers
  imports Notifications
begin

text \<open>
  The future adapters of the \<open>async-wait\<close> feature: the waker proxy
  (\<open>src/internal/panic_isolating_wake.rs\<close>), the polling function and the adapter
  (\<open>src/internal/waker_panic_isolation.rs\<close>), the capacity subscription
  (\<open>src/capacity_changes.rs\<close>, \<open>src/capacity_changes_changed.rs\<close>) and \<open>await_termination\<close>
  (\<open>src/rayon_executor_service.rs\<close>). A waker is what calling it does; a future is a function from
  the waker of its context to one poll. The tokio receiver is the parameter \<open>receiver_api\<close>.
\<close>

type_synonym 'x waker = "('x, unit) exec"

datatype 'o poll = PollReady 'o | PollPending

type_synonym ('x, 'o) pollable = "'x waker \<Rightarrow> ('x, 'o poll) exec"

record 'x panic_isolating_wake =
  proxied_waker :: "'x waker"

definition panic_isolating_wake_new :: "'x waker \<Rightarrow> 'x panic_isolating_wake" where
  [simp]: "panic_isolating_wake_new waker = \<lparr>proxied_waker = waker\<rparr>"

definition proxy_wake_by_ref :: "'x panic_isolating_wake \<Rightarrow> ('x, unit) exec" where
  "proxy_wake_by_ref proxy = contain (proxied_waker proxy)"

definition proxy_wake :: "'x panic_isolating_wake \<Rightarrow> ('x, unit) exec" where
  "proxy_wake proxy = proxy_wake_by_ref proxy"

definition poll_with_waker_panic_isolation ::
  "('x, 'o) pollable \<Rightarrow> 'x waker \<Rightarrow> ('x, 'o poll) exec" where
  "poll_with_waker_panic_isolation future context_waker =
     (let waker = proxy_wake_by_ref (panic_isolating_wake_new context_waker) in future waker)"

record ('x, 'o) waker_panic_isolation =
  isolated_future :: "('x, 'o) pollable"

definition waker_panic_isolation_new :: "('x, 'o) pollable \<Rightarrow> ('x, 'o) waker_panic_isolation" where
  [simp]: "waker_panic_isolation_new future = \<lparr>isolated_future = future\<rparr>"

definition isolation_poll :: "('x, 'o) waker_panic_isolation \<Rightarrow> ('x, 'o) pollable" where
  "isolation_poll this = poll_with_waker_panic_isolation (isolated_future this)"

record ('rx, 'err, 'x) receiver_api =
  receiver_changed :: "'rx \<Rightarrow> ('x, 'err + unit) pollable"
  receiver_has_changed :: "'rx \<Rightarrow> 'x \<Rightarrow> 'err + bool"
  receiver_borrow :: "'rx \<Rightarrow> 'x \<Rightarrow> u64"
  receiver_borrow_and_update :: "'rx \<Rightarrow> ('x, u64) exec"
  receiver_is_closed :: "'rx \<Rightarrow> 'x \<Rightarrow> bool"
  receiver_mark_changed :: "'rx \<Rightarrow> ('x, unit) exec"
  receiver_mark_unchanged :: "'rx \<Rightarrow> ('x, unit) exec"
  receiver_same_channel :: "'rx \<Rightarrow> 'rx \<Rightarrow> bool"

record 'rx capacity_changes =
  receiver :: 'rx

record ('x, 'err) capacity_changes_changed =
  changed_future :: "('x, 'err + unit) pollable"

definition capacity_changes_changed_new ::
  "('x, 'err + unit) pollable \<Rightarrow> ('x, 'err) capacity_changes_changed" where
  [simp]: "capacity_changes_changed_new future = \<lparr>changed_future = future\<rparr>"

definition capacity_changes_from :: "'rx \<Rightarrow> 'rx capacity_changes" where
  "capacity_changes_from rx = \<lparr>receiver = rx\<rparr>"

text \<open>\<open>capacity_changes\<close> of the service state: the subscription is taken with the lock held.\<close>

definition capacity_changes :: "('x, 'rx) exec \<Rightarrow> ('x, 'rx capacity_changes) exec" where
  "capacity_changes subscribe =
     exec_bind subscribe (\<lambda>rx. exec_return (capacity_changes_from rx))"

text \<open>The service's method of the same name.\<close>

definition service_capacity_changes :: "('x, 'rx) exec \<Rightarrow> ('x, 'rx capacity_changes) exec" where
  "service_capacity_changes subscribe = capacity_changes subscribe"

definition changed ::
  "('rx, 'err, 'x) receiver_api \<Rightarrow> 'rx capacity_changes \<Rightarrow> ('x, 'err) capacity_changes_changed" where
  "changed api this = capacity_changes_changed_new (receiver_changed api (receiver this))"

definition changed_poll :: "('x, 'err) capacity_changes_changed \<Rightarrow> ('x, 'err + unit) pollable" where
  "changed_poll this = poll_with_waker_panic_isolation (changed_future this)"

definition has_changed ::
  "('rx, 'err, 'x) receiver_api \<Rightarrow> 'rx capacity_changes \<Rightarrow> 'x \<Rightarrow> 'err + bool" where
  "has_changed api this = receiver_has_changed api (receiver this)"

definition borrow :: "('rx, 'err, 'x) receiver_api \<Rightarrow> 'rx capacity_changes \<Rightarrow> 'x \<Rightarrow> u64" where
  "borrow api this = receiver_borrow api (receiver this)"

definition borrow_and_update ::
  "('rx, 'err, 'x) receiver_api \<Rightarrow> 'rx capacity_changes \<Rightarrow> ('x, u64) exec" where
  "borrow_and_update api this = receiver_borrow_and_update api (receiver this)"

definition is_closed :: "('rx, 'err, 'x) receiver_api \<Rightarrow> 'rx capacity_changes \<Rightarrow> 'x \<Rightarrow> bool" where
  "is_closed api this = receiver_is_closed api (receiver this)"

definition mark_changed ::
  "('rx, 'err, 'x) receiver_api \<Rightarrow> 'rx capacity_changes \<Rightarrow> ('x, unit) exec" where
  "mark_changed api this = receiver_mark_changed api (receiver this)"

definition mark_unchanged ::
  "('rx, 'err, 'x) receiver_api \<Rightarrow> 'rx capacity_changes \<Rightarrow> ('x, unit) exec" where
  "mark_unchanged api this = receiver_mark_unchanged api (receiver this)"

definition same_channel ::
  "('rx, 'err, 'x) receiver_api \<Rightarrow> 'rx capacity_changes \<Rightarrow> 'rx capacity_changes \<Rightarrow> bool" where
  "same_channel api this other = receiver_same_channel api (receiver this) (receiver other)"

text \<open>
  One poll of \<open>await_termination\<close> after the subscription: \<open>wait_for\<close> is the receiver's method, and
  an error (the channel is closed) panics in \<open>expect\<close>.
\<close>

definition await_termination_poll ::
  "('rx \<Rightarrow> (bool \<Rightarrow> bool) \<Rightarrow> ('x, 'err + 'ok) pollable) \<Rightarrow> 'rx \<Rightarrow> ('x, unit) pollable" where
  "await_termination_poll wait_for rx waker =
     exec_bind
       (isolation_poll (waker_panic_isolation_new (wait_for rx (\<lambda>terminated. terminated))) waker)
       (\<lambda>r. case r of
          PollPending \<Rightarrow> exec_return PollPending
        | PollReady (Inr _) \<Rightarrow> exec_return (PollReady ())
        | PollReady (Inl _) \<Rightarrow> (\<lambda>x. (Unwinds message_payload, x)))"

text \<open>
  The future of the \<open>async fn\<close>: its first poll runs up to the \<open>.await\<close>, every further one polls
  the wait again, and a poll after completion panics, as the compiler generates it. The record
  \<open>i\<close> is the one the subscription examines under the lock.
\<close>

datatype 'rx await_state = AwaitUnresumed | AwaitSuspended 'rx | AwaitReturned

definition await_suspended ::
  "('rx \<Rightarrow> (bool \<Rightarrow> bool) \<Rightarrow> ('x, 'err + 'ok) pollable) \<Rightarrow> 'rx \<Rightarrow>
     'x waker \<Rightarrow> ('x, 'rx await_state \<times> unit poll) exec" where
  "await_suspended wait_for rx waker =
     exec_bind (await_termination_poll wait_for rx waker)
       (\<lambda>r. exec_return
          (case r of PollPending \<Rightarrow> AwaitSuspended rx | PollReady _ \<Rightarrow> AwaitReturned, r))"

fun await_termination ::
  "'x watch_api \<Rightarrow> ('x, 'rx) exec \<Rightarrow>
     ('rx \<Rightarrow> (bool \<Rightarrow> bool) \<Rightarrow> ('x, 'err + 'ok) pollable) \<Rightarrow>
     'job rayon_executor_service_inner \<Rightarrow> 'rx await_state \<Rightarrow>
     'x waker \<Rightarrow> ('x, 'rx await_state \<times> unit poll) exec" where
  "await_termination w subscribe wait_for i AwaitUnresumed waker =
     exec_bind (subscribe_termination w subscribe i) (\<lambda>rx. await_suspended wait_for rx waker)"
| "await_termination w subscribe wait_for i (AwaitSuspended rx) waker =
     await_suspended wait_for rx waker"
| "await_termination w subscribe wait_for i AwaitReturned waker =
     (\<lambda>x. (Unwinds message_payload, x))"

text \<open>
  tokio's \<open>wait_for\<close>: it is ready with a value only if the closure accepts the channel's value, and
  when driven outside tokio's cooperative budget a poll is ready if that is so and the receiver has a
  version to look at, as it has on the first poll and after a notification. A new subscription has not
  looked at anything.
\<close>

definition wait_for_sound ::
  "'x watch_api \<Rightarrow> ('rx \<Rightarrow> (bool \<Rightarrow> bool) \<Rightarrow> ('x, 'err + 'ok) pollable) \<Rightarrow> bool" where
  "wait_for_sound w wait_for \<longleftrightarrow>
     (\<forall>rx f waker x ok x'. wait_for rx f waker x = (Returns (PollReady (Inr ok)), x') \<longrightarrow>
        f (termination_value w x))"

definition wait_for_prompt ::
  "'x watch_api \<Rightarrow> ('rx \<Rightarrow> 'x \<Rightarrow> receiver_state) \<Rightarrow>
     ('rx \<Rightarrow> (bool \<Rightarrow> bool) \<Rightarrow> ('x, 'err + 'ok) pollable) \<Rightarrow> bool" where
  "wait_for_prompt w st wait_for \<longleftrightarrow>
     (\<forall>rx f waker x. st rx x = Unexamined \<and> f (termination_value w x) \<longrightarrow>
        (\<exists>ok x'. wait_for rx f waker x = (Returns (PollReady (Inr ok)), x')))"

definition subscribes_fresh :: "('rx \<Rightarrow> 'x \<Rightarrow> receiver_state) \<Rightarrow> ('x, 'rx) exec \<Rightarrow> bool" where
  "subscribes_fresh st subscribe \<longleftrightarrow>
     (\<forall>x rx x'. subscribe x = (Returns rx, x') \<longrightarrow> st rx x' = Unexamined)"

section \<open>Isolated wakers\<close>

lemma proxy_wake_never_unwinds: "fst (proxy_wake_by_ref proxy x) \<noteq> Unwinds p"
  by (simp add: proxy_wake_by_ref_def guarded.guard_no_unwind)

lemma poll_isolated:
  "poll_with_waker_panic_isolation future w = future (contain w)"
  by (simp add: poll_with_waker_panic_isolation_def proxy_wake_by_ref_def)

text \<open>A notification loop over isolated wakers reaches every one of them.\<close>

lemma wake_all_isolated:
  assumes "\<forall>w \<in> set ws. exec_safe w"
  shows "foldr (\<lambda>w k. exec_bind (proxy_wake_by_ref \<lparr>proxied_waker = w\<rparr>) (\<lambda>_. k)) ws
      (exec_return ()) x =
    (Returns (), fold (\<lambda>w x. snd (contain w x)) ws x)"
  using assms
proof (induction ws arbitrary: x)
  case Nil
  then show ?case by simp
next
  case (Cons w ws)
  then show ?case
    by (simp add: proxy_wake_by_ref_def guarded.guard_then)
qed

section \<open>When the asynchronous wait completes\<close>

lemma await_suspended_ready:
  assumes "wait_for_sound w wait_for"
    and "await_suspended wait_for rx waker x = (Returns (st, PollReady ()), x')"
  shows "termination_value w x"
proof -
  from assms(2) obtain ok x1 where "wait_for rx (\<lambda>terminated. terminated) (contain waker) x =
      (Returns (PollReady (Inr ok)), x1)"
    by (auto simp: await_suspended_def await_termination_poll_def isolation_poll_def poll_isolated
        exec_bind_def split: prod.splits outcome.splits poll.splits sum.splits)
  from assms(1) [unfolded wait_for_sound_def, rule_format, OF this] show ?thesis .
qed

lemma await_suspended_prompt:
  assumes "wait_for_prompt w st wait_for" and "st rx x = Unexamined" and "termination_value w x"
  shows "\<exists>x'. await_suspended wait_for rx waker x = (Returns (AwaitReturned, PollReady ()), x')"
proof -
  obtain ok x' where "wait_for rx (\<lambda>terminated. terminated) (contain waker) x =
      (Returns (PollReady (Inr ok)), x')"
    using assms(1) [unfolded wait_for_prompt_def, rule_format, of rx x "\<lambda>t. t" "contain waker"]
      assms(2,3) by auto
  then show ?thesis
    by (simp add: await_suspended_def await_termination_poll_def isolation_poll_def poll_isolated
        exec_bind_def)
qed

lemma subscribe_termination_value:
  assumes laws: "watch_laws w" and keeps: "exec_keeps (termination_value w) subscribe"
    and sub: "subscribe x = (Returns rx, x1)"
  shows "\<exists>x2. subscribe_termination w subscribe i x = (Returns rx, x2) \<and>
    (termination_value w x2 \<longleftrightarrow> drained i \<or> termination_value w x)"
proof -
  note sent = contain_termination_send [OF laws, of raise_once x1]
  have "termination_value w x1 = termination_value w x"
    using keeps sub by (auto simp: exec_keeps_def dest: spec [of _ x])
  with sub sent show ?thesis
    by (cases "contain (termination_send_if_modified w raise_once) x1")
      (auto simp: subscribe_termination_def exec_bind_def drained_def)
qed

text \<open>
  A poll of the wait against the record it looks at, when the channel is never ahead of the record:
  ready means drained, and the first poll on a drained record is ready.
\<close>

lemma await_first_poll:
  assumes "watch_laws w" and "exec_keeps (termination_value w) subscribe"
    and "subscribe x = (Returns rx, x1)"
  obtains x2 where
    "await_termination w subscribe wait_for i AwaitUnresumed waker x =
      await_suspended wait_for rx waker x2"
    "termination_value w x2 \<longleftrightarrow> drained i \<or> termination_value w x"
proof -
  from subscribe_termination_value [OF assms, of i] obtain x2 where
    "subscribe_termination w subscribe i x = (Returns rx, x2)"
    "termination_value w x2 \<longleftrightarrow> drained i \<or> termination_value w x"
    by blast
  with that [of x2] show ?thesis by (simp add: exec_bind_def)
qed

lemma await_termination_ready:
  assumes "watch_laws w" and "exec_keeps (termination_value w) subscribe"
    and "subscribe x = (Returns rx, x1)" and sound: "wait_for_sound w wait_for"
    and behind: "termination_value w x \<Longrightarrow> drained i"
    and ready: "await_termination w subscribe wait_for i st waker x = (Returns (st', PollReady ()), x')"
  shows "drained i"
proof (cases st)
  case AwaitUnresumed
  obtain x2 where "await_termination w subscribe wait_for i AwaitUnresumed waker x =
      await_suspended wait_for rx waker x2"
    and now: "termination_value w x2 \<longleftrightarrow> drained i \<or> termination_value w x"
    using await_first_poll [OF assms(1-3)] by blast
  with ready AwaitUnresumed have "await_suspended wait_for rx waker x2 =
      (Returns (st', PollReady ()), x')"
    by simp
  from await_suspended_ready [OF sound this] now behind show ?thesis by blast
next
  case (AwaitSuspended rx')
  with ready await_suspended_ready [OF sound] behind show ?thesis by simp
next
  case AwaitReturned
  with ready show ?thesis by simp
qed

text \<open>The repair leaves a new receiver with a version to look at.\<close>

lemma subscribe_termination_fresh:
  assumes notify: "notify_laws w st" and fresh: "subscribes_fresh st subscribe"
    and sub: "subscribe_termination w subscribe i x = (Returns rx, x2)"
  shows "st rx x2 = Unexamined"
proof -
  obtain r x1 where x1: "subscribe x = (r, x1)"
    by fastforce
  with sub have "r = Returns rx"
    by (auto simp: subscribe_termination_def exec_bind_def split: outcome.splits prod.splits if_splits)
  with fresh x1 have "st rx x1 = Unexamined"
    by (simp add: subscribes_fresh_def)
  with sub x1 contain_termination_notifies [OF notify, of rx x1] show ?thesis
    by (auto simp: subscribe_termination_def exec_bind_def prod_eq_iff
        split: outcome.splits prod.splits if_splits)
qed

lemma await_termination_at_once:
  assumes laws: "watch_laws w" "exec_keeps (termination_value w) subscribe"
    "subscribe x = (Returns rx, x1)"
    and prompt: "wait_for_prompt w st wait_for" and notify: "notify_laws w st"
    and fresh: "subscribes_fresh st subscribe" and "drained i"
  shows "\<exists>x'. await_termination w subscribe wait_for i AwaitUnresumed waker x =
    (Returns (AwaitReturned, PollReady ()), x')"
proof -
  from subscribe_termination_value [OF laws, of i] obtain x2 where
    sub: "subscribe_termination w subscribe i x = (Returns rx, x2)"
    and "termination_value w x2 \<longleftrightarrow> drained i \<or> termination_value w x"
    by blast
  with await_suspended_prompt [OF prompt subscribe_termination_fresh [OF notify fresh sub]]
    \<open>drained i\<close> show ?thesis
    by (simp add: exec_bind_def)
qed

end
