(* ===== verification/Scheduler.thy ===== *)
theory Scheduler
  imports Sequential_Refinement Endpoint Task_Histories Bounded_Bypass Timed_Wait Capacity_Account Job_Custody Wakers
begin

text \<open>
  Executable runs of the interleaved system. \<open>drive\<close> plays a schedule, a list of client calls and
  of threads to move, on a list of threads; \<open>drive_reachable\<close> shows that what it computes is
  reachable, so concrete reachable states are found by evaluation. \<open>demo_env\<close> is an environment
  with two kinds of job, one of which panics, and with watch channels that satisfy their laws; the
  \<open>demo\<close> states are what some schedules on a service of capacity two with one worker lead to.
\<close>

datatype 'job move = Call "'job action" | Move nat

record ('job, 'x) config =
  cf_inner :: "'job rayon_executor_service_inner"
  cf_ext :: 'x
  cf_threads :: "'job action list list"
  cf_history :: "event list"

definition config_system :: "('job, 'x) config \<Rightarrow> ('job, 'x) system" where
  "config_system c =
     \<lparr>sys_inner = cf_inner c, sys_ext = cf_ext c, threads = mset (cf_threads c),
      history = cf_history c\<rparr>"

fun drive1 :: "('job, 'x) environment \<Rightarrow> 'job move \<Rightarrow> ('job, 'x) config \<Rightarrow> ('job, 'x) config option"
  where
  "drive1 env (Call a) c =
     (if client_action a \<and> handle_exists (cf_inner c) a then Some (c\<lparr>cf_threads := [a] # cf_threads c\<rparr>) else None)"
| "drive1 env (Move k) c =
     (if k < length (cf_threads c) then
        case cf_threads c ! k of
          [] \<Rightarrow> Some (c\<lparr>cf_threads := take k (cf_threads c) @ drop (Suc k) (cf_threads c)\<rparr>)
        | a # rest \<Rightarrow>
            (case perform env a (cf_inner c) (cf_ext c) of
               None \<Rightarrow> None
             | Some e \<Rightarrow>
                 Some \<lparr>cf_inner = eff_inner e, cf_ext = eff_ext e,
                   cf_threads = (eff_next e @ rest) #
                     take k (cf_threads c) @ drop (Suc k) (cf_threads c) @
                     replicate (eff_spawns e) [TakeNext],
                   cf_history = cf_history c @ eff_events e\<rparr>)
      else None)"

fun drive :: "('job, 'x) environment \<Rightarrow> 'job move list \<Rightarrow> ('job, 'x) config \<Rightarrow> ('job, 'x) config option"
  where
  "drive env [] c = Some c"
| "drive env (m # ms) c = (case drive1 env m c of None \<Rightarrow> None | Some c' \<Rightarrow> drive env ms c')"

lemma mset_nth: "k < length ks \<Longrightarrow> mset ks = add_mset (ks ! k) (mset (take k ks @ drop (Suc k) ks))"
  by (metis Cons_nth_drop_Suc append_take_drop_id mset.simps(2) mset_append
      union_mset_add_mset_right)

lemma drive1_move:
  assumes "drive1 env (Move k) c = Some c'"
  shows "\<exists>w. internal_step env (config_system c) w (config_system c')"
proof -
  let ?rest = "take k (cf_threads c) @ drop (Suc k) (cf_threads c)"
  from assms have k: "k < length (cf_threads c)"
    by (auto split: if_splits)
  show ?thesis
  proof (cases "cf_threads c ! k")
    case Nil
    with assms k have c': "c' = c\<lparr>cf_threads := ?rest\<rparr>"
      by simp
    have "threads (config_system c) = add_mset [] (mset ?rest)"
      using mset_nth [OF k] Nil by (simp add: config_system_def)
    from internal_step.finish [OF this, of env] c' show ?thesis
      by (auto simp: config_system_def)
  next
    case (Cons a rest)
    with assms k obtain e where e: "perform env a (cf_inner c) (cf_ext c) = Some e"
      and c': "c' = \<lparr>cf_inner = eff_inner e, cf_ext = eff_ext e,
        cf_threads = (eff_next e @ rest) # take k (cf_threads c) @ drop (Suc k) (cf_threads c) @
          replicate (eff_spawns e) [TakeNext],
        cf_history = cf_history c @ eff_events e\<rparr>"
      by (auto split: option.splits)
    have "threads (config_system c) = add_mset (a # rest) (mset ?rest)"
      using mset_nth [OF k] Cons by (simp add: config_system_def)
    from internal_step.act [OF this, of env e] e c' show ?thesis
      by (auto simp: config_system_def apply_effect_def add.assoc)
  qed
qed

lemma drive1_call:
  assumes "drive1 env (Call a) c = Some c'"
  shows "client_action a" and "handle_exists (sys_inner (config_system c)) a"
    and "config_system c' = (config_system c)\<lparr>threads := add_mset [a] (threads (config_system c))\<rparr>"
  using assms by (auto simp: config_system_def split: if_splits)

lemma drive1_step:
  assumes "drive1 env m c = Some c'"
  shows "\<exists>w. system_step env (config_system c) w (config_system c')"
proof (cases m)
  case (Call a)
  note call = drive1_call [OF assms [unfolded Call]]
  from system_step.call [OF call(1,2), of env] call(3) show ?thesis
    by auto
next
  case (Move k)
  from drive1_move [OF assms [unfolded Move]] show ?thesis
    by (auto intro: system_step.internal)
qed

lemma drive_reachable:
  "drive env ms c = Some c' \<Longrightarrow> reachable env s0 (config_system c) \<Longrightarrow>
     reachable env s0 (config_system c')"
  by (induction ms arbitrary: c)
    (auto split: option.splits dest!: drive1_step intro: reachable.step)

text \<open>The jobs a schedule submits.\<close>

fun submits :: "'job move \<Rightarrow> 'job multiset" where
  "submits (Call a) = jobs_of a"
| "submits (Move k) = {#}"

lemma drive1_custody:
  assumes "drive1 env m c = Some c'"
  shows "\<exists>w. custody_step drops env (J, config_system c) w (submits m + J, config_system c')"
proof (cases m)
  case (Call a)
  note call = drive1_call [OF assms [unfolded Call]]
  show ?thesis
  proof (cases "jobs_of a = {#}")
    case True
    with Call custody_step.call [OF call(1,2), of drops env J] call(3) show ?thesis
      by auto
  next
    case False
    with call(1) obtain job where "a = Admit job"
      by (cases a) auto
    with Call custody_step.submit [of drops env J "config_system c" job] call(3) show ?thesis
      by auto
  qed
next
  case (Move k)
  from drive1_move [OF assms [unfolded Move]] Move show ?thesis
    by (auto intro: custody_step.move)
qed

lemma drive_custody:
  "drive env ms c = Some c' \<Longrightarrow>
     custody_run drops env (J, config_system c) (sum_list (map submits ms) + J, config_system c')"
proof (induction ms arbitrary: c J)
  case Nil
  then show ?case by (simp add: custody_run_def)
next
  case (Cons m ms)
  then obtain c1 where "drive1 env m c = Some c1" and rest: "drive env ms c1 = Some c'"
    by (auto split: option.splits)
  have first: "\<exists>w. custody_step drops env (J, config_system c) w (submits m + J, config_system c1)"
    by (rule drive1_custody) fact
  have "(\<lambda>c c'. \<exists>w. custody_step drops env c w c')\<^sup>*\<^sup>* (submits m + J, config_system c1)
      (sum_list (map submits (m # ms)) + J, config_system c')"
    using Cons.IH [OF rest, of "submits m + J"] by (simp add: custody_run_def ac_simps)
  with first show ?case
    unfolding custody_run_def by (rule converse_rtranclp_into_rtranclp)
qed

definition start_config :: "usize \<Rightarrow> usize \<Rightarrow> 'x \<Rightarrow> ('job, 'x) config" where
  "start_config capacity workers x =
     \<lparr>cf_inner = new_state capacity workers, cf_ext = x, cf_threads = [], cf_history = []\<rparr>"

lemma config_start:
  "config_system (start_config capacity workers x) = initial_system capacity workers x"
  by (simp add: config_system_def start_config_def initial_system_def)

lemma drive_initial:
  assumes "drive env ms (start_config capacity workers x) = Some c"
  shows "reachable env (initial_system capacity workers x) (config_system c)"
  using drive_reachable [OF assms, of "initial_system capacity workers x"]
  by (simp add: config_start reachable.initial)

section \<open>A small environment\<close>

text \<open>The generation counter, the termination flag, and the number of job methods called.\<close>

type_synonym demo_state = "u64 \<times> bool \<times> nat"

definition demo_watch :: "demo_state watch_api" where
  "demo_watch =
     \<lparr>capacity_send_modify = (\<lambda>f (g, t, n). (Returns (), (f g, t, n))),
      termination_send_if_modified =
        (\<lambda>f (g, t, n). case f t of (t', modified) \<Rightarrow> (Returns modified, (g, t', n))),
      capacity_value = fst,
      termination_value = (\<lambda>(g, t, n). t)\<rparr>"

text \<open>A job is whether it panics.\<close>

definition demo_jobs :: "(bool, demo_state) queued_job_vtable" where
  "demo_jobs =
     \<lparr>job_accept = (\<lambda>job. exec_return ()),
      job_run = (\<lambda>job (g, t, n). (if job then Unwinds message_payload else Returns (), (g, t, Suc n))),
      job_cancel = (\<lambda>job (g, t, n). (Returns (), (g, t, Suc n))),
      job_drop = (\<lambda>job. exec_return ())\<rparr>"

definition demo_env :: "(bool, demo_state) environment" where
  "demo_env = \<lparr>env_jobs = demo_jobs, env_watch = Some demo_watch,
     env_tracked_cancel = (\<lambda>n. exec_return ())\<rparr>"

lemma demo_env_simps [simp]:
  "env_jobs demo_env = demo_jobs" "env_watch demo_env = Some demo_watch"
  "env_tracked_cancel demo_env task_id = exec_return ()"
  "job_accept demo_jobs job = exec_return ()" "job_drop demo_jobs job = exec_return ()"
  "termination_value demo_watch (g, t, n) = t" "capacity_value demo_watch (g, t, n) = g"
  by (simp_all add: demo_env_def demo_jobs_def demo_watch_def)

lemma demo_watch_laws: "watch_laws demo_watch"
  unfolding watch_laws_def by (simp add: demo_watch_def exec_safe_def exec_keeps_def split_beta)

lemma demo_payload: "payload_safe message_payload"
  by (simp add: payload_safe_def message_payload_def)

lemma demo_env_ok: "env_ok demo_env"
  by (auto simp: env_ok_def watch_ok_def demo_watch_laws demo_jobs_def exec_safe_def demo_payload)

lemma demo_private: "private_channels demo_env demo_watch"
  using demo_watch_laws
  by (auto simp: private_channels_def leaves_channels_def demo_jobs_def exec_keeps_def message_payload_def)

lemma demo_job_safe: "exec_safe (job_run demo_jobs job)" "exec_safe (job_cancel demo_jobs job)"
  by (auto simp: demo_jobs_def exec_safe_def demo_payload)

text \<open>A tracked task that is always pending, and tasks whose destructors are counted.\<close>

definition demo_tracked :: "(unit, unit, unit, demo_state) tracked_api" where
  "demo_tracked =
     \<lparr>tracked_status = (\<lambda>h x. StatusPending), tracked_is_done = (\<lambda>h x. False),
      tracked_get = (\<lambda>h. exec_return ()), tracked_try_get = (\<lambda>h. exec_return (Pending h)),
      tracked_cancel = (\<lambda>h. exec_return AlreadyFinished)\<rparr>"

text \<open>A runner that calls the closure and then drops it.\<close>

definition demo_runner :: "('k, 'x, 'a) fn_mut \<Rightarrow> ('x, unit) exec" where
  "demo_runner f =
     contain (drop_after (call_mut f (captured f)) (drop_captured f (after_call f (captured f))))"

definition demo_tasks :: "(bool, bool, unit, nat, unit, nat) task_api" where
  "demo_tasks =
     \<lparr>callable_call = (\<lambda>c n. (if c then Unwinds message_payload else Returns 42, n)),
      callable_drop = (\<lambda>c n. (Returns (), Suc n)),
      runnable_run = (\<lambda>t n. (if t then Unwinds message_payload else Returns (), n)),
      runnable_drop = (\<lambda>t n. (Returns (), Suc n)),
      slot_accept = (\<lambda>slot. exec_return ()),
      slot_cancel_unstarted = (\<lambda>slot. exec_return True),
      slot_drop = (\<lambda>slot. exec_return ()),
      runner_run = (\<lambda>f slot. exec_bind (demo_runner f) (\<lambda>_. exec_return True)),
      runner_run_detached = demo_runner\<rparr>"

lemma demo_runner_consumes:
  "consumes_closure tally demo_runner"
  "consumes_closure tally (\<lambda>f. exec_bind (demo_runner f) (\<lambda>_. exec_return True))"
  unfolding consumes_closure_def demo_runner_def closure_adds_def
  by (blast intro: contain_adds drop_after_adds exec_bind_adds exec_adds_return)+

lemma demo_task_laws: "task_laws (\<lambda>n. n) demo_tasks"
  by (simp add: task_laws_def tasks_weigh_def demo_tasks_def demo_runner_consumes)
    (auto simp: exec_adds_def)

section \<open>Three reachable states\<close>


lemmas drive_simps =
  start_config_def new_state_def admit_def occupied_def list_len_def set_len_def checked_add_def
  saturating_sub_def Let_def effect_of_def perform_dispatch_def perform_take_next_def
  perform_finish_running_def perform_shutdown_def perform_stop_def perform_claim_cancel_def
  perform_endpoint_cancel_def perform_check_running_def perform_tracked_cancel_def
  perform_subscribe_termination_def perform_finish_cancelling_def perform_publish_def perform_drop_def run_contained_def contain_eq
  take_next_def finish_running_def cancel_pending_task_def finish_cancelling_def shutdown_def
  stop_eq btree_remove_def publish_actions_def cancel_actions_def drained_def
  notify_async_changes_def next_generation_def raise_once_def
  exec_bind_def message_payload_def discard_panic_payload_eq

lemma word_2_le_1 [simp]: "\<not> (2 :: usize) \<le> 1"
  by (simp add: word_le_nat_alt)

definition demo_initial :: "(bool, demo_state) system" where
  "demo_initial = initial_system 2 1 (0, False, 0)"

definition to_busy :: "bool move list" where
  "to_busy = [Call (Admit True), Move 0, Move 0, Move 1, Call (Admit False), Move 0]"

definition to_owing :: "bool move list" where
  "to_owing = [Call StopService, Move 0, Move 0, Move 0, Move 0, Move 0, Move 0, Move 1, Move 0]"

definition to_over :: "bool move list" where
  "to_over = [Move 0, Move 0, Move 0, Move 0, Move 0, Move 0, Move 0]"

text \<open>The first task runs, and will panic; the second one waits in the queue.\<close>

definition demo_busy :: "(bool, demo_state) system" where
  "demo_busy =
     \<lparr>sys_inner =
        \<lparr>lifecycle = Running, task_capacity = 2, num_threads = 1, next_task_id = 2, running = 1,
         running_tasks = {0}, scheduled = 1, queue = [(1, False)], cancelling = {}\<rparr>,
      sys_ext = (0, False, 0),
      threads = mset [[Dispatch 0], [RunJob 0 True, FinishRunning 0], [Dispatch 0]],
      history = [Accepted 0, Started 0, Accepted 1]\<rparr>"

text \<open>After \<open>stop\<close>: every task has ended, the last two publications are still to be made.\<close>

definition demo_owing :: "(bool, demo_state) system" where
  "demo_owing =
     \<lparr>sys_inner =
        \<lparr>lifecycle = Stopping, task_capacity = 2, num_threads = 1, next_task_id = 2, running = 0,
         running_tasks = {}, scheduled = 0, queue = [], cancelling = {}\<rparr>,
      sys_ext = (2, False, 2),
      threads = mset [[Publish True False, Publish False True], [Dispatch 0], [Dispatch 0]],
      history = [Accepted 0, Started 0, Accepted 1, Closed, Claimed 1, CancelRan 1,
        Released 1, Executed 0, Released 0]\<rparr>"

text \<open>After those publications, when no thread is left.\<close>

definition demo_over :: "(bool, demo_state) system" where
  "demo_over = demo_owing\<lparr>sys_ext := (3, True, 2), threads := {#}\<rparr>"

text \<open>An endpoint of the first task that looked when the task had just been released.\<close>

definition to_late :: "bool move list" where
  "to_late = [Call (EndpointCancel 0), Move 0, Move 2, Move 0, Move 1]"

definition demo_late :: "(bool, demo_state) system" where
  "demo_late =
     \<lparr>sys_inner =
        \<lparr>lifecycle = Running, task_capacity = 2, num_threads = 1, next_task_id = 2, running = 0,
         running_tasks = {}, scheduled = 1, queue = [(1, False)], cancelling = {}\<rparr>,
      sys_ext = (0, False, 1),
      threads = mset [[TrackedCancel 0], [Publish True False, SpawnSuccessor], [Dispatch 0],
        [Dispatch 0]],
      history = [Accepted 0, Started 0, Accepted 1, Executed 0, Released 0]\<rparr>"

lemma demo_busy_reachable: "reachable demo_env demo_initial demo_busy"
proof -
  have "drive demo_env to_busy (start_config 2 1 (0, False, 0)) = Some
      \<lparr>cf_inner = sys_inner demo_busy, cf_ext = sys_ext demo_busy,
       cf_threads = [[Dispatch 0], [RunJob 0 True, FinishRunning 0], [Dispatch 0]],
       cf_history = history demo_busy\<rparr>"
    by (simp add: drive_simps to_busy_def demo_busy_def)
  from drive_initial [OF this] show ?thesis
    by (simp add: config_system_def demo_initial_def demo_busy_def)
qed

lemma demo_busy_owing: "reachable demo_env demo_busy demo_owing"
proof -
  have "drive demo_env to_owing
      \<lparr>cf_inner = sys_inner demo_busy, cf_ext = sys_ext demo_busy,
       cf_threads = [[Dispatch 0], [RunJob 0 True, FinishRunning 0], [Dispatch 0]],
       cf_history = history demo_busy\<rparr> = Some
      \<lparr>cf_inner = sys_inner demo_owing, cf_ext = sys_ext demo_owing,
       cf_threads = [[Publish True False, Publish False True], [Dispatch 0], [Dispatch 0]],
       cf_history = history demo_owing\<rparr>"
    by (simp add: drive_simps demo_jobs_def demo_watch_def to_owing_def demo_busy_def
        demo_owing_def)
  from drive_reachable [OF this, of demo_busy] show ?thesis
    by (simp add: config_system_def demo_busy_def demo_owing_def reachable.initial)
qed

lemma demo_busy_late: "reachable demo_env demo_busy demo_late"
proof -
  have "drive demo_env to_late
      \<lparr>cf_inner = sys_inner demo_busy, cf_ext = sys_ext demo_busy,
       cf_threads = [[Dispatch 0], [RunJob 0 True, FinishRunning 0], [Dispatch 0]],
       cf_history = history demo_busy\<rparr> = Some
      \<lparr>cf_inner = sys_inner demo_late, cf_ext = sys_ext demo_late,
       cf_threads = [[TrackedCancel 0], [Publish True False, SpawnSuccessor], [Dispatch 0],
         [Dispatch 0]],
       cf_history = history demo_late\<rparr>"
    by (simp add: drive_simps demo_jobs_def to_late_def demo_busy_def demo_late_def
        is_running_task_def word_less_nat_alt)
  from drive_reachable [OF this, of demo_busy] show ?thesis
    by (simp add: config_system_def demo_busy_def demo_late_def reachable.initial)
qed

lemma demo_owing_over: "reachable demo_env demo_owing demo_over"
proof -
  have "drive demo_env to_over
      \<lparr>cf_inner = sys_inner demo_owing, cf_ext = sys_ext demo_owing,
       cf_threads = [[Publish True False, Publish False True], [Dispatch 0], [Dispatch 0]],
       cf_history = history demo_owing\<rparr> = Some
      \<lparr>cf_inner = sys_inner demo_over, cf_ext = sys_ext demo_over, cf_threads = [],
       cf_history = history demo_over\<rparr>"
    by (simp add: drive_simps demo_jobs_def demo_watch_def to_over_def demo_owing_def demo_over_def)
  from drive_reachable [OF this, of demo_owing] show ?thesis
    by (simp add: config_system_def demo_owing_def demo_over_def reachable.initial)
qed

lemma demo_busy_over: "reachable demo_env demo_busy demo_over"
  by (rule reachable_trans [OF demo_owing_over demo_busy_owing])

lemma demo_owing_reachable: "reachable demo_env demo_initial demo_owing"
  by (rule reachable_trans [OF demo_busy_owing demo_busy_reachable])

lemma demo_late_reachable: "reachable demo_env demo_initial demo_late"
  by (rule reachable_trans [OF demo_busy_late demo_busy_reachable])

lemma demo_over_reachable: "reachable demo_env demo_initial demo_over"
  by (rule reachable_trans [OF demo_owing_over demo_owing_reachable])

lemmas demo_reach =
  demo_busy_reachable [unfolded demo_initial_def] demo_owing_reachable [unfolded demo_initial_def]
  demo_over_reachable [unfolded demo_initial_def] demo_late_reachable [unfolded demo_initial_def]

lemma demo_dispatch_step:
  "internal_step demo_env demo_busy False
     (demo_busy\<lparr>threads := mset [[], [RunJob 0 True, FinishRunning 0], [Dispatch 0]]\<rparr>)"
proof -
  have "threads demo_busy =
      add_mset [Dispatch 0] (mset [[RunJob 0 True, FinishRunning 0], [Dispatch 0]])"
    and "perform demo_env (Dispatch 0) (sys_inner demo_busy) (sys_ext demo_busy) =
      Some (effect_of [] [] (sys_inner demo_busy) (sys_ext demo_busy))"
    by (simp_all add: demo_busy_def perform_dispatch_def)
  from internal_step.act [OF this] show ?thesis
    by (simp add: apply_effect_def demo_busy_def)
qed

section \<open>A caller that gives up, and one that is told\<close>

text \<open>
  Beside \<open>demo_busy\<close> a caller with a timeout of five starts at instant seven, sleeps, and looks again
  at instant twelve. Beside \<open>demo_owing\<close>, which is terminated, one has just entered.
\<close>

definition demo_timed :: "(bool, demo_state) timed_system" where
  "demo_timed =
     \<lparr>timed_service = demo_busy, clock = 12, looking = {#}, sleeping = {#},
      answered = {#(7, 5, 12, False)#}\<rparr>"

definition demo_entered :: "(bool, demo_state) timed_system" where
  "demo_entered = (timed_initial demo_owing 0)\<lparr>looking := {#(0, 5)#}\<rparr>"

lemma demo_timed_reachable:
  "timed_reachable demo_env (timed_initial (initial_system 2 1 (0, False, 0)) 7) demo_timed"
proof -
  let ?t = "timed_initial demo_busy 7"
  let ?t1 = "?t\<lparr>looking := {#(7, 5)#}\<rparr>"
  let ?t2 = "?t\<lparr>sleeping := {#(7, 5, 12)#}\<rparr>"
  let ?t3 = "?t2\<lparr>clock := 12\<rparr>"
  let ?t4 = "?t1\<lparr>clock := 12\<rparr>"
  have wait: "must_wait (sys_inner demo_busy)"
    by (simp add: must_wait_def demo_busy_def)
  have "timed_step demo_env ?t ?t1"
    using timed_step.enter [of demo_env ?t 5] by (simp add: timed_initial_def)
  moreover have "timed_step demo_env ?t1 ?t2"
    using timed_step.sleep [of ?t1 7 5 "{#}" 5 demo_env 0] wait
    by (simp add: timed_initial_def timeout_check_simps)
  moreover have "timed_step demo_env ?t2 ?t3"
    using timed_step.tick [of demo_env ?t2 5] by (simp add: timed_initial_def)
  moreover have "timed_step demo_env ?t3 ?t4"
    using timed_step.wake [of ?t3 7 5 12 "{#}" demo_env] by (simp add: timed_initial_def)
  moreover have "timed_step demo_env ?t4 demo_timed"
    using timed_step.answer [of ?t4 7 5 "{#}" False demo_env] wait
    by (simp add: timed_initial_def timeout_check_simps demo_timed_def)
  ultimately show ?thesis
    using reachable_without_callers [OF demo_reach(1), of 7] by (meson timed_reachable_step)
qed

lemma demo_entered_reachable:
  "timed_reachable demo_env (timed_initial (initial_system 2 1 (0, False, 0)) 0) demo_entered"
  using timed_reachable_step [OF reachable_without_callers [OF demo_reach(2), of 0]
      timed_step.enter [of _ _ 5]]
  by (simp add: demo_entered_def timed_initial_def)

section \<open>Two jobs and what becomes of them\<close>

text \<open>
  A service of capacity one: the first task is accepted, the second one is refused for lack of room,
  then a worker runs the first one, which panics. The state counts the destructor runs of each task.
\<close>

type_synonym demo_tally = "bool + bool \<Rightarrow> nat"

definition tally_tasks :: "(bool, bool, unit, nat, unit, demo_tally) task_api" where
  "tally_tasks =
     \<lparr>callable_call = (\<lambda>c x. (if c then Unwinds message_payload else Returns 42, x)),
      callable_drop = (\<lambda>c x. (Returns (), x(Inl c := Suc (x (Inl c))))),
      runnable_run = (\<lambda>t x. (if t then Unwinds message_payload else Returns (), x)),
      runnable_drop = (\<lambda>t x. (Returns (), x(Inr t := Suc (x (Inr t))))),
      slot_accept = (\<lambda>slot. exec_return ()),
      slot_cancel_unstarted = (\<lambda>slot. exec_return True),
      slot_drop = (\<lambda>slot. exec_return ()),
      runner_run = (\<lambda>f slot. exec_bind (demo_runner f) (\<lambda>_. exec_return True)),
      runner_run_detached = demo_runner\<rparr>"

lemma tally_tasks_count: "counts_task (\<lambda>x. x u) u tally_tasks"
  by (simp add: counts_task_def tasks_weigh_def tally_tasks_def demo_runner_consumes)
    (auto simp: exec_adds_def)

definition demo_task_env :: "((bool, bool, unit) queued_job, demo_tally) environment" where
  "demo_task_env =
     \<lparr>env_jobs = queued_job_methods tally_tasks, env_watch = None,
      env_tracked_cancel = (\<lambda>n. exec_return ())\<rparr>"

definition to_settled :: "(bool, bool, unit) queued_job move list" where
  "to_settled =
     [Call (Admit (CallableJob True ())), Move 0, Move 0, Call (Admit (RunnableJob False)),
      Move 0, Move 0, Move 0, Move 0, Move 0, Move 0, Move 0, Move 0, Move 0, Move 0]"

definition demo_settled :: "((bool, bool, unit) queued_job, demo_tally) system" where
  "demo_settled =
     \<lparr>sys_inner =
        \<lparr>lifecycle = Running, task_capacity = 1, num_threads = 1, next_task_id = 1, running = 0,
         running_tasks = {}, scheduled = 0, queue = [], cancelling = {}\<rparr>,
      sys_ext = (\<lambda>u. 0)(Inr False := 1, Inl True := 1), threads = {#},
      history = [Accepted 0, Started 0, Executed 0, Released 0]\<rparr>"

lemma demo_settled_run:
  "custody_run (\<lambda>u x. x u) demo_task_env ({#}, initial_system 1 1 (\<lambda>u. 0))
     ({#CallableJob True (), RunnableJob False#}, demo_settled)"
proof -
  have "drive demo_task_env to_settled (start_config 1 1 (\<lambda>u. 0)) = Some
      \<lparr>cf_inner = sys_inner demo_settled, cf_ext = sys_ext demo_settled, cf_threads = [],
       cf_history = history demo_settled\<rparr>"
    by (simp add: drive_simps demo_task_env_def to_settled_def demo_settled_def
        queued_job_methods_def tally_tasks_def demo_runner_def safe_task_closure_def safe_task_eq
        callable_job_run_def callable_once_def drop_after_def drop_while_unwinding_def
        del: safe_task.simps)
  from drive_custody [OF this, of "\<lambda>u x. x u" "{#}", unfolded config_start] show ?thesis
    by (simp add: config_system_def to_settled_def demo_settled_def add_mset_commute)
qed

end
