(* ===== verification/Async_Wait.thy ===== *)
theory Async_Wait
  imports Wait_Progress Wakers Channels
begin

text \<open>
  Tasks that \<open>.await\<close> termination beside the system (\<open>await_termination\<close> of
  \<open>src/rayon_executor_service.rs\<close>). The first poll of the future is its subscription, the check of
  the record under the lock with the repair of the channel, and a poll of the receiver
  (\<open>first_poll_parts\<close>). In \<open>async_step\<close> the three are steps of their own, so the service may move
  between them: the check is the thread \<open>SubscribeTermination\<close> of the system, and a caller may even
  poll before it. A poll that is pending parks the caller. Only a write that notifies wakes it: it is
  woken when tokio has put its receiver back to \<open>Unexamined\<close>, and that tokio does exactly when the
  closure it was given reports a modification (\<open>notify_laws\<close>); wake-ups may also be spurious.
  \<open>async_ok\<close> is the invariant, and the interpretation \<open>async_waits\<close> bounds the moves.
\<close>

lemma first_poll_parts:
  "await_termination w subscribe wait_for i AwaitUnresumed waker =
     exec_bind subscribe
       (\<lambda>rx. exec_bind
          (if lifecycle i \<noteq> Running \<and> occupied i = 0
           then notify_async_changes (Some w) False True else exec_return ())
          (\<lambda>_. await_suspended wait_for rx waker))"
  by (auto simp: fun_eq_iff subscribe_termination_def exec_bind_def notify_async_changes_def
      split: prod.split outcome.split)

section \<open>What tokio promises of the receivers\<close>

text \<open>
  The termination channel as its waiters use it: the channel, \<open>subscribe\<close>, the receivers'
  \<open>wait_for\<close>, what a receiver has looked at, and which receivers are those of the crate's futures.
\<close>

record ('rx, 'err, 'ok, 'x) await_api =
  aw_watch :: "'x watch_api"
  aw_subscribe :: "('x, 'rx) exec"
  aw_wait_for :: "'rx \<Rightarrow> (bool \<Rightarrow> bool) \<Rightarrow> ('x, 'err + 'ok) pollable"
  aw_state :: "'rx \<Rightarrow> 'x \<Rightarrow> receiver_state"
  aw_receivers :: "'rx set"

abbreviation aw_value :: "('rx, 'err, 'ok, 'x) await_api \<Rightarrow> 'x \<Rightarrow> bool" where
  "aw_value t \<equiv> termination_value (aw_watch t)"

abbreviation aw_poll ::
  "('rx, 'err, 'ok, 'x) await_api \<Rightarrow> 'rx \<Rightarrow> 'x waker \<Rightarrow> ('x, 'rx await_state \<times> unit poll) exec" where
  "aw_poll t \<equiv> await_suspended (aw_wait_for t)"

text \<open>Code that leaves the channels and the futures' receivers alone.\<close>

definition leaves_waits :: "('rx, 'err, 'ok, 'x) await_api \<Rightarrow> ('x, 'a) exec \<Rightarrow> bool" where
  "leaves_waits t m \<longleftrightarrow>
     leaves_channels (aw_watch t) m \<and> (\<forall>rx \<in> aw_receivers t. exec_keeps (aw_state t rx) m)"

definition same_waits :: "('rx, 'err, 'ok, 'x) await_api \<Rightarrow> 'rx set \<Rightarrow> 'x \<Rightarrow> 'x \<Rightarrow> bool" where
  "same_waits t A x x' \<longleftrightarrow>
     same_channels (Some (aw_watch t)) x x' \<and> (\<forall>rx \<in> A. aw_state t rx x' = aw_state t rx x)"

text \<open>
  Subscribing gives a receiver nobody holds, with a version to look at. A poll is ready with a value
  exactly if the receiver has a version to look at (as it has when it is new, and after a
  notification) and the closure accepts the channel's value; otherwise it is pending and has looked.
  This is a poll outside tokio's cooperative budget, of an open channel: the service holds the sender.
  Neither touches the channels or the receivers of others, unless the waker does.
\<close>

definition wait_for_laws :: "('rx, 'err, 'ok, 'x) await_api \<Rightarrow> bool" where
  "wait_for_laws t \<longleftrightarrow>
     (\<forall>x. \<exists>rx x'. aw_subscribe t x = (Returns rx, x') \<and> rx \<in> aw_receivers t \<and>
        aw_state t rx x = Unused \<and> aw_state t rx x' = Unexamined \<and>
        same_waits t (aw_receivers t - {rx}) x x') \<and>
     (\<forall>rx \<in> aw_receivers t. \<forall>f waker x. aw_state t rx x \<noteq> Unused \<and> leaves_waits t waker \<longrightarrow>
        (\<exists>x'. same_waits t (aw_receivers t - {rx}) x x' \<and>
           (if aw_state t rx x = Unexamined \<and> f (aw_value t x)
            then \<exists>ok. aw_wait_for t rx f waker x = (Returns (PollReady (Inr ok)), x')
            else aw_wait_for t rx f waker x = (Returns PollPending, x') \<and>
              aw_state t rx x' = Examined)))"

text \<open>Senders and receivers are private to the crate: user code leaves both alone.\<close>

definition private_waits :: "('job, 'x) environment \<Rightarrow> ('rx, 'err, 'ok, 'x) await_api \<Rightarrow> bool" where
  "private_waits env t \<longleftrightarrow>
     private_channels env (aw_watch t) \<and> notify_laws (aw_watch t) (aw_state t) \<and>
     (\<forall>job. leaves_waits t (job_accept (env_jobs env) job) \<and>
       leaves_waits t (job_run (env_jobs env) job) \<and>
       leaves_waits t (job_cancel (env_jobs env) job) \<and>
       leaves_waits t (job_drop (env_jobs env) job)) \<and>
     (\<forall>n. leaves_waits t (env_tracked_cancel env n))"

definition async_laws :: "('job, 'x) environment \<Rightarrow> ('rx, 'err, 'ok, 'x) await_api \<Rightarrow> bool" where
  "async_laws env t \<longleftrightarrow> private_waits env t \<and> wait_for_laws t"

lemma private_waitsD:
  assumes "private_waits env t"
  shows "private_channels env (aw_watch t)" and "notify_laws (aw_watch t) (aw_state t)"
    and "env_watch env = Some (aw_watch t)" and "watch_laws (aw_watch t)"
    and "rx \<in> aw_receivers t \<Longrightarrow> exec_keeps (aw_state t rx) (job_accept (env_jobs env) job)"
    and "rx \<in> aw_receivers t \<Longrightarrow> exec_keeps (aw_state t rx) (job_run (env_jobs env) job)"
    and "rx \<in> aw_receivers t \<Longrightarrow> exec_keeps (aw_state t rx) (job_cancel (env_jobs env) job)"
    and "rx \<in> aw_receivers t \<Longrightarrow> exec_keeps (aw_state t rx) (job_drop (env_jobs env) job)"
    and "rx \<in> aw_receivers t \<Longrightarrow> exec_keeps (aw_state t rx) (env_tracked_cancel env n)"
  using assms by (simp_all add: private_waits_def leaves_waits_def private_channels_def)

lemma async_lawsD:
  assumes "async_laws env t"
  shows "private_waits env t" and "wait_for_laws t" and "private_channels env (aw_watch t)"
  using assms by (simp_all add: async_laws_def private_waits_def)

lemma leaves_waits_contain: "leaves_waits t m \<Longrightarrow> leaves_waits t (contain m)"
  by (simp add: leaves_waits_def leaves_channels_def exec_keeps_contain)

lemma subscribe_fresh:
  assumes "wait_for_laws t" and "aw_subscribe t x = (Returns rx, x')"
  shows "rx \<in> aw_receivers t" and "aw_state t rx x = Unused" and "aw_state t rx x' = Unexamined"
    and "same_waits t (aw_receivers t - {rx}) x x'"
proof -
  obtain rx1 x1 where "aw_subscribe t x = (Returns rx1, x1)" "rx1 \<in> aw_receivers t"
    "aw_state t rx1 x = Unused" "aw_state t rx1 x1 = Unexamined"
    "same_waits t (aw_receivers t - {rx1}) x x1"
    using assms(1) unfolding wait_for_laws_def by blast
  with assms(2) show "rx \<in> aw_receivers t" and "aw_state t rx x = Unused"
    and "aw_state t rx x' = Unexamined" and "same_waits t (aw_receivers t - {rx}) x x'"
    by simp_all
qed

section \<open>One poll, one action\<close>

lemma await_poll_cases:
  assumes laws: "wait_for_laws t" and rx: "rx \<in> aw_receivers t" "aw_state t rx x \<noteq> Unused"
    and waker: "leaves_waits t waker"
  obtains (ready) x' where "aw_state t rx x = Unexamined" and "aw_value t x"
      and "same_waits t (aw_receivers t - {rx}) x x'"
      and "aw_poll t rx waker x = (Returns (AwaitReturned, PollReady ()), x')"
  | (pending) x' where "\<not> (aw_state t rx x = Unexamined \<and> aw_value t x)"
      and "aw_state t rx x' = Examined" and "same_waits t (aw_receivers t - {rx}) x x'"
      and "aw_poll t rx waker x = (Returns (AwaitSuspended rx, PollPending), x')"
proof -
  define outer where "outer = aw_wait_for t rx (\<lambda>terminated. terminated) (contain waker)"
  note poll_eq = await_suspended_def await_termination_poll_def isolation_poll_def poll_isolated
    exec_bind_def
  obtain x' where same: "same_waits t (aw_receivers t - {rx}) x x'"
    and res: "if aw_state t rx x = Unexamined \<and> aw_value t x
      then \<exists>ok. outer x = (Returns (PollReady (Inr ok)), x')
      else outer x = (Returns PollPending, x') \<and> aw_state t rx x' = Examined"
    using conjunct2 [OF laws [unfolded wait_for_laws_def], rule_format, OF rx(1),
        of x "contain waker" "\<lambda>terminated. terminated"] rx(2) leaves_waits_contain [OF waker]
    unfolding outer_def by auto
  show thesis
  proof (cases "aw_state t rx x = Unexamined \<and> aw_value t x")
    case True
    with res obtain ok where "outer x = (Returns (PollReady (Inr ok)), x')"
      by auto
    then have "aw_poll t rx waker x = (Returns (AwaitReturned, PollReady ()), x')"
      by (simp add: poll_eq flip: outer_def)
    with True same ready show ?thesis by blast
  next
    case False
    with res have "outer x = (Returns PollPending, x')" and "aw_state t rx x' = Examined"
      by simp_all
    moreover from this have "aw_poll t rx waker x = (Returns (AwaitSuspended rx, PollPending), x')"
      by (simp add: poll_eq flip: outer_def)
    ultimately show ?thesis
      using False same pending by blast
  qed
qed

text \<open>
  An action either leaves the value and the receivers as they are, or it raises the flag; and then
  every receiver in use is notified, because the closure of the crate reports the modification.
\<close>

lemma perform_waits:
  assumes e: "perform env a i x = Some e" and priv: "private_waits env t"
  shows "aw_value t (eff_ext e) = aw_value t x \<and>
      (\<forall>rx \<in> aw_receivers t. aw_state t rx (eff_ext e) = aw_state t rx x) \<or>
    (\<forall>rx \<in> aw_receivers t. aw_state t rx x \<noteq> Unused \<longrightarrow> aw_state t rx (eff_ext e) = Unexamined)"
proof (cases "\<exists>c b. a = Publish c b")
  case True
  then obtain c b r x' where a: "a = Publish c b"
    and n: "notify_async_changes (Some (aw_watch t)) c b x = (r, x')"
    by (metis prod.exhaust)
  note priv' = private_waitsD [OF priv]
  have "eff_ext e = x'"
    using e a n priv'(3) by (auto simp: perform_publish_def split: outcome.splits)
  moreover have "aw_value t x' \<longleftrightarrow> b \<or> aw_value t x"
    using perform_publish_values(1) [OF e [unfolded a] priv'(1)] calculation by simp
  ultimately show ?thesis
    using notify_async_changes_notifies [OF priv'(4,2) n] by auto
next
  case False
  have "aw_state t rx (eff_ext e) = aw_state t rx x" if "rx \<in> aw_receivers t" for rx
    by (rule perform_keeps [OF e False private_waitsD(5-9) [OF priv that]])
  with perform_keeps [OF e False private_channelsD(3-7) [OF private_waitsD(1) [OF priv]]]
  show ?thesis by simp
qed

section \<open>Waiting tasks beside the system\<close>

record ('job, 'x, 'rx) async_system =
  async_service :: "('job, 'x) system"
  unresumed :: nat
  polling :: "'rx set"
  parked :: "'rx set"
  completed :: nat

abbreviation async_ext :: "('job, 'x, 'rx) async_system \<Rightarrow> 'x" where
  "async_ext ws \<equiv> sys_ext (async_service ws)"

text \<open>After an action of the service the receivers it notified are awake.\<close>

definition deliver ::
  "('rx, 'err, 'ok, 'x) await_api \<Rightarrow> ('job, 'x, 'rx) async_system \<Rightarrow> ('job, 'x) system \<Rightarrow>
     ('job, 'x, 'rx) async_system" where
  "deliver t ws s' =
     (let woken = {rx \<in> parked ws. aw_state t rx (sys_ext s') = Unexamined}
      in ws\<lparr>async_service := s', polling := polling ws \<union> woken, parked := parked ws - woken\<rparr>)"

abbreviation at_ext ::
  "('job, 'x, 'rx) async_system \<Rightarrow> 'x \<Rightarrow> ('job, 'x, 'rx) async_system" where
  "at_ext ws x' \<equiv> ws\<lparr>async_service := async_service ws\<lparr>sys_ext := x'\<rparr>\<rparr>"

inductive async_move ::
  "('job, 'x) environment \<Rightarrow> ('rx, 'err, 'ok, 'x) await_api \<Rightarrow>
     ('job, 'x, 'rx) async_system \<Rightarrow> ('job, 'x, 'rx) async_system \<Rightarrow> bool"
  for env :: "('job, 'x) environment" and t :: "('rx, 'err, 'ok, 'x) await_api" where
  service: "internal_step env (async_service ws) b s' \<Longrightarrow> async_move env t ws (deliver t ws s')"
| resume: "unresumed ws = Suc n \<Longrightarrow> aw_subscribe t (async_ext ws) = (Returns rx, x') \<Longrightarrow>
     async_move env t ws
       (ws\<lparr>async_service := async_service ws
             \<lparr>sys_ext := x', threads := add_mset [SubscribeTermination] (threads (async_service ws))\<rparr>,
           unresumed := n, polling := insert rx (polling ws)\<rparr>)"
| ready: "rx \<in> polling ws \<Longrightarrow> leaves_waits t waker \<Longrightarrow>
     aw_poll t rx waker (async_ext ws) = (Returns (AwaitReturned, PollReady ()), x') \<Longrightarrow>
     async_move env t ws
       ((at_ext ws x')\<lparr>polling := polling ws - {rx}, completed := Suc (completed ws)\<rparr>)"
| pending: "rx \<in> polling ws \<Longrightarrow> leaves_waits t waker \<Longrightarrow>
     aw_poll t rx waker (async_ext ws) = (Returns (AwaitSuspended rx', PollPending), x') \<Longrightarrow>
     async_move env t ws
       ((at_ext ws x')\<lparr>polling := polling ws - {rx}, parked := insert rx' (parked ws)\<rparr>)"

text \<open>
  What else may happen: new calls of the service and new callers, spurious wake-ups, futures that are
  dropped, and code outside the crate, which has no access to the receivers of the tasks that wait.
\<close>

inductive async_step ::
  "('job, 'x) environment \<Rightarrow> ('rx, 'err, 'ok, 'x) await_api \<Rightarrow>
     ('job, 'x, 'rx) async_system \<Rightarrow> ('job, 'x, 'rx) async_system \<Rightarrow> bool"
  for env :: "('job, 'x) environment" and t :: "('rx, 'err, 'ok, 'x) await_api" where
  move: "async_move env t ws ws' \<Longrightarrow> async_step env t ws ws'"
| call: "client_action a \<Longrightarrow> handle_exists (sys_inner (async_service ws)) a \<Longrightarrow>
     async_step env t ws
       (ws\<lparr>async_service := async_service ws\<lparr>threads := add_mset [a] (threads (async_service ws))\<rparr>\<rparr>)"
| outside: "same_waits t (polling ws \<union> parked ws) (async_ext ws) x' \<Longrightarrow>
     async_step env t ws (at_ext ws x')"
| enter: "async_step env t ws (ws\<lparr>unresumed := Suc (unresumed ws)\<rparr>)"
| spurious: "rx \<in> parked ws \<Longrightarrow>
     async_step env t ws (ws\<lparr>polling := insert rx (polling ws), parked := parked ws - {rx}\<rparr>)"
| dropped_unresumed: "unresumed ws = Suc n \<Longrightarrow> async_step env t ws (ws\<lparr>unresumed := n\<rparr>)"
| dropped_awake: "async_step env t ws (ws\<lparr>polling := polling ws - {rx}\<rparr>)"
| dropped_parked: "async_step env t ws (ws\<lparr>parked := parked ws - {rx}\<rparr>)"

inductive_cases async_moveE: "async_move env t ws ws'"

definition async_initial :: "('job, 'x) system \<Rightarrow> ('job, 'x, 'rx) async_system" where
  "async_initial s =
     \<lparr>async_service = s, unresumed = 0, polling = {}, parked = {}, completed = 0\<rparr>"

text \<open>
  The waiters: each holds a receiver of its own; who is parked has looked at everything there is; and
  once the flag is up nobody has looked at it yet.
\<close>

definition waiters_ok ::
  "('rx, 'err, 'ok, 'x) await_api \<Rightarrow> 'rx set \<Rightarrow> 'rx set \<Rightarrow> 'x \<Rightarrow> bool" where
  "waiters_ok t P K x \<longleftrightarrow>
     finite P \<and> finite K \<and> P \<inter> K = {} \<and> P \<union> K \<subseteq> aw_receivers t \<and>
     (\<forall>rx \<in> P \<union> K. aw_state t rx x \<noteq> Unused) \<and> (\<forall>rx \<in> K. aw_state t rx x = Examined) \<and>
     (aw_value t x \<longrightarrow> (\<forall>rx \<in> P \<union> K. aw_state t rx x = Unexamined))"

definition async_ok :: "('rx, 'err, 'ok, 'x) await_api \<Rightarrow> ('job, 'x, 'rx) async_system \<Rightarrow> bool" where
  "async_ok t ws \<longleftrightarrow>
     sys_ok (async_service ws) \<and> chan_ok (aw_watch t) (async_service ws) \<and>
     waiters_ok t (polling ws) (parked ws) (async_ext ws) \<and>
     (completed ws \<noteq> 0 \<longrightarrow> drained (sys_inner (async_service ws)))"

lemma async_okD:
  assumes "async_ok t ws"
  shows "sys_ok (async_service ws)" and "chan_ok (aw_watch t) (async_service ws)"
    and "waiters_ok t (polling ws) (parked ws) (async_ext ws)"
    and "completed ws \<noteq> 0 \<Longrightarrow> drained (sys_inner (async_service ws))"
  using assms by (simp_all add: async_ok_def)

text \<open>Nobody is parked once the flag is up.\<close>

lemma parked_flag_down: "waiters_ok t P K x \<Longrightarrow> K \<noteq> {} \<Longrightarrow> \<not> aw_value t x"
  by (auto simp: waiters_ok_def)

lemma deliver_simps [simp]:
  "async_service (deliver t ws s') = s'" "unresumed (deliver t ws s') = unresumed ws"
  "completed (deliver t ws s') = completed ws"
  by (simp_all add: deliver_def Let_def)

lemma waiters_ok_same:
  assumes "waiters_ok t P K x" and "same_waits t (P \<union> K) x x'"
  shows "waiters_ok t P K x'"
  using assms by (auto simp: waiters_ok_def same_waits_def same_channels_def)

lemma waiters_ok_deliver:
  assumes ok: "waiters_ok t (polling ws) (parked ws) (async_ext ws)"
    and "aw_value t (sys_ext s') = aw_value t (async_ext ws) \<and>
        (\<forall>rx \<in> aw_receivers t. aw_state t rx (sys_ext s') = aw_state t rx (async_ext ws)) \<or>
      (\<forall>rx \<in> aw_receivers t. aw_state t rx (async_ext ws) \<noteq> Unused \<longrightarrow>
        aw_state t rx (sys_ext s') = Unexamined)"
  shows "waiters_ok t (polling (deliver t ws s')) (parked (deliver t ws s')) (sys_ext s')"
  using assms(2)
proof
  assume "aw_value t (sys_ext s') = aw_value t (async_ext ws) \<and>
    (\<forall>rx \<in> aw_receivers t. aw_state t rx (sys_ext s') = aw_state t rx (async_ext ws))"
  with ok show ?thesis
    by (auto simp: waiters_ok_def deliver_def Let_def)
next
  assume "\<forall>rx \<in> aw_receivers t. aw_state t rx (async_ext ws) \<noteq> Unused \<longrightarrow>
    aw_state t rx (sys_ext s') = Unexamined"
  with ok have "\<forall>rx \<in> polling ws \<union> parked ws. aw_state t rx (sys_ext s') = Unexamined"
    by (auto simp: waiters_ok_def)
  moreover from this have "{rx \<in> parked ws. aw_state t rx (sys_ext s') = Unexamined} = parked ws"
    by blast
  ultimately show ?thesis
    using ok by (auto simp: waiters_ok_def deliver_def Let_def)
qed

section \<open>The invariant\<close>

text \<open>The service's part of a step.\<close>

lemma async_service_ok:
  assumes priv: "private_waits env t" and ok: "async_ok t ws"
    and step: "system_step env (async_service ws) b s'"
    and "waiters_ok t (polling ws') (parked ws') (sys_ext s')" and "async_service ws' = s'"
    and "completed ws' = completed ws"
  shows "async_ok t ws'"
proof -
  have "private_channels env (aw_watch t) \<and> sys_ok (async_service ws) \<and>
      chan_ok (aw_watch t) (async_service ws)"
    using private_waitsD(1) [OF priv] ok by (simp add: async_ok_def)
  from chan.step_inv [OF this step] step_drained [OF async_okD(1) [OF ok] step] ok assms(4-) show ?thesis
    by (auto simp: async_ok_def)
qed

lemma internal_waits:
  assumes "internal_step env s b s'" and "private_waits env t"
  shows "aw_value t (sys_ext s') = aw_value t (sys_ext s) \<and>
      (\<forall>rx \<in> aw_receivers t. aw_state t rx (sys_ext s') = aw_state t rx (sys_ext s)) \<or>
    (\<forall>rx \<in> aw_receivers t. aw_state t rx (sys_ext s) \<noteq> Unused \<longrightarrow>
      aw_state t rx (sys_ext s') = Unexamined)"
  using assms(1)
proof (cases rule: internal_step.cases)
  case (act a rest others e)
  then show ?thesis
    using perform_waits [OF act(4) assms(2)] by (simp add: apply_effect_def)
qed simp

lemma at_ext_step:
  "env_watch env = Some w \<Longrightarrow> same_channels (Some w) (sys_ext s) x' \<Longrightarrow>
     system_step env s False (s\<lparr>sys_ext := x'\<rparr>)"
  by (auto intro: system_step.outside)

lemma async_ok_at_ext:
  fixes env :: "('job, 'x) environment" and ws :: "('job, 'x, 'rx) async_system"
  assumes priv: "private_waits env t" and ok: "async_ok t ws"
    and same: "same_channels (Some (aw_watch t)) (async_ext ws) x'"
    and waiters: "waiters_ok t P K x'"
  shows "async_ok t ((at_ext ws x')\<lparr>polling := P, parked := K\<rparr>)"
  by (rule async_service_ok [OF priv ok at_ext_step [OF private_waitsD(3) [OF priv] same]])
    (simp_all add: waiters)

lemma async_ok_call:
  fixes env :: "('job, 'x) environment" and ws :: "('job, 'x, 'rx) async_system"
  assumes priv: "private_waits env t" and ok: "async_ok t ws"
    and "client_action a" and "handle_exists (sys_inner (async_service ws)) a"
  shows "async_ok t
    (ws\<lparr>async_service := async_service ws\<lparr>threads := add_mset [a] (threads (async_service ws))\<rparr>\<rparr>)"
  by (rule async_service_ok [OF priv ok system_step.call [OF assms(3,4)]])
    (use ok in \<open>simp_all add: async_ok_def\<close>)

text \<open>A new receiver joins those that are polled.\<close>

lemma waiters_ok_subscribe:
  assumes laws: "wait_for_laws t" and ok: "waiters_ok t P K x"
    and sub: "aw_subscribe t x = (Returns rx, x')"
  shows "waiters_ok t (insert rx P) K x'" and "rx \<notin> P \<union> K"
proof -
  note fresh = subscribe_fresh [OF laws sub]
  show new: "rx \<notin> P \<union> K"
    using ok fresh(2) by (auto simp: waiters_ok_def)
  then have "same_waits t (P \<union> K) x x'"
    using ok fresh(4) by (auto simp: waiters_ok_def same_waits_def)
  from waiters_ok_same [OF ok this] new fresh(1,3) show "waiters_ok t (insert rx P) K x'"
    by (auto simp: waiters_ok_def)
qed

text \<open>The poll of a waiter, and where it leaves the waiters.\<close>

lemma waiter_poll:
  assumes laws: "wait_for_laws t" and ok: "waiters_ok t P K x" and rx: "rx \<in> P"
    and waker: "leaves_waits t waker"
  obtains (ready) x' where "aw_value t x" and "same_channels (Some (aw_watch t)) x x'"
      and "waiters_ok t (P - {rx}) K x'"
      and "aw_poll t rx waker x = (Returns (AwaitReturned, PollReady ()), x')"
  | (pending) x' where "\<not> aw_value t x" and "same_channels (Some (aw_watch t)) x x'"
      and "waiters_ok t (P - {rx}) (insert rx K) x'"
      and "aw_poll t rx waker x = (Returns (AwaitSuspended rx, PollPending), x')"
proof -
  have inR: "rx \<in> aw_receivers t" "aw_state t rx x \<noteq> Unused"
    using ok rx by (auto simp: waiters_ok_def)
  have others: "same_channels (Some (aw_watch t)) x x'" "waiters_ok t (P - {rx}) K x'"
    if "same_waits t (aw_receivers t - {rx}) x x'" for x'
  proof -
    show "same_channels (Some (aw_watch t)) x x'"
      using that by (simp add: same_waits_def)
    have "waiters_ok t (P - {rx}) K x"
      using ok by (auto simp: waiters_ok_def)
    moreover have "same_waits t (P - {rx} \<union> K) x x'"
      using that ok rx by (auto simp: waiters_ok_def same_waits_def)
    ultimately show "waiters_ok t (P - {rx}) K x'"
      by (rule waiters_ok_same)
  qed
  show thesis
  proof (rule await_poll_cases [OF laws inR waker])
    fix x'
    assume "aw_state t rx x = Unexamined" and "aw_value t x"
      and "same_waits t (aw_receivers t - {rx}) x x'"
      and "aw_poll t rx waker x = (Returns (AwaitReturned, PollReady ()), x')"
    with others ready show thesis by blast
  next
    fix x'
    assume none: "\<not> (aw_state t rx x = Unexamined \<and> aw_value t x)"
      and looked: "aw_state t rx x' = Examined" and same: "same_waits t (aw_receivers t - {rx}) x x'"
      and poll: "aw_poll t rx waker x = (Returns (AwaitSuspended rx, PollPending), x')"
    have down: "\<not> aw_value t x"
      using none ok rx by (auto simp: waiters_ok_def)
    moreover have "\<not> aw_value t x'"
      using down others(1) [OF same] by (simp add: same_channels_def)
    then have "waiters_ok t (P - {rx}) (insert rx K) x'"
      using others(2) [OF same] looked inR(1) by (auto simp: waiters_ok_def)
    ultimately show thesis
      using pending others(1) [OF same] poll by blast
  qed
qed

lemma async_move_ok:
  assumes laws: "async_laws env t" and ok: "async_ok t ws" and m: "async_move env t ws ws'"
  shows "async_ok t ws'"
proof -
  note priv = async_lawsD(1) [OF laws] and wait = async_lawsD(2) [OF laws]
  note waiters = async_okD(3) [OF ok]
  from m show ?thesis
  proof (cases rule: async_move.cases)
    case (service b s')
    note deliver = waiters_ok_deliver [OF waiters internal_waits [OF service(2) priv]]
    show ?thesis
      unfolding service(1)
      by (rule async_service_ok [OF priv ok system_step.internal [OF service(2)] deliver]) simp_all
  next
    case (resume n rx x')
    note fresh = waiters_ok_subscribe [OF wait waiters resume(3)] subscribe_fresh [OF wait resume(3)]
    have "same_channels (Some (aw_watch t)) (async_ext ws) x'"
      using fresh(6) by (simp add: same_waits_def)
    from async_ok_call [OF priv async_ok_at_ext [OF priv ok this fresh(1)], of SubscribeTermination]
    show ?thesis
      by (simp add: resume(1) async_ok_def)
  next
    case (ready rx waker x')
    show ?thesis
    proof (rule waiter_poll [OF wait waiters ready(2,3)])
      fix x1
      assume "aw_value t (async_ext ws)" "same_channels (Some (aw_watch t)) (async_ext ws) x1"
        "waiters_ok t (polling ws - {rx}) (parked ws) x1"
        "aw_poll t rx waker (async_ext ws) = (Returns (AwaitReturned, PollReady ()), x1)"
      with async_ok_at_ext [OF priv ok this(2,3)] ready(1,4) async_okD(2) [OF ok] show ?thesis
        by (auto simp: async_ok_def chan_ok_def)
    qed (use ready(4) in simp)
  next
    case (pending rx waker rx' x')
    show ?thesis
    proof (rule waiter_poll [OF wait waiters pending(2,3)])
      fix x1
      assume "same_channels (Some (aw_watch t)) (async_ext ws) x1"
        "waiters_ok t (polling ws - {rx}) (insert rx (parked ws)) x1"
        "aw_poll t rx waker (async_ext ws) = (Returns (AwaitSuspended rx, PollPending), x1)"
      with async_ok_at_ext [OF priv ok this(1,2)] pending(1,4) show ?thesis
        by simp
    qed (use pending(4) in simp)
  qed
qed

lemma async_step_ok:
  assumes laws: "async_laws env t" and ok: "async_ok t ws" and step: "async_step env t ws ws'"
  shows "async_ok t ws'"
  using step
proof (cases rule: async_step.cases)
  case move
  with laws ok show ?thesis by (blast intro: async_move_ok)
next
  case (call a)
  from async_ok_call [OF async_lawsD(1) [OF laws] ok call(2,3)] call(1) show ?thesis by simp
next
  case (outside x')
  from async_ok_at_ext [OF async_lawsD(1) [OF laws] ok _ waiters_ok_same [OF async_okD(3) [OF ok] outside(2)]]
    outside show ?thesis
    by (simp add: same_waits_def)
qed (use ok in \<open>auto simp: async_ok_def waiters_ok_def\<close>)

lemma async_ok_initial:
  fixes env :: "('job, 'x) environment"
  assumes "private_channels env (aw_watch t)" and "\<not> aw_value t x"
  shows "async_ok t (async_initial (initial_system capacity workers x :: ('job, 'x) system))"
  using reachable_chan_ok [OF assms reachable.initial]
  by (simp add: async_ok_def async_initial_def sys_ok_initial waiters_ok_def)

interpretation async: invariant_system
  "\<lambda>ws. async_laws env t \<and>
     (\<exists>capacity workers x. \<not> aw_value t x \<and> ws = async_initial (initial_system capacity workers x))"
  "\<lambda>ws (l :: unit) ws'. async_step env t ws ws'" "\<lambda>ws. async_laws env t \<and> async_ok t ws"
  for env t
proof (unfold_locales, goal_cases)
  case (1 ws)
  then show ?case
    using async_ok_initial [OF async_lawsD(3), of env t] by auto
next
  case (2 ws l ws')
  then show ?case
    by (blast intro: async_step_ok)
qed

definition async_reachable ::
  "('job, 'x) environment \<Rightarrow> ('rx, 'err, 'ok, 'x) await_api \<Rightarrow>
     ('job, 'x, 'rx) async_system \<Rightarrow> ('job, 'x, 'rx) async_system \<Rightarrow> bool" where
  "async_reachable env t = (async_step env t)\<^sup>*\<^sup>*"

text \<open>Seen without the waiting tasks, the system is the service.\<close>

lemma async_step_seen:
  assumes laws: "async_laws env t" and ok: "async_ok t ws" and step: "async_step env t ws ws'"
  shows "reachable env (async_service ws) (async_service ws')"
proof -
  note wait = async_lawsD(2) [OF laws] and waiters = async_okD(3) [OF ok]
  have outside: "reachable env (async_service ws) (async_service (at_ext ws x'))"
    if "same_channels (Some (aw_watch t)) (async_ext ws) x'" for x'
    using step_reachable [OF at_ext_step [OF private_waitsD(3) [OF async_lawsD(1) [OF laws]] that]]
    by simp
  from step show ?thesis
  proof (cases rule: async_step.cases)
    case move
    then show ?thesis
    proof (cases rule: async_move.cases)
      case (service b s')
      then show ?thesis
        by (auto intro: step_reachable system_step.internal)
    next
      case (resume n rx x')
      have "same_channels (Some (aw_watch t)) (async_ext ws) x'"
        using subscribe_fresh(4) [OF wait resume(3)] by (simp add: same_waits_def)
      from reachable.step [OF outside [OF this] system_step.call [of SubscribeTermination]] resume(1)
      show ?thesis
        by simp
    next
      case (ready rx waker x')
      show ?thesis
        by (rule waiter_poll [OF wait waiters ready(2,3)]) (use outside ready(1,4) in auto)
    next
      case (pending rx waker rx' x')
      show ?thesis
        by (rule waiter_poll [OF wait waiters pending(2,3)]) (use outside pending(1,4) in auto)
    qed
  next
    case (call a)
    then show ?thesis
      using step_reachable [OF system_step.call [OF call(2,3)]] by simp
  next
    case (outside x')
    then show ?thesis
      using \<open>\<And>x'. same_channels (Some (aw_watch t)) (async_ext ws) x' \<Longrightarrow>
        reachable env (async_service ws) (async_service (at_ext ws x'))\<close> by (simp add: same_waits_def)
  qed (simp_all add: reachable.initial)
qed

interpretation async_seen: simulation_system
  "\<lambda>ws. async_laws env t \<and>
     (\<exists>capacity workers x. \<not> aw_value t x \<and> ws = async_initial (initial_system capacity workers x))"
  "\<lambda>ws (l :: unit) ws'. async_step env t ws ws'" "\<lambda>ws. async_laws env t \<and> async_ok t ws"
  async_service "reachable env"
  for env t
proof (unfold_locales, goal_cases)
  case (1 ws l ws')
  then show ?case
    by (intro r_into_rtranclp async_step_seen) auto
qed

lemma async_reachable_seen:
  assumes "async_laws env t" and "\<not> aw_value t x"
    and "async_reachable env t (async_initial (initial_system capacity workers x)) ws"
  shows "async_ok t ws" and "reachable env (initial_system capacity workers x) (async_service ws)"
proof -
  note start = conjI [OF assms(1) async_ok_initial [OF async_lawsD(3) [OF assms(1)] assms(2)]]
  have "(\<lambda>ws ws'. \<exists>l :: unit. async_step env t ws ws')\<^sup>*\<^sup>*
      (async_initial (initial_system capacity workers x)) ws"
    using assms(3) by (simp add: async_reachable_def)
  note seen = async_seen.run_seen [OF this start]
  then show "async_ok t ws"
    by blast
  from seen seen_reachable show "reachable env (initial_system capacity workers x) (async_service ws)"
    by (fastforce simp: async_initial_def)
qed

lemmas async_reachable_ok = async_reachable_seen(1)
lemmas async_service_reachable = async_reachable_seen(2)

section \<open>The waits complete\<close>

definition async_callers :: "('job, 'x, 'rx) async_system \<Rightarrow> nat" where
  "async_callers ws = unresumed ws + (card (polling ws) + card (parked ws))"

definition async_potential :: "('job, 'x, 'rx) async_system \<Rightarrow> nat" where
  "async_potential ws =
     (potential (async_service ws) + 4 * unresumed ws) * Suc (async_callers ws) + card (polling ws)"

lemma async_callers_deliver:
  assumes "waiters_ok t (polling ws) (parked ws) x"
  shows "async_callers (deliver t ws s') = async_callers ws"
proof -
  define woken where "woken = {rx \<in> parked ws. aw_state t rx (sys_ext s') = Unexamined}"
  have fin: "finite (polling ws)" "finite (parked ws)" and "woken \<subseteq> parked ws"
    and "polling ws \<inter> woken = {}"
    using assms by (auto simp: waiters_ok_def woken_def)
  then have "card (polling ws \<union> woken) = card (polling ws) + card woken"
    and "card (parked ws - woken) + card woken = card (parked ws)"
    using finite_subset [of woken "parked ws"] card_mono [of "parked ws" woken]
    by (simp_all add: card_Un_disjoint card_Diff_subset)
  then show ?thesis
    by (simp add: async_callers_def deliver_def Let_def flip: woken_def)
qed

lemma polling_callers: "card (polling ws) \<le> async_callers ws"
  by (simp add: async_callers_def)

lemma potential_ext [simp]: "potential (s\<lparr>sys_ext := x'\<rparr>) = potential s"
  by (simp add: potential_def)

lemma potential_subscription:
  "potential (s\<lparr>sys_ext := x', threads := add_mset [SubscribeTermination] (threads s)\<rparr>) =
     3 + potential s"
  by (simp add: potential_def thread_weight_def)

text \<open>What a poll does to the number of callers.\<close>

lemma waiters_card:
  assumes "waiters_ok t P K x" and "rx \<in> P"
  shows "Suc (card (P - {rx})) = card P" and "card (insert rx K) = Suc (card K)"
proof -
  have "finite P" "finite K" "rx \<notin> K"
    using assms by (auto simp: waiters_ok_def)
  with assms(2) show "Suc (card (P - {rx})) = card P" and "card (insert rx K) = Suc (card K)"
    using card_Suc_Diff1 [of P rx] by simp_all
qed

lemma async_move_decreases:
  assumes laws: "async_laws env t" and ok: "async_ok t ws" and m: "async_move env t ws ws'"
  shows "async_potential ws' < async_potential ws"
proof -
  note wait = async_lawsD(2) [OF laws] and waiters = async_okD(3) [OF ok]
  note fewer = potential_drop [of _ _ "card (polling ws')" "async_callers ws" "card (polling ws)"]
  from m show ?thesis
  proof (cases rule: async_move.cases)
    case (service b s')
    have "potential s' < potential (async_service ws)"
      by (rule internal_decreases [OF async_okD(1) [OF ok] service(2)])
    then have less: "potential s' + 4 * unresumed ws < potential (async_service ws) + 4 * unresumed ws"
      by simp
    note callers = async_callers_deliver [OF waiters, of s']
    from fewer [OF less] polling_callers [of ws'] show ?thesis
      by (simp add: service(1) async_potential_def callers)
  next
    case (resume n rx x')
    note new = waiters_ok_subscribe [OF wait waiters resume(3)]
    have "card (insert rx (polling ws)) = Suc (card (polling ws))"
      using new waiters by (simp add: waiters_ok_def)
    moreover have "potential (async_service ws) + 3 + 4 * n <
        potential (async_service ws) + 4 * unresumed ws"
      using resume(2) by simp
    from fewer [OF this] have "card (polling ws') \<le> async_callers ws \<Longrightarrow>
      (potential (async_service ws) + 3 + 4 * n) * Suc (async_callers ws) + card (polling ws') <
      async_potential ws"
      by (simp add: async_potential_def)
    ultimately show ?thesis
      using resume(1,2)
      by (simp add: async_potential_def async_callers_def potential_subscription add.commute
          [of 3 "potential (async_service ws)"])
  next
    case (ready rx waker x')
    note counts = waiters_card [OF waiters ready(2), symmetric]
    show ?thesis
      by (simp add: ready(1) async_potential_def async_callers_def counts(1))
  next
    case (pending rx waker rx' x')
    note counts = waiters_card [OF waiters pending(2)]
    have "rx' = rx"
      by (rule waiter_poll [OF wait waiters pending(2,3)]) (use pending(4) in auto)
    then show ?thesis
      by (simp add: pending(1) async_potential_def async_callers_def counts(2) flip: counts(1))
  qed
qed

lemma async_move_exists:
  assumes laws: "async_laws env t" and ok: "async_ok t ws" and env: "env_ok env"
    and busy: "threads (async_service ws) \<noteq> {#} \<or> unresumed ws \<noteq> 0 \<or> polling ws \<noteq> {}"
  shows "\<exists>ws'. async_move env t ws ws'"
proof -
  note wait = async_lawsD(2) [OF laws] and waiters = async_okD(3) [OF ok]
  consider "threads (async_service ws) \<noteq> {#}" | n where "unresumed ws = Suc n"
    | rx where "rx \<in> polling ws"
    using busy by (metis equals0I not0_implies_Suc)
  then show ?thesis
  proof cases
    case 1
    with internal_enabled [OF env] show ?thesis
      by (blast intro: async_move.service)
  next
    case 2
    with wait show ?thesis
      unfolding wait_for_laws_def by (blast intro: async_move.resume)
  next
    case 3
    have waker: "leaves_waits t (exec_return ())"
      by (simp add: leaves_waits_def leaves_channels_def exec_keeps_def)
    show ?thesis
      by (rule waiter_poll [OF wait waiters 3 waker];
          blast intro: async_move.ready [OF 3 waker] async_move.pending [OF 3 waker])
  qed
qed

interpretation async_waits: progress_system
  "\<lambda>ws. env_ok env \<and> async_laws env t \<and>
     (\<exists>capacity workers x. \<not> aw_value t x \<and> ws = async_initial (initial_system capacity workers x))"
  "\<lambda>ws (l :: unit) ws'. async_step env t ws ws'"
  "\<lambda>ws. env_ok env \<and> async_laws env t \<and> async_ok t ws"
  "\<lambda>ws l ws'. async_move env t ws ws'" async_potential
  "\<lambda>ws. threads (async_service ws) = {#} \<and> unresumed ws = 0 \<and> polling ws = {}"
  for env t
proof (unfold_locales, goal_cases)
  case (1 ws)
  then have "async_laws env t \<and> async_ok t ws"
    by (intro async.start_inv) blast
  with 1 show ?case
    by simp
next
  case (2 ws l ws')
  then show ?case
    by (blast intro: async_step_ok)
next
  case (3 ws l ws')
  then show ?case by (rule async_step.move)
next
  case (4 ws l ws')
  then show ?case
    by (blast intro: async_move_decreases)
next
  case (5 ws)
  then show ?case
    using async_move_exists [of env t ws] by auto
qed

definition async_run ::
  "('job, 'x) environment \<Rightarrow> ('rx, 'err, 'ok, 'x) await_api \<Rightarrow>
     ('job, 'x, 'rx) async_system \<Rightarrow> ('job, 'x, 'rx) async_system \<Rightarrow> bool" where
  "async_run env t = (async_move env t)\<^sup>*\<^sup>*"

lemma async_run_reachable:
  "async_reachable env t w0 ws \<Longrightarrow> async_run env t ws ws' \<Longrightarrow> async_reachable env t w0 ws'"
  unfolding async_reachable_def async_run_def
  by (erule rtranclp_trans) (rule rtranclp_mono [THEN predicate2D]; auto intro: async_step.move)

lemma async_move_keeps:
  assumes laws: "async_laws env t" and ok: "async_ok t ws" and m: "async_move env t ws ws'"
    and raw: "lifecycle (sys_inner (async_service ws)) \<noteq> Terminated"
  shows "async_callers ws' + completed ws' = async_callers ws + completed ws \<and>
    lifecycle (sys_inner (async_service ws)) \<le> lifecycle (sys_inner (async_service ws'))"
proof -
  note wait = async_lawsD(2) [OF laws] and waiters = async_okD(3) [OF ok]
  from m show ?thesis
  proof (cases rule: async_move.cases)
    case (service b s')
    with step_frame [OF system_step.internal [OF service(2)]] raw async_callers_deliver [OF waiters]
    show ?thesis by simp
  next
    case (resume n rx x')
    with waiters_ok_subscribe [OF wait waiters resume(3)] show ?thesis
      by (simp add: async_callers_def waiters_ok_def)
  next
    case (ready rx waker x')
    with waiters_card(1) [OF waiters ready(2)] show ?thesis
      by (simp add: async_callers_def)
  next
    case (pending rx waker rx' x')
    have "rx' = rx"
      by (rule waiter_poll [OF wait waiters pending(2,3)]) (use pending(4) in auto)
    with pending(1) waiters_card [OF waiters pending(2)] show ?thesis
      by (simp add: async_callers_def)
  qed
qed

lemma async_run_keeps:
  assumes laws: "async_laws env t" and init: "\<not> aw_value t x"
    and reach: "async_reachable env t (async_initial (initial_system capacity workers x)) ws"
    and run: "async_run env t ws ws'"
  shows "async_callers ws' + completed ws' = async_callers ws + completed ws \<and>
    lifecycle (sys_inner (async_service ws)) \<le> lifecycle (sys_inner (async_service ws'))"
  using run unfolding async_run_def
proof (induction rule: rtranclp_induct)
  case base
  then show ?case by simp
next
  case (step ws1 ws2)
  have "async_reachable env t (async_initial (initial_system capacity workers x)) ws1"
    using async_run_reachable [OF reach] step.hyps(1) by (simp add: async_run_def)
  note seen = async_reachable_seen [OF laws init this]
  from async_move_keeps [OF laws seen(1) step.hyps(2) reachable_config(3) [OF seen(2)]] step.IH
  show ?case
    by auto
qed

text \<open>Where a maximal run of moves ends.\<close>

lemma stuck_async_waits:
  assumes laws: "async_laws env t" and env: "env_ok env"
    and workers: "workers \<noteq> 0" and init: "\<not> aw_value t x"
    and reach: "async_reachable env t (async_initial (initial_system capacity workers x)) ws"
    and run: "async_run env t ws ws'" and stuck: "\<nexists>ws''. async_move env t ws' ws''"
  shows "unresumed ws' = 0 \<and> polling ws' = {} \<and>
    card (parked ws') + completed ws' = async_callers ws + completed ws \<and>
    (lifecycle (sys_inner (async_service ws)) \<noteq> Running \<longrightarrow> parked ws' = {})"
proof -
  note reach' = async_run_reachable [OF reach run]
  note kept = async_run_keeps [OF laws init reach run]
  note ok = async_reachable_ok [OF laws init reach']
  have idle: "threads (async_service ws') = {#}" and none: "unresumed ws' = 0" "polling ws' = {}"
    using async_move_exists [OF laws ok env] stuck by blast+
  have "num_threads (sys_inner (async_service ws')) \<noteq> 0"
    using reachable_config(2) [OF async_service_reachable [OF laws init reach']] workers by simp
  note empty = idle_system_empty [OF async_okD(1) [OF ok] idle this]
  have "parked ws' = {}" if "lifecycle (sys_inner (async_service ws)) \<noteq> Running"
  proof -
    have "lifecycle (sys_inner (async_service ws')) \<noteq> Running"
      using kept that by auto
    with empty ok have "drained (sys_inner (async_service ws'))"
      by (simp add: drained_iff sys_ok_def async_ok_def)
    with async_okD(2) [OF ok] idle have "aw_value t (async_ext ws')"
      by (auto simp: chan_ok_def)
    with parked_flag_down [OF async_okD(3) [OF ok]] show ?thesis
      by blast
  qed
  with none kept show ?thesis
    by (simp add: async_callers_def)
qed

lemma async_moves_bounded:
  assumes "async_laws env t" and "env_ok env" and "async_ok t ws"
    and "(async_move env t ^^ n) ws ws'"
  shows "n \<le> async_potential ws"
  using async_waits.moves_bounded [of n env t ws ws'] assms by simp

lemma async_run_exists:
  assumes laws: "async_laws env t" and "env_ok env" and "async_ok t ws"
  shows "\<exists>ws'. async_run env t ws ws' \<and> (\<nexists>ws''. async_move env t ws' ws'')"
proof -
  have "async_run env t = (\<lambda>ws ws'. \<exists>l :: unit. async_move env t ws ws')\<^sup>*\<^sup>*"
    by (simp add: async_run_def)
  with async_waits.reaches_final [of env t ws] assms obtain ws'
    where "async_run env t ws ws'"
    and "threads (async_service ws') = {#}" "unresumed ws' = 0" "polling ws' = {}"
    by auto
  moreover from this have "\<nexists>ws''. async_move env t ws' ws''"
    by (auto elim!: async_moveE internal_stepE)
  ultimately show ?thesis
    by blast
qed

text \<open>Every run of the service is one beside no waiting task.\<close>

lemma deliver_initial: "deliver t (async_initial s) s' = async_initial s'"
  by (simp add: deliver_def async_initial_def)

lemma reachable_without_waiting:
  assumes "env_watch env = Some (aw_watch t)" and "reachable env s0 s"
  shows "async_reachable env t (async_initial s0) (async_initial s)"
  using assms(2)
proof (induction rule: reachable.induct)
  case initial
  show ?case by (simp add: async_reachable_def)
next
  case (step s b s')
  from step.hyps(2) have "async_step env t (async_initial s) (async_initial s')"
  proof (cases rule: system_step.cases)
    case internal
    then show ?thesis
      using async_step.move [OF async_move.service [of env "async_initial s" b s' t]]
      by (simp add: deliver_initial) (simp add: async_initial_def)
  next
    case (call a)
    then show ?thesis
      using async_step.call [of a "async_initial s" env t] by (simp add: async_initial_def)
  next
    case (outside x')
    then show ?thesis
      using async_step.outside [of t "async_initial s" x' env] assms(1)
      by (simp add: async_initial_def same_waits_def)
  qed
  with step.IH show ?case
    by (simp add: async_reachable_def)
qed

end
