(* ===== verification/Backpressure.thy ===== *)
theory Backpressure
  imports Capacity_Account Wakers
begin

text \<open>
  Clients that wait for capacity, beside the system: the protocol the documentation of
  \<open>CapacityChanges\<close> (\<open>src/capacity_changes.rs\<close>, \<open>src/rayon_executor_service.rs\<close>) prescribes. A
  client subscribes, submits, and when it is refused because the service is saturated it polls
  \<open>changed\<close>, parks while nothing has changed, and submits again when something has. The code is
  \<open>capacity_changes\<close>, \<open>admit\<close> and \<open>changed_poll\<close>; what tokio promises of a receiver is
  \<open>receiver_laws\<close>. \<open>signal_ok\<close> is the invariant that rules out a lost signal.
\<close>

section \<open>What tokio promises of the receivers\<close>

text \<open>Code that leaves the channels and the receivers \<open>R\<close> of the waiting clients alone.\<close>

definition leaves_receivers ::
  "'x watch_api \<Rightarrow> ('rx, 'err, 'x) receiver_api \<Rightarrow> 'rx capacity_changes set \<Rightarrow> ('x, 'a) exec \<Rightarrow> bool"
  where
  "leaves_receivers w api R m \<longleftrightarrow>
     leaves_channels w m \<and> (\<forall>cc \<in> R. exec_keeps (has_changed api cc) m)"

definition same_receivers ::
  "('rx, 'err, 'x) receiver_api \<Rightarrow> 'rx capacity_changes set \<Rightarrow> 'x \<Rightarrow> 'x \<Rightarrow> bool" where
  "same_receivers api R x x' \<longleftrightarrow> (\<forall>cc \<in> R. has_changed api cc x' = has_changed api cc x)"

text \<open>
  A write to the capacity channel is news for every receiver; the termination channel does not touch
  them. A poll of \<open>changed\<close> (outside tokio's cooperative budget) is ready if there is news, which it
  takes from its own receiver only, and pending if there is none; on a closed channel, where
  \<open>has_changed\<close> is an error, it is ready with the value it has not seen yet or with an error.
\<close>

definition receiver_laws ::
  "'x watch_api \<Rightarrow> ('rx, 'err, 'x) receiver_api \<Rightarrow> 'rx capacity_changes set \<Rightarrow> bool" where
  "receiver_laws w api R \<longleftrightarrow>
     (\<forall>cc \<in> R. \<forall>f x. has_changed api cc (snd (capacity_send_modify w f x)) = Inr True) \<and>
     (\<forall>cc \<in> R. \<forall>f x p x'. fst (capacity_send_modify w f x) = Unwinds p \<longrightarrow>
        has_changed api cc (snd (drop_payload p x')) = has_changed api cc x') \<and>
     (\<forall>cc \<in> R. \<forall>f. exec_keeps (has_changed api cc) (termination_send_if_modified w f)) \<and>
     (\<forall>cc \<in> R. \<forall>waker x. leaves_receivers w api R waker \<longrightarrow>
        (\<exists>x'. same_channels (Some w) x x' \<and> same_receivers api (R - {cc}) x x' \<and>
           (case has_changed api cc x of
              Inr True \<Rightarrow> receiver_changed api (receiver cc) waker x = (Returns (PollReady (Inr ())), x')
            | Inr False \<Rightarrow> receiver_changed api (receiver cc) waker x = (Returns PollPending, x') \<and>
                has_changed api cc x' = Inr False
            | Inl err \<Rightarrow> \<exists>r. receiver_changed api (receiver cc) waker x = (Returns (PollReady r), x'))))"

definition private_receivers ::
  "('job, 'x) environment \<Rightarrow> 'x watch_api \<Rightarrow> ('rx, 'err, 'x) receiver_api \<Rightarrow>
     'rx capacity_changes set \<Rightarrow> bool" where
  "private_receivers env w api R \<longleftrightarrow>
     private_channels env w \<and> receiver_laws w api R \<and>
     (\<forall>cc \<in> R. (\<forall>job. exec_keeps (has_changed api cc) (job_accept (env_jobs env) job) \<and>
          exec_keeps (has_changed api cc) (job_run (env_jobs env) job) \<and>
          exec_keeps (has_changed api cc) (job_cancel (env_jobs env) job) \<and>
          exec_keeps (has_changed api cc) (job_drop (env_jobs env) job)) \<and>
        (\<forall>n. exec_keeps (has_changed api cc) (env_tracked_cancel env n)))"

lemma private_receiversD:
  assumes "private_receivers env w api R"
  shows "private_channels env w" and "receiver_laws w api R" and "env_watch env = Some w"
    and "cc \<in> R \<Longrightarrow> exec_keeps (has_changed api cc) (job_accept (env_jobs env) job)"
    and "cc \<in> R \<Longrightarrow> exec_keeps (has_changed api cc) (job_run (env_jobs env) job)"
    and "cc \<in> R \<Longrightarrow> exec_keeps (has_changed api cc) (job_cancel (env_jobs env) job)"
    and "cc \<in> R \<Longrightarrow> exec_keeps (has_changed api cc) (job_drop (env_jobs env) job)"
    and "cc \<in> R \<Longrightarrow> exec_keeps (has_changed api cc) (env_tracked_cancel env n)"
  using assms by (simp_all add: private_receivers_def private_channels_def)

lemma leaves_receivers_contain:
  "leaves_receivers w api R m \<Longrightarrow> leaves_receivers w api R (contain m)"
  by (auto simp: leaves_receivers_def leaves_channels_def exec_keeps_contain)

text \<open>One poll of the code's future.\<close>

lemma changed_poll_cases:
  assumes laws: "receiver_laws w api R" and cc: "cc \<in> R" and waker: "leaves_receivers w api R waker"
  obtains (ready) r x' where "has_changed api cc x \<noteq> Inr False"
      and "has_changed api cc x = Inr True \<Longrightarrow> r = Inr ()"
      and "changed_poll (changed api cc) waker x = (Returns (PollReady r), x')"
      and "same_channels (Some w) x x'" and "same_receivers api (R - {cc}) x x'"
  | (pending) x' where "has_changed api cc x = Inr False"
      and "changed_poll (changed api cc) waker x = (Returns PollPending, x')"
      and "same_channels (Some w) x x'" and "same_receivers api R x x'"
proof -
  let ?m = "receiver_changed api (receiver cc) (contain waker)"
  have poll: "changed_poll (changed api cc) waker = ?m"
    by (simp add: changed_poll_def changed_def poll_isolated)
  obtain x' where same: "same_channels (Some w) x x'" "same_receivers api (R - {cc}) x x'"
    and res: "case has_changed api cc x of
        Inr True \<Rightarrow> ?m x = (Returns (PollReady (Inr ())), x')
      | Inr False \<Rightarrow> ?m x = (Returns PollPending, x') \<and> has_changed api cc x' = Inr False
      | Inl err \<Rightarrow> \<exists>r. ?m x = (Returns (PollReady r), x')"
    using laws cc leaves_receivers_contain [OF waker] unfolding receiver_laws_def by blast
  consider "has_changed api cc x = Inr False" | "has_changed api cc x = Inr True"
    | e where "has_changed api cc x = Inl e"
    by (metis (full_types) sumE)
  then show thesis
  proof cases
    case 1
    with res same(2) have "same_receivers api R x x'"
      by (auto simp: same_receivers_def)
    with 1 pending res same(1) poll show ?thesis by simp
  next
    case 2
    with ready res same poll show ?thesis by simp
  next
    case 3
    with res obtain r where "?m x = (Returns (PollReady r), x')"
      by auto
    with 3 ready [of r x'] same poll show ?thesis by simp
  qed
qed

text \<open>An action of the system, seen by the receivers.\<close>

lemma notify_news:
  assumes rl: "receiver_laws w api R" and laws: "watch_laws w" and cc: "cc \<in> R"
    and n: "notify_async_changes (Some w) c t x = (r, x')"
  shows "has_changed api cc x' = (if c then Inr True else has_changed api cc x)"
proof -
  let ?send = "contain (capacity_send_modify w next_generation)"
  let ?raised = "contain (termination_send_if_modified w raise_once)"
  have sent: "has_changed api cc (snd (capacity_send_modify w f y)) = Inr True"
    and dropped: "fst (capacity_send_modify w f y) = Unwinds p \<Longrightarrow>
      has_changed api cc (snd (drop_payload p y')) = has_changed api cc y'" for f y p y'
    using rl cc unfolding receiver_laws_def by blast+
  have "has_changed api cc (snd (?send x)) = Inr True"
    using sent [of next_generation x] dropped [of next_generation x]
    by (cases "capacity_send_modify w next_generation x")
      (auto simp: contain_eq discard_panic_payload_eq split: outcome.split)
  moreover have keep: "exec_keeps (has_changed api cc) (termination_send_if_modified w raise_once)"
    using rl cc unfolding receiver_laws_def by blast
  have "?raised y = (r, y') \<Longrightarrow> has_changed api cc y' = has_changed api cc y" for y r y'
    by (rule exec_keepsD [OF exec_keeps_contain [OF keep]])
  moreover have "fst (?send x) = Returns ()"
    by (rule contain_capacity_send(3) [OF laws])
  ultimately show ?thesis
    using n by (cases "?send x") (auto simp: notify_async_changes_def exec_bind_def split: if_splits)
qed

lemma perform_news:
  assumes e: "perform env a i x = Some e" and priv: "private_receivers env w api R"
    and cc: "cc \<in> R"
  shows "has_changed api cc (eff_ext e) =
    (if capacity_owed a \<noteq> 0 then Inr True else has_changed api cc x)"
proof (cases "\<exists>c t. a = Publish c t")
  case True
  then obtain c t r x' where a: "a = Publish c t"
    and n: "notify_async_changes (Some w) c t x = (r, x')"
    by (metis prod.exhaust)
  note priv' = private_receiversD [OF priv]
  have "eff_ext e = x'"
    using e a n priv'(3) by (auto simp: perform_publish_def split: outcome.splits)
  with notify_news [OF priv'(2) private_channelsD(2) [OF priv'(1)] cc n] a show ?thesis
    by (cases c) simp_all
next
  case False
  have "capacity_owed a = 0"
    using False by (cases a rule: capacity_owed.cases) auto
  with perform_keeps [OF e False private_receiversD(4-8) [OF priv cc]] show ?thesis
    by simp
qed

section \<open>No room, or a signal on its way\<close>

definition no_room :: "'job rayon_executor_service_inner \<Rightarrow> bool" where
  "no_room i \<longleftrightarrow> lifecycle i = Running \<and> task_capacity i \<le> occupied i"

text \<open>\<open>no_room\<close> is when a submission is refused as saturated.\<close>

lemma admit_saturated:
  "admit accept job i x = (Returns (Inl Saturated), i', x') \<Longrightarrow> no_room i"
  by (erule admit_cases) (auto simp: no_room_def)

lemma perform_room_signal:
  assumes e: "perform env a i x = Some e" and ok: "inner_ok i" and ok': "inner_ok (eff_inner e)"
    and full: "no_room i" and room: "\<not> no_room (eff_inner e)"
  shows "sum_list (map capacity_owed (eff_next e)) \<noteq> 0"
proof -
  have "occupied (eff_inner e) < occupied i \<or> lifecycle (eff_inner e) \<noteq> lifecycle i"
    using full room perform_frame(1) [OF e] by (auto simp: no_room_def not_le)
  then obtain t where "Publish True t \<in> set (eff_next e)"
    using perform_release_publishes [OF e ok ok'] by blast
  then have "capacity_owed (Publish True t) \<le> sum_list (map capacity_owed (eff_next e))"
    by (intro member_le_sum_list) (auto intro: rev_image_eqI)
  then have "1 \<le> sum_list (map capacity_owed (eff_next e))"
    by (simp only: capacity_owed.simps)
  then show ?thesis
    by linarith
qed

definition signalled :: "('job, 'x) system \<Rightarrow> bool" where
  "signalled s \<longleftrightarrow> no_room (sys_inner s) \<or> total capacity_owed (threads s) \<noteq> 0"

text \<open>An action that is not itself the publication keeps the signal.\<close>

lemma act_signalled:
  assumes ok: "sys_ok s" and T: "threads s = add_mset (a # rest) others"
    and e: "perform env a (sys_inner s) (sys_ext s) = Some e"
    and other: "capacity_owed a = 0" and sig: "signalled s"
  shows "signalled (apply_effect e rest others (history s))"
proof -
  have "inner_ok (sys_inner s)" "inner_ok (eff_inner e)"
    using ok act_sys_ok [OF ok T e] by (simp_all add: sys_ok_def apply_effect_def)
  from perform_room_signal [OF e this] sig other T show ?thesis
    by (auto simp: signalled_def apply_effect_def)
qed

section \<open>Clients beside the system\<close>

record ('job, 'x, 'rx) client_system =
  client_service :: "('job, 'x) system"
  submitting :: "'rx capacity_changes set"
  refused :: "'rx capacity_changes set"
  dormant :: "'rx capacity_changes set"

definition clients :: "('job, 'x, 'rx) client_system \<Rightarrow> 'rx capacity_changes set" where
  "clients cs = submitting cs \<union> refused cs \<union> dormant cs"

abbreviation client_ext :: "('job, 'x, 'rx) client_system \<Rightarrow> 'x" where
  "client_ext cs \<equiv> sys_ext (client_service cs)"

text \<open>News wakes the clients that sleep on it.\<close>

definition wake_clients ::
  "('rx, 'err, 'x) receiver_api \<Rightarrow> ('job, 'x, 'rx) client_system \<Rightarrow> ('job, 'x, 'rx) client_system"
  where
  "wake_clients api cs =
     (let woken = {cc \<in> dormant cs. has_changed api cc (client_ext cs) = Inr True}
      in cs\<lparr>refused := refused cs \<union> woken, dormant := dormant cs - woken\<rparr>)"

definition client_move_to ::
  "('job, 'x, 'rx) client_system \<Rightarrow> ('job, 'x) system \<Rightarrow> 'rx capacity_changes \<Rightarrow>
     ('job, 'x, 'rx) client_system" where
  "client_move_to cs s' cc =
     cs\<lparr>client_service := s', submitting := submitting cs - {cc}, refused := refused cs - {cc},
        dormant := dormant cs - {cc}\<rparr>"

text \<open>
  A client is in one of three places: it is about to submit, it was refused and polls \<open>changed\<close>, or
  that poll was pending. A submission that is accepted, or refused because the service is shut down,
  is the client's last step, and so is a poll that fails; clients may also leave at any time. A
  subscription gives a receiver that no other client holds (each call of \<open>watch::Sender::subscribe\<close>
  creates one), and code outside the crate leaves the receivers of these clients alone.
\<close>

inductive client_step ::
  "('job, 'x) environment \<Rightarrow> 'x watch_api \<Rightarrow> ('rx, 'err, 'x) receiver_api \<Rightarrow> ('x, 'rx) exec \<Rightarrow>
     'rx capacity_changes set \<Rightarrow> ('job, 'x, 'rx) client_system \<Rightarrow>
     ('job, 'x, 'rx) client_system \<Rightarrow> bool"
  for env :: "('job, 'x) environment" and w :: "'x watch_api"
    and api :: "('rx, 'err, 'x) receiver_api" and subscribe :: "('x, 'rx) exec"
    and R :: "'rx capacity_changes set" where
  service: "internal_step env (client_service cs) b s' \<Longrightarrow>
     client_step env w api subscribe R cs (wake_clients api (cs\<lparr>client_service := s'\<rparr>))"
| call: "client_action a \<Longrightarrow> handle_exists (sys_inner (client_service cs)) a \<Longrightarrow>
     client_step env w api subscribe R cs
       (cs\<lparr>client_service := client_service cs
             \<lparr>threads := add_mset [a] (threads (client_service cs))\<rparr>\<rparr>)"
| outside: "same_channels (Some w) (client_ext cs) x' \<Longrightarrow> same_receivers api R (client_ext cs) x' \<Longrightarrow>
     client_step env w api subscribe R cs
       (cs\<lparr>client_service := client_service cs\<lparr>sys_ext := x'\<rparr>\<rparr>)"
| subscribed: "capacity_changes subscribe (client_ext cs) = (Returns cc, x') \<Longrightarrow>
     cc \<in> R \<Longrightarrow> cc \<notin> clients cs \<Longrightarrow> same_channels (Some w) (client_ext cs) x' \<Longrightarrow>
     same_receivers api (clients cs) (client_ext cs) x' \<Longrightarrow>
     client_step env w api subscribe R cs
       (cs\<lparr>client_service := client_service cs\<lparr>sys_ext := x'\<rparr>,
           submitting := insert cc (submitting cs)\<rparr>)"
| submit: "cc \<in> submitting cs \<Longrightarrow> i = sys_inner (client_service cs) \<Longrightarrow>
     admit (job_accept (env_jobs env)) job i (client_ext cs) = (r, i', x') \<Longrightarrow>
     perform env (Admit job) i (client_ext cs) = Some e \<Longrightarrow>
     cs1 = client_move_to cs
       (apply_effect e [] (threads (client_service cs)) (history (client_service cs))) cc \<Longrightarrow>
     client_step env w api subscribe R cs
       (if r = Returns (Inl Saturated) then cs1\<lparr>refused := insert cc (refused cs1)\<rparr> else cs1)"
| ready: "cc \<in> refused cs \<Longrightarrow> leaves_receivers w api R waker \<Longrightarrow>
     changed_poll (changed api cc) waker (client_ext cs) = (Returns (PollReady (Inr ())), x') \<Longrightarrow>
     cs1 = client_move_to cs (client_service cs\<lparr>sys_ext := x'\<rparr>) cc \<Longrightarrow>
     client_step env w api subscribe R cs (cs1\<lparr>submitting := insert cc (submitting cs1)\<rparr>)"
| pending: "cc \<in> refused cs \<Longrightarrow> leaves_receivers w api R waker \<Longrightarrow>
     changed_poll (changed api cc) waker (client_ext cs) = (Returns PollPending, x') \<Longrightarrow>
     cs1 = client_move_to cs (client_service cs\<lparr>sys_ext := x'\<rparr>) cc \<Longrightarrow>
     client_step env w api subscribe R cs (cs1\<lparr>dormant := insert cc (dormant cs1)\<rparr>)"
| closed: "cc \<in> refused cs \<Longrightarrow> leaves_receivers w api R waker \<Longrightarrow>
     changed_poll (changed api cc) waker (client_ext cs) = (Returns (PollReady (Inl err)), x') \<Longrightarrow>
     client_step env w api subscribe R cs (client_move_to cs (client_service cs\<lparr>sys_ext := x'\<rparr>) cc)"
| spurious: "cc \<in> dormant cs \<Longrightarrow> cs1 = client_move_to cs (client_service cs) cc \<Longrightarrow>
     client_step env w api subscribe R cs (cs1\<lparr>refused := insert cc (refused cs1)\<rparr>)"
| leave: "client_step env w api subscribe R cs (client_move_to cs (client_service cs) cc)"

definition client_initial :: "('job, 'x) system \<Rightarrow> ('job, 'x, 'rx) client_system" where
  "client_initial s = \<lparr>client_service = s, submitting = {}, refused = {}, dormant = {}\<rparr>"

text \<open>
  No lost signal: a client that was refused and has no news left to take is one for which there is
  no room, or the publication of the change is still to be made.
\<close>

definition signal_ok ::
  "('rx, 'err, 'x) receiver_api \<Rightarrow> 'rx capacity_changes set \<Rightarrow> ('job, 'x, 'rx) client_system \<Rightarrow> bool"
  where
  "signal_ok api R cs \<longleftrightarrow>
     sys_ok (client_service cs) \<and> clients cs \<subseteq> R \<and> submitting cs \<inter> (refused cs \<union> dormant cs) = {} \<and>
     (\<forall>cc \<in> dormant cs. has_changed api cc (client_ext cs) \<noteq> Inr True) \<and>
     (\<forall>cc \<in> refused cs \<union> dormant cs.
        has_changed api cc (client_ext cs) = Inr True \<or> signalled (client_service cs))"

lemmas signal_ok_simps = signal_ok_def client_move_to_def clients_def same_receivers_def

lemma wake_clients_simps [simp]:
  "client_service (wake_clients api cs) = client_service cs"
  "submitting (wake_clients api cs) = submitting cs" "clients (wake_clients api cs) = clients cs"
  by (auto simp: wake_clients_def clients_def Let_def)

lemma clients_service [simp]: "clients (cs\<lparr>client_service := s'\<rparr>) = clients cs"
  by (simp add: clients_def)

text \<open>Waking establishes that who still sleeps has no news, whatever happened before.\<close>

lemma signal_ok_wake:
  assumes "sys_ok (client_service cs)" and "clients cs \<subseteq> R"
    and "submitting cs \<inter> (refused cs \<union> dormant cs) = {}"
    and "\<And>cc. cc \<in> refused cs \<union> dormant cs \<Longrightarrow>
      has_changed api cc (client_ext cs) = Inr True \<or> signalled (client_service cs)"
  shows "signal_ok api R (wake_clients api cs)"
  using assms by (auto simp: signal_ok_def wake_clients_def clients_def Let_def)

lemma signal_ok_service:
  assumes priv: "private_receivers env w api R" and ok: "signal_ok api R cs"
    and step: "internal_step env (client_service cs) b s'"
  shows "signal_ok api R (wake_clients api (cs\<lparr>client_service := s'\<rparr>))"
proof (rule signal_ok_wake)
  have s: "sys_ok (client_service cs)"
    using ok by (simp add: signal_ok_def)
  show "sys_ok (client_service (cs\<lparr>client_service := s'\<rparr>))"
    using svc.step_inv [OF s system_step.internal [OF step]] by simp
  show "clients (cs\<lparr>client_service := s'\<rparr>) \<subseteq> R"
    using ok by (simp add: signal_ok_def clients_def)
  show "submitting (cs\<lparr>client_service := s'\<rparr>) \<inter>
      (refused (cs\<lparr>client_service := s'\<rparr>) \<union> dormant (cs\<lparr>client_service := s'\<rparr>)) = {}"
    using ok by (simp add: signal_ok_def)
  fix cc
  assume "cc \<in> refused (cs\<lparr>client_service := s'\<rparr>) \<union> dormant (cs\<lparr>client_service := s'\<rparr>)"
  then have cc: "cc \<in> R" and
    before: "has_changed api cc (client_ext cs) = Inr True \<or> signalled (client_service cs)"
    using ok by (auto simp: signal_ok_def clients_def)
  from step have "has_changed api cc (sys_ext s') = Inr True \<or> signalled s'"
  proof (cases rule: internal_step.cases)
    case (act a rest others e)
    from before perform_news [OF act(4) priv cc] act_signalled [OF s act(3,4)] act(2) show ?thesis
      by (cases "capacity_owed a = 0") (auto simp: apply_effect_def)
  next
    case (finish others)
    with before show ?thesis
      by (simp add: signalled_def)
  qed
  then show "has_changed api cc (client_ext (cs\<lparr>client_service := s'\<rparr>)) = Inr True \<or>
      signalled (client_service (cs\<lparr>client_service := s'\<rparr>))"
    by simp
qed

text \<open>A submission is a call of \<open>Admit\<close> and its critical section.\<close>

lemma submission_steps:
  assumes "perform env (Admit job) (sys_inner s) (sys_ext s) = Some e"
  defines "s1 \<equiv> s\<lparr>threads := add_mset [Admit job] (threads s)\<rparr>"
  shows "system_step env s False s1"
    and "system_step env s1 (eff_wake e) (apply_effect e [] (threads s) (history s))"
proof -
  show "system_step env s False s1"
    unfolding s1_def by (rule system_step.call) simp_all
  from internal_step.act [of s1 "Admit job" "[]" "threads s" env e] assms(1)
  have "internal_step env s1 (eff_wake e) (apply_effect e [] (threads s) (history s1))"
    by (simp add: s1_def)
  then show "system_step env s1 (eff_wake e) (apply_effect e [] (threads s) (history s))"
    by (simp add: s1_def system_step.internal)
qed

lemma submission_signal:
  assumes priv: "private_receivers env w api R" and ok: "sys_ok s"
    and e: "perform env (Admit job) (sys_inner s) (sys_ext s) = Some e"
  defines "s' \<equiv> apply_effect e [] (threads s) (history s)"
  shows "sys_ok s'" and "signalled s \<Longrightarrow> signalled s'"
    and "cc \<in> R \<Longrightarrow> has_changed api cc (sys_ext s') = has_changed api cc (sys_ext s)"
proof -
  let ?s1 = "s\<lparr>threads := add_mset [Admit job] (threads s)\<rparr>"
  have ok1: "sys_ok ?s1"
    by (rule svc.step_inv [OF ok submission_steps(1) [OF e]])
  show "sys_ok s'"
    unfolding s'_def by (rule svc.step_inv [OF ok1 submission_steps(2) [OF e]])
  show "signalled s'" if "signalled s"
    unfolding s'_def using act_signalled [OF ok1, of "Admit job" "[]" "threads s" env e] e that
    by (simp add: signalled_def)
  show "has_changed api cc (sys_ext s') = has_changed api cc (sys_ext s)" if "cc \<in> R"
    using perform_news [OF e priv that] by (simp add: s'_def apply_effect_def)
qed

lemma signal_ok_submit:
  assumes priv: "private_receivers env w api R" and ok: "signal_ok api R cs"
    and cc: "cc \<in> submitting cs" and i: "i = sys_inner (client_service cs)"
    and adm: "admit (job_accept (env_jobs env)) job i (client_ext cs) = (r, i', x')"
    and e: "perform env (Admit job) i (client_ext cs) = Some e"
  defines "cs1 \<equiv> client_move_to cs
    (apply_effect e [] (threads (client_service cs)) (history (client_service cs))) cc"
  shows "signal_ok api R (if r = Returns (Inl Saturated) then cs1\<lparr>refused := insert cc (refused cs1)\<rparr> else cs1)"
proof -
  have s: "sys_ok (client_service cs)"
    using ok by (simp add: signal_ok_def)
  note after = submission_signal [OF priv s e [unfolded i]]
  have "signalled (client_service cs1)" if "r = Returns (Inl Saturated)"
  proof -
    have "signalled (client_service cs)"
      using admit_saturated adm i that by (fastforce simp: signalled_def)
    with after(2) show ?thesis
      by (simp add: cs1_def client_move_to_def)
  qed
  moreover have "signal_ok api R cs1"
    using ok after by (fastforce simp: cs1_def signal_ok_simps)
  ultimately show ?thesis
    using ok cc by (auto simp: signal_ok_def clients_def cs1_def client_move_to_def)
qed

lemma signalled_ext [simp]: "signalled (s\<lparr>sys_ext := x'\<rparr>) = signalled s"
  by (simp add: signalled_def)

lemma sys_ok_ext: "sys_ok s \<Longrightarrow> sys_ok (s\<lparr>sys_ext := x'\<rparr>)"
  by (simp add: sys_ok_def)

lemma signal_ok_poll:
  assumes priv: "private_receivers env w api R" and ok: "signal_ok api R cs"
    and cc: "cc \<in> refused cs" and waker: "leaves_receivers w api R waker"
    and poll: "changed_poll (changed api cc) waker (client_ext cs) = (Returns r, x')"
  defines "cs1 \<equiv> client_move_to cs (client_service cs\<lparr>sys_ext := x'\<rparr>) cc"
  shows "signal_ok api R cs1" and "signal_ok api R (cs1\<lparr>submitting := insert cc (submitting cs1)\<rparr>)"
    and "r = PollPending \<Longrightarrow> signal_ok api R (cs1\<lparr>dormant := insert cc (dormant cs1)\<rparr>)"
proof -
  have inR: "cc \<in> R"
    using ok cc by (auto simp: signal_ok_def clients_def)
  have s: "sys_ok (client_service cs\<lparr>sys_ext := x'\<rparr>)"
    using ok by (intro sys_ok_ext) (simp add: signal_ok_def)
  note poll_cases = changed_poll_cases [OF private_receiversD(2) [OF priv] inR waker, of "client_ext cs"]
  have others: "has_changed api c x' = has_changed api c (client_ext cs)"
    if "c \<in> clients cs" "c \<noteq> cc" for c
    by (rule poll_cases) (use that poll ok in \<open>auto simp: same_receivers_def signal_ok_def\<close>)
  then show "signal_ok api R cs1" and "signal_ok api R (cs1\<lparr>submitting := insert cc (submitting cs1)\<rparr>)"
    using ok s inR by (auto simp: signal_ok_def client_move_to_def clients_def cs1_def)
  show "signal_ok api R (cs1\<lparr>dormant := insert cc (dormant cs1)\<rparr>)" if "r = PollPending"
  proof -
    have none: "has_changed api cc (client_ext cs) = Inr False"
      and "same_receivers api R (client_ext cs) x'"
      by (rule poll_cases; use that poll in simp)+
    then have "\<forall>c \<in> clients cs. has_changed api c x' = has_changed api c (client_ext cs)"
      using ok by (auto simp: same_receivers_def signal_ok_def)
    with none show ?thesis
      using ok s cc by (auto simp: signal_ok_def client_move_to_def clients_def cs1_def)
  qed
qed

lemma client_step_ok:
  assumes priv: "private_receivers env w api R" and ok: "signal_ok api R cs"
    and step: "client_step env w api subscribe R cs cs'"
  shows "signal_ok api R cs'"
  using step
proof (cases rule: client_step.cases)
  case (service b s')
  then show ?thesis
    using signal_ok_service [OF priv ok] by simp
next
  case (call a)
  have "sys_ok (client_service cs)"
    using ok by (simp add: signal_ok_def)
  from svc.step_inv [OF this system_step.call [OF call(2,3)]]
  have "sys_ok (client_service cs')"
    by (simp add: call(1))
  moreover have "capacity_owed a = 0"
    using call(2) by (cases a) auto
  ultimately show ?thesis
    using ok by (simp add: call(1) signal_ok_simps signalled_def)
next
  case (outside x')
  then show ?thesis
    using ok sys_ok_ext by (fastforce simp: signal_ok_simps)
next
  case (subscribed cc x')
  then show ?thesis
    using ok sys_ok_ext by (fastforce simp: signal_ok_simps)
next
  case (submit cc i job r i' x' e cs1)
  show ?thesis
    unfolding submit(1,6) by (rule signal_ok_submit [OF priv ok submit(2-5)])
next
  case (ready cc waker x' cs1)
  then show ?thesis
    using signal_ok_poll(2) [OF priv ok ready(2-4)] by simp
next
  case (pending cc waker x' cs1)
  then show ?thesis
    using signal_ok_poll(3) [OF priv ok pending(2-4)] by simp
next
  case (closed cc waker err x')
  then show ?thesis
    using signal_ok_poll(1) [OF priv ok closed(2-4)] by simp
qed (use ok in \<open>auto simp: signal_ok_simps\<close>)

lemma client_initial_ok: "signal_ok api R (client_initial (initial_system capacity workers x))"
  by (simp add: client_initial_def signal_ok_def clients_def sys_ok_initial)

interpretation backpressure: invariant_system
  "\<lambda>cs. private_receivers env w api R \<and>
     (\<exists>capacity workers x. cs = client_initial (initial_system capacity workers x))"
  "\<lambda>cs (l :: unit) cs'. client_step env w api subscribe R cs cs'"
  "\<lambda>cs. private_receivers env w api R \<and> signal_ok api R cs"
  for env w api subscribe R
proof (unfold_locales, goal_cases)
  case (1 cs)
  then show ?case
    by (auto intro: client_initial_ok)
next
  case (2 cs l cs')
  then show ?case
    using client_step_ok by blast
qed

definition client_reachable ::
  "('job, 'x) environment \<Rightarrow> 'x watch_api \<Rightarrow> ('rx, 'err, 'x) receiver_api \<Rightarrow> ('x, 'rx) exec \<Rightarrow>
     'rx capacity_changes set \<Rightarrow> ('job, 'x, 'rx) client_system \<Rightarrow>
     ('job, 'x, 'rx) client_system \<Rightarrow> bool" where
  "client_reachable env w api subscribe R = (client_step env w api subscribe R)\<^sup>*\<^sup>*"

text \<open>Seen without the clients, the system is the service.\<close>

lemma client_step_seen:
  assumes priv: "private_receivers env w api R" and ok: "signal_ok api R cs"
    and step: "client_step env w api subscribe R cs cs'"
  shows "reachable env (client_service cs) (client_service cs')"
proof -
  have outside: "reachable env (client_service cs) (client_service cs\<lparr>sys_ext := x'\<rparr>)"
    if "same_channels (Some w) (client_ext cs) x'" for x'
    using that private_receiversD(3) [OF priv] by (intro step_reachable [OF system_step.outside]) simp
  have polled: "same_channels (Some w) (client_ext cs) x'"
    if "cc \<in> refused cs" "leaves_receivers w api R waker"
      "changed_poll (changed api cc) waker (client_ext cs) = (r, x')" for cc waker r x'
    by (rule changed_poll_cases [OF private_receiversD(2) [OF priv] _ that(2), of cc "client_ext cs"])
      (use that ok in \<open>auto simp: signal_ok_def clients_def\<close>)
  from step show ?thesis
  proof (cases rule: client_step.cases)
    case (submit cc i job r i' x' e cs1)
    note steps = submission_steps [OF submit(5) [unfolded submit(3)]]
    from reachable.step [OF step_reachable [OF steps(1)] steps(2)] show ?thesis
      by (simp add: submit(1,6) client_move_to_def)
  qed (use outside polled in \<open>auto simp: client_move_to_def
      intro: step_reachable system_step.internal system_step.call reachable.initial\<close>)
qed

interpretation clients_seen: simulation_system
  "\<lambda>cs. private_receivers env w api R \<and>
     (\<exists>capacity workers x. cs = client_initial (initial_system capacity workers x))"
  "\<lambda>cs (l :: unit) cs'. client_step env w api subscribe R cs cs'"
  "\<lambda>cs. private_receivers env w api R \<and> signal_ok api R cs" client_service "reachable env"
  for env w api subscribe R
proof (unfold_locales, goal_cases)
  case (1 cs l cs')
  then show ?case
    by (intro r_into_rtranclp client_step_seen) auto
qed

lemma client_reachable_seen:
  assumes priv: "private_receivers env w api R"
    and reach: "client_reachable env w api subscribe R
      (client_initial (initial_system capacity workers x)) cs"
  shows "signal_ok api R cs" and "reachable env (initial_system capacity workers x) (client_service cs)"
proof -
  let ?c0 = "client_initial (initial_system capacity workers x)"
  note start = conjI [OF priv client_initial_ok]
  have "(\<lambda>cs cs'. \<exists>l :: unit. client_step env w api subscribe R cs cs')\<^sup>*\<^sup>* ?c0 cs"
    using reach by (simp add: client_reachable_def)
  note seen = clients_seen.run_seen [OF this start]
  then show "signal_ok api R cs"
    by blast
  from seen seen_reachable show "reachable env (initial_system capacity workers x) (client_service cs)"
    by (fastforce simp: client_initial_def)
qed

lemmas client_reachable_ok = client_reachable_seen(1)
lemmas client_service_reachable = client_reachable_seen(2)

section \<open>The service wakes them\<close>

text \<open>The steps of the service alone, while no client does anything.\<close>

inductive serve ::
  "('job, 'x) environment \<Rightarrow> ('rx, 'err, 'x) receiver_api \<Rightarrow> ('job, 'x, 'rx) client_system \<Rightarrow>
     ('job, 'x, 'rx) client_system \<Rightarrow> bool"
  for env :: "('job, 'x) environment" and api :: "('rx, 'err, 'x) receiver_api" where
  serve: "internal_step env (client_service cs) b s' \<Longrightarrow>
     serve env api cs (wake_clients api (cs\<lparr>client_service := s'\<rparr>))"

inductive_cases serveE: "serve env api cs cs'"

lemma serve_exists:
  "env_ok env \<Longrightarrow> threads (client_service cs) \<noteq> {#} \<Longrightarrow> \<exists>cs'. serve env api cs cs'"
  using internal_enabled [of env "client_service cs"] by (blast intro: serve)

interpretation serving: progress_system
  "\<lambda>cs. env_ok env \<and> private_receivers env w api R \<and>
     (\<exists>capacity workers x. cs = client_initial (initial_system capacity workers x))"
  "\<lambda>cs (l :: unit) cs'. client_step env w api subscribe R cs cs'"
  "\<lambda>cs. env_ok env \<and> private_receivers env w api R \<and> signal_ok api R cs"
  "\<lambda>cs l cs'. serve env api cs cs'" "\<lambda>cs. potential (client_service cs)"
  "\<lambda>cs. threads (client_service cs) = {#}"
  for env w api subscribe R
proof (unfold_locales, goal_cases)
  case (1 cs)
  then show ?case
    using backpressure.start_inv [of env w api R cs] by blast
next
  case (2 cs l cs')
  then show ?case
    using client_step_ok by blast
next
  case (3 cs l cs')
  then show ?case
    by (auto elim: serveE intro: client_step.service)
next
  case (4 cs l cs')
  then have "sys_ok (client_service cs)"
    by (simp add: signal_ok_def)
  with 4 show ?case
    by (auto elim!: serveE intro: internal_decreases)
next
  case (5 cs)
  then show ?case
    using serve_exists by blast
qed

definition serve_run ::
  "('job, 'x) environment \<Rightarrow> ('rx, 'err, 'x) receiver_api \<Rightarrow> ('job, 'x, 'rx) client_system \<Rightarrow>
     ('job, 'x, 'rx) client_system \<Rightarrow> bool" where
  "serve_run env api = (serve env api)\<^sup>*\<^sup>*"

lemma serve_run_keeps:
  assumes "serve_run env api cs cs'"
  shows "client_reachable env w api subscribe R cs cs' \<and> clients cs' = clients cs \<and>
    submitting cs' = submitting cs"
  using assms unfolding serve_run_def client_reachable_def
proof (induction rule: rtranclp_induct)
  case base
  then show ?case by simp
next
  case (step cs1 cs2)
  from step.hyps(2) have "client_step env w api subscribe R cs1 cs2" "clients cs2 = clients cs1"
    and "submitting cs2 = submitting cs1"
    by (auto elim!: serveE intro: client_step.service)
  with step.IH show ?case
    by (metis rtranclp.rtrancl_into_rtrancl)
qed

text \<open>With a worker and some capacity, nobody sleeps beside a service that has nothing to do.\<close>

lemma idle_not_signalled:
  assumes priv: "private_receivers env w api R" and limits: "workers \<noteq> 0" "capacity \<noteq> 0"
    and reach: "client_reachable env w api subscribe R
      (client_initial (initial_system capacity workers x)) cs"
    and idle: "threads (client_service cs) = {#}"
  shows "\<not> signalled (client_service cs)"
proof -
  note ok = client_reachable_ok [OF priv reach, unfolded signal_ok_def]
  note config = reachable_config [OF client_service_reachable [OF priv reach]]
  have "num_threads (sys_inner (client_service cs)) \<noteq> 0"
    using config(2) limits(1) by simp
  note empty = idle_system_empty [OF conjunct1 [OF ok] idle this]
  have "inner_ok (sys_inner (client_service cs))"
    using ok by (simp add: sys_ok_def)
  from unat_occupied [OF this] inner_okD(4) [OF this] empty
  have "occupied (sys_inner (client_service cs)) = 0"
    by (simp add: usize_eq_0_iff)
  with config(1) limits(2) show ?thesis
    using idle by (simp add: signalled_def no_room_def)
qed

lemma idle_nobody_dormant:
  assumes "private_receivers env w api R" and "workers \<noteq> 0" and "capacity \<noteq> 0"
    and "client_reachable env w api subscribe R
      (client_initial (initial_system capacity workers x)) cs"
    and "threads (client_service cs) = {#}"
  shows "dormant cs = {}" and "\<forall>cc \<in> refused cs. has_changed api cc (client_ext cs) = Inr True"
  using idle_not_signalled [OF assms] client_reachable_ok [OF assms(1,4)]
  by (auto simp: signal_ok_def)

lemma serve_moves_bounded:
  assumes "env_ok env" and "private_receivers env w api R" and "signal_ok api R cs"
    and "(serve env api ^^ n) cs cs'"
  shows "n \<le> potential (client_service cs)"
  using serving.moves_bounded [of n env api cs cs' w R] assms by simp

lemma serve_run_exists:
  assumes "env_ok env" and "private_receivers env w api R" and "signal_ok api R cs"
  shows "\<exists>cs'. serve_run env api cs cs' \<and> threads (client_service cs') = {#}"
  using serving.reaches_final [of env w api R cs] assms by (auto simp: serve_run_def)

text \<open>Where the service can do no more.\<close>

lemma stuck_serving:
  assumes env: "env_ok env" and priv: "private_receivers env w api R"
    and limits: "workers \<noteq> 0" "capacity \<noteq> 0"
    and reach: "client_reachable env w api subscribe R
      (client_initial (initial_system capacity workers x)) cs"
    and run: "serve_run env api cs cs'" and stuck: "\<nexists>cs''. serve env api cs' cs''"
  shows "dormant cs' = {} \<and> submitting cs' = submitting cs \<and> clients cs' = clients cs \<and>
    (\<forall>cc \<in> refused cs'. has_changed api cc (client_ext cs') = Inr True)"
proof -
  note kept = serve_run_keeps [OF run, of w subscribe R]
  have "client_reachable env w api subscribe R
      (client_initial (initial_system capacity workers x)) cs'"
    using reach kept unfolding client_reachable_def by (meson rtranclp_trans)
  moreover have "threads (client_service cs') = {#}"
    using serve_exists [OF env, of cs' api] stuck by blast
  ultimately show ?thesis
    using idle_nobody_dormant [OF priv limits] kept by blast
qed

end
