(* ===== verification/Wait_Scenarios.thy ===== *)
theory Wait_Scenarios
  imports Scheduler Async_Wait Backpressure
begin

text \<open>
  Concrete runs of the waiting tasks and of the waiting clients: a task that awaits termination and
  parks just before it is published, and a client that is refused by a full service and falls asleep.
\<close>

section \<open>A task that awaits termination\<close>

text \<open>
  The generation, the termination flag, how many receivers there are, and those that have looked at
  the latest version. A write of the flag is a new version only if the closure says so.
\<close>

type_synonym flag_state = "u64 \<times> bool \<times> nat \<times> nat set"

definition flag_watch :: "flag_state watch_api" where
  "flag_watch =
     \<lparr>capacity_send_modify = (\<lambda>f (g, t, n, seen). (Returns (), (f g, t, n, seen))),
      termination_send_if_modified =
        (\<lambda>f (g, t, n, seen). case f t of
           (t', modified) \<Rightarrow> (Returns modified, (g, t', n, if modified then {} else seen))),
      capacity_value = fst,
      termination_value = (\<lambda>(g, t, n, seen). t)\<rparr>"

definition flag_state_of :: "nat \<Rightarrow> flag_state \<Rightarrow> receiver_state" where
  "flag_state_of rx =
     (\<lambda>(g, t, n, seen). if n \<le> rx then Unused else if rx \<in> seen then Examined else Unexamined)"

definition flag_wait_for :: "nat \<Rightarrow> (bool \<Rightarrow> bool) \<Rightarrow> (flag_state, unit + unit) pollable" where
  "flag_wait_for rx f waker =
     (\<lambda>(g, t, n, seen). if rx < n \<and> rx \<notin> seen \<and> f t then (Returns (PollReady (Inr ())), (g, t, n, seen))
        else (Returns PollPending, (g, t, n, insert rx seen)))"

definition flag_api :: "(nat, unit, unit, flag_state) await_api" where
  "flag_api =
     \<lparr>aw_watch = flag_watch,
      aw_subscribe = (\<lambda>(g, t, n, seen). (Returns n, (g, t, Suc n, seen - {n}))),
      aw_wait_for = flag_wait_for, aw_state = flag_state_of, aw_receivers = UNIV\<rparr>"

definition flag_env :: "(unit, flag_state) environment" where
  "flag_env =
     \<lparr>env_jobs =
        \<lparr>job_accept = (\<lambda>job. exec_return ()), job_run = (\<lambda>job. exec_return ()),
         job_cancel = (\<lambda>job. exec_return ()), job_drop = (\<lambda>job. exec_return ())\<rparr>,
      env_watch = Some flag_watch, env_tracked_cancel = (\<lambda>n. exec_return ())\<rparr>"

lemma flag_api_simps [simp]:
  "aw_watch flag_api = flag_watch" "aw_subscribe flag_api (g, t, n, seen) = (Returns n, (g, t, Suc n, seen - {n}))"
  "aw_wait_for flag_api = flag_wait_for" "aw_state flag_api = flag_state_of"
  "aw_receivers flag_api = UNIV"
  "termination_value flag_watch (g, t, n, seen) = t" "capacity_value flag_watch (g, t, n, seen) = g"
  by (simp_all add: flag_api_def flag_watch_def)

lemma flag_watch_laws: "watch_laws flag_watch"
  by (auto simp: watch_laws_def flag_watch_def exec_safe_def exec_keeps_def split: prod.splits)

lemma flag_notify_laws: "notify_laws flag_watch flag_state_of"
  by (auto simp: notify_laws_def flag_watch_def flag_state_of_def exec_keeps_def split: prod.splits)

lemma flag_subscribes:
  "flag_state_of n (g, t, n, seen) = Unused" "flag_state_of n (g, t, Suc n, seen - {n}) = Unexamined"
  "same_waits flag_api (UNIV - {n}) (g, t, n, seen) (g, t, Suc n, seen - {n})"
  by (auto simp: same_waits_def same_channels_def flag_state_of_def)

lemma flag_poll:
  "flag_wait_for rx f waker (g, t, n, seen) =
     (if flag_state_of rx (g, t, n, seen) = Unexamined \<and> f t
      then (Returns (PollReady (Inr ())), (g, t, n, seen))
      else (Returns PollPending, (g, t, n, insert rx seen)))"
  "flag_state_of rx (g, t, n, seen) \<noteq> Unused \<Longrightarrow>
     flag_state_of rx (g, t, n, insert rx seen) = Examined"
  "same_waits flag_api (UNIV - {rx}) (g, t, n, seen) (g, t, n, seen)"
  "same_waits flag_api (UNIV - {rx}) (g, t, n, seen) (g, t, n, insert rx seen)"
  by (auto simp: flag_wait_for_def same_waits_def same_channels_def flag_state_of_def)

lemma flag_wait_for_laws: "wait_for_laws flag_api"
proof -
  have "\<exists>rx x'. aw_subscribe flag_api x = (Returns rx, x') \<and> flag_state_of rx x = Unused \<and>
      flag_state_of rx x' = Unexamined \<and> same_waits flag_api (UNIV - {rx}) x x'" for x
    by (cases x) (use flag_subscribes in auto)
  moreover have "\<exists>x'. same_waits flag_api (UNIV - {rx}) x x' \<and>
      (if flag_state_of rx x = Unexamined \<and> f (termination_value flag_watch x)
       then \<exists>ok. flag_wait_for rx f waker x = (Returns (PollReady (Inr ok)), x')
       else flag_wait_for rx f waker x = (Returns PollPending, x') \<and>
         flag_state_of rx x' = Examined)" if "flag_state_of rx x \<noteq> Unused" for rx f waker x
  proof -
    obtain g t n seen where x: "x = (g, t, n, seen)"
      by (cases x)
    show ?thesis
      using that flag_poll [of rx] unfolding x
      by (cases "flag_state_of rx (g, t, n, seen) = Unexamined \<and> f t") auto
  qed
  ultimately show ?thesis
    unfolding wait_for_laws_def flag_api_simps by blast
qed

lemma flag_polls:
  "wait_for_sound flag_watch flag_wait_for" "wait_for_prompt flag_watch flag_state_of flag_wait_for"
  "subscribes_fresh flag_state_of (aw_subscribe flag_api)"
  by (auto simp: wait_for_sound_def wait_for_prompt_def subscribes_fresh_def flag_wait_for_def
      flag_state_of_def split: if_splits prod.splits)

lemma flag_private: "private_channels flag_env flag_watch"
  using flag_watch_laws
  by (auto simp: private_channels_def leaves_channels_def flag_env_def exec_keeps_def)

lemma flag_async_laws: "async_laws flag_env flag_api"
  using flag_private flag_notify_laws flag_wait_for_laws
  by (auto simp: async_laws_def private_waits_def leaves_waits_def leaves_channels_def flag_env_def
      exec_keeps_def)

lemma flag_env_ok: "env_ok flag_env"
  using flag_watch_laws by (auto simp: env_ok_def flag_env_def exec_safe_def watch_ok_def)

text \<open>
  A task has subscribed and parked; then shutdown is requested on the empty service. The service is
  terminated, the publications, of which the second will wake the task, are still to be made, and so is the check of the
  record for its subscription.
\<close>

definition demo_awaiting :: "(unit, flag_state, nat) async_system" where
  "demo_awaiting =
     \<lparr>async_service =
        \<lparr>sys_inner = (new_state 1 1)\<lparr>lifecycle := ShuttingDown\<rparr>, sys_ext = (0, False, 1, {0}),
         threads = {#[Publish True False, Publish False True], [SubscribeTermination]#},
         history = [Closed]\<rparr>,
      unresumed = 0, polling = {}, parked = {0}, completed = 0\<rparr>"

abbreviation flag_start :: "(unit, flag_state) system" where
  "flag_start \<equiv> initial_system 1 1 (0, False, 0, {})"

lemma demo_awaiting_reachable:
  "async_reachable flag_env flag_api (async_initial flag_start) demo_awaiting"
proof -
  let ?step = "async_step flag_env flag_api"
  let ?a0 = "async_initial flag_start :: (unit, flag_state, nat) async_system"
  let ?a1 = "?a0\<lparr>unresumed := 1\<rparr>"
  let ?s = "\<lambda>x k. flag_start\<lparr>sys_ext := x, threads := k\<rparr>"
  let ?a2 = "?a0\<lparr>async_service := ?s (0, False, 1, {}) {#[SubscribeTermination]#}, polling := {0}\<rparr>"
  let ?a3 = "?a0\<lparr>async_service := ?s (0, False, 1, {0}) {#[SubscribeTermination]#}, parked := {0}\<rparr>"
  let ?a4 = "?a0\<lparr>async_service := ?s (0, False, 1, {0}) {#[ShutdownService], [SubscribeTermination]#},
    parked := {0}\<rparr>"
  note start = async_initial_def initial_system_def
  have "?step ?a0 ?a1"
    using async_step.enter [of flag_env flag_api ?a0] by (simp add: start)
  moreover have "?step ?a1 ?a2"
    using async_move.resume [of ?a1 0 flag_api 0 _ flag_env]
    by (intro async_step.move) (simp add: start)
  moreover have "?step ?a2 ?a3"
    using async_move.pending [of 0 ?a2 flag_api "exec_return ()" 0 _ flag_env]
    by (intro async_step.move) (simp add: start leaves_waits_def leaves_channels_def exec_keeps_def
        await_suspended_def await_termination_poll_def isolation_poll_def poll_isolated
        exec_bind_def flag_wait_for_def)
  moreover have "?step ?a3 ?a4"
    using async_step.call [of ShutdownService ?a3 flag_env flag_api] by (simp add: start)
  moreover have "?step ?a4 demo_awaiting"
  proof -
    have "internal_step flag_env (async_service ?a4) True (async_service demo_awaiting)"
      using internal_step.act [of "async_service ?a4" ShutdownService "[]" "{#[SubscribeTermination]#}" flag_env]
      by (simp add: start demo_awaiting_def drive_simps apply_effect_def notify_if_terminated_locked_def)
    moreover have "deliver flag_api ?a4 (async_service demo_awaiting) = demo_awaiting"
      by (auto simp: start deliver_def Let_def demo_awaiting_def flag_state_of_def)
    ultimately show ?thesis
      using async_move.service [of flag_env ?a4 True "async_service demo_awaiting" flag_api]
      by (intro async_step.move) (simp only:)
  qed
  ultimately show ?thesis
    unfolding async_reachable_def by (meson rtranclp.rtrancl_into_rtrancl rtranclp.rtrancl_refl)
qed

lemma demo_awaiting_service:
  "reachable flag_env flag_start (async_service demo_awaiting)"
  by (rule async_service_reachable [OF flag_async_laws _ demo_awaiting_reachable]) simp

section \<open>A client that waits for room\<close>

text \<open>The generation, the termination flag, and whether the one receiver has news.\<close>

type_synonym room_state = "u64 \<times> bool \<times> bool"

definition room_watch :: "room_state watch_api" where
  "room_watch =
     \<lparr>capacity_send_modify = (\<lambda>f (g, t, n). (Returns (), (f g, t, True))),
      termination_send_if_modified =
        (\<lambda>f (g, t, n). case f t of (t', modified) \<Rightarrow> (Returns modified, (g, t', n))),
      capacity_value = fst,
      termination_value = (\<lambda>(g, t, n). t)\<rparr>"

definition room_api :: "(unit, unit, room_state) receiver_api" where
  "room_api =
     \<lparr>receiver_changed = (\<lambda>rx waker (g, t, n).
        (Returns (if n then PollReady (Inr ()) else PollPending), (g, t, False))),
      receiver_has_changed = (\<lambda>rx (g, t, n). Inr n),
      receiver_borrow = (\<lambda>rx. fst),
      receiver_borrow_and_update = (\<lambda>rx (g, t, n). (Returns g, (g, t, False))),
      receiver_is_closed = (\<lambda>rx x. False),
      receiver_mark_changed = (\<lambda>rx (g, t, n). (Returns (), (g, t, True))),
      receiver_mark_unchanged = (\<lambda>rx (g, t, n). (Returns (), (g, t, False))),
      receiver_same_channel = (\<lambda>rx rx'. True)\<rparr>"

definition room_env :: "(unit, room_state) environment" where
  "room_env =
     \<lparr>env_jobs =
        \<lparr>job_accept = (\<lambda>job. exec_return ()), job_run = (\<lambda>job. exec_return ()),
         job_cancel = (\<lambda>job. exec_return ()), job_drop = (\<lambda>job. exec_return ())\<rparr>,
      env_watch = Some room_watch, env_tracked_cancel = (\<lambda>n. exec_return ())\<rparr>"

lemma room_watch_laws: "watch_laws room_watch"
  by (auto simp: watch_laws_def room_watch_def exec_safe_def exec_keeps_def split: prod.splits)

definition room_client :: "unit capacity_changes" where
  "room_client = \<lparr>receiver = ()\<rparr>"

lemma room_poll:
  "receiver_changed room_api rx waker (g, t, n) =
     (Returns (if n then PollReady (Inr ()) else PollPending), (g, t, False))"
  "has_changed room_api cc (g, t, n) = Inr n"
  "same_channels (Some room_watch) (g, t, n) (g', t', n') \<longleftrightarrow> g' = g \<and> t' = t"
  by (auto simp: room_api_def has_changed_def same_channels_def room_watch_def)

lemma unit_client: "(cc :: unit capacity_changes) = room_client"
  by (cases cc) (simp add: room_client_def)

lemma room_receiver_laws: "receiver_laws room_watch room_api UNIV"
proof -
  have "\<forall>f x. has_changed room_api cc (snd (capacity_send_modify room_watch f x)) = Inr True"
    and "\<forall>f x p x'. fst (capacity_send_modify room_watch f x) = Unwinds p \<longrightarrow>
      has_changed room_api cc (snd (drop_payload p x')) = has_changed room_api cc x'"
    and "\<forall>f. exec_keeps (has_changed room_api cc) (termination_send_if_modified room_watch f)" for cc
    by (auto simp: room_watch_def room_poll exec_keeps_def split: prod.splits)
  moreover have "UNIV - {cc} = ({} :: unit capacity_changes set)" for cc
    using unit_client by fastforce
  then have "\<exists>x'. same_channels (Some room_watch) x x' \<and>
      same_receivers room_api (UNIV - {cc}) x x' \<and>
      (case has_changed room_api cc x of
         Inr True \<Rightarrow> receiver_changed room_api (receiver cc) waker x =
           (Returns (PollReady (Inr ())), x')
       | Inr False \<Rightarrow> receiver_changed room_api (receiver cc) waker x = (Returns PollPending, x') \<and>
           has_changed room_api cc x' = Inr False
       | Inl err \<Rightarrow> \<exists>r. receiver_changed room_api (receiver cc) waker x =
           (Returns (PollReady r), x'))" for cc waker x
    by (cases x) (auto simp: room_poll same_receivers_def split: bool.split)
  ultimately show ?thesis
    unfolding receiver_laws_def by blast
qed

lemma room_private: "private_receivers room_env room_watch room_api UNIV"
  using room_watch_laws room_receiver_laws
  by (auto simp: private_receivers_def private_channels_def leaves_channels_def room_env_def
      exec_keeps_def)

lemma room_env_ok: "env_ok room_env"
  using room_watch_laws by (auto simp: env_ok_def room_env_def exec_safe_def watch_ok_def)

text \<open>The only place is taken; the client's own submission was refused, and it sleeps.\<close>

definition room_full :: "(unit, room_state) system" where
  "room_full =
     \<lparr>sys_inner =
        \<lparr>lifecycle = Running, task_capacity = 1, num_threads = 1, next_task_id = 1, running = 0,
         running_tasks = {}, scheduled = 1, queue = [(0, ())], cancelling = {}\<rparr>,
      sys_ext = (0, False, False), threads = {#[Dispatch 1]#}, history = [Accepted 0]\<rparr>"

definition demo_dormant :: "(unit, room_state, unit) client_system" where
  "demo_dormant =
     \<lparr>client_service = room_full\<lparr>threads := {#[DropRejected False ()], [Dispatch 1]#}\<rparr>,
      submitting = {}, refused = {}, dormant = {room_client}\<rparr>"

abbreviation room_step ::
  "(unit, room_state, unit) client_system \<Rightarrow> (unit, room_state, unit) client_system \<Rightarrow> bool" where
  "room_step \<equiv> client_step room_env room_watch room_api (exec_return ()) UNIV"

lemma room_filled:
  "client_reachable room_env room_watch room_api (exec_return ()) UNIV
     (client_initial (initial_system 1 1 (0, False, False))) (client_initial room_full)"
proof -
  let ?s0 = "initial_system 1 1 (0, False, False) :: (unit, room_state) system"
  let ?s1 = "?s0\<lparr>threads := {#[Admit ()]#}\<rparr>"
  have "room_step (client_initial ?s0) (client_initial ?s1)"
    using client_step.call [of "Admit ()" "client_initial ?s0" room_env room_watch room_api
        "exec_return ()" UNIV]
    by (simp add: client_initial_def initial_system_def)
  moreover have "internal_step room_env ?s1 False room_full"
    using internal_step.act [of ?s1 "Admit ()" "[]" "{#}" room_env]
    by (simp add: drive_simps room_env_def room_full_def initial_system_def apply_effect_def)
  then have "room_step (client_initial ?s1) (client_initial room_full)"
    using client_step.service [of room_env "client_initial ?s1" False room_full room_watch room_api
        "exec_return ()" UNIV]
    by (simp add: client_initial_def wake_clients_def)
  ultimately show ?thesis
    by (simp add: client_reachable_def)
qed

lemma demo_dormant_reachable:
  "client_reachable room_env room_watch room_api (exec_return ()) UNIV
     (client_initial (initial_system 1 1 (0, False, False))) demo_dormant"
proof -
  let ?c1 = "(client_initial room_full)\<lparr>submitting := {room_client}\<rparr>"
  let ?c2 = "demo_dormant\<lparr>refused := {room_client}, dormant := {}\<rparr>"
  have "room_step (client_initial room_full) ?c1"
    using client_step.subscribed [of "exec_return ()" "client_initial room_full" room_client _ UNIV
        room_watch room_api room_env]
    by (simp add: client_initial_def capacity_changes_def exec_bind_def capacity_changes_from_def
        room_client_def clients_def room_full_def same_channels_def same_receivers_def)
  moreover have "room_step ?c1 ?c2"
    using client_step.submit [of room_client ?c1 "sys_inner room_full" room_env "()"
        "Returns (Inl Saturated)" "sys_inner room_full" "(0, False, False)"
        "effect_of [DropRejected False ()] [] (sys_inner room_full) (0, False, False)" _
        room_watch room_api "exec_return ()" UNIV]
    by (simp add: client_initial_def room_full_def client_move_to_def demo_dormant_def
        apply_effect_def drive_simps)
  moreover have "room_step ?c2 demo_dormant"
    using client_step.pending [of room_client ?c2 room_watch room_api UNIV "exec_return ()" _ _
        room_env "exec_return ()"]
    by (simp add: demo_dormant_def room_full_def client_move_to_def changed_poll_def changed_def
        poll_isolated room_api_def leaves_receivers_def leaves_channels_def exec_keeps_def)
  ultimately show ?thesis
    using room_filled unfolding client_reachable_def
    by (meson rtranclp.rtrancl_into_rtrancl)
qed

end
