(* ===== verification/Service_Builder.thy ===== *)
theory Service_Builder
  imports Service_State
begin

text \<open>
  \<open>RayonExecutorServiceBuilder\<close> (\<open>src/rayon_executor_service_builder.rs\<close>) and its error type
  (\<open>src/rayon_executor_service_build_error.rs\<close>). Rayon's pool builder is the parameter
  \<open>rayon_api\<close>; \<open>thread::available_parallelism\<close> is an argument, \<open>None\<close> when it fails.
\<close>

datatype 'err build_error =
  ZeroThreadCount | ZeroStackSize | ZeroTaskCapacity | BuildFailed 'err

record executor_service_builder =
  builder_num_threads :: usize
  builder_thread_name_prefix :: string
  builder_stack_size :: "usize option"
  builder_task_capacity :: usize

record ('pool, 'err) rayon_api =
  pool_build :: "usize \<Rightarrow> (usize \<Rightarrow> string) \<Rightarrow> usize option \<Rightarrow> 'err + 'pool"
  current_num_threads :: "'pool \<Rightarrow> usize"

definition set_num_threads :: "usize \<Rightarrow> executor_service_builder \<Rightarrow> executor_service_builder" where
  "set_num_threads n b = b\<lparr>builder_num_threads := n\<rparr>"

definition set_thread_name_prefix ::
  "string \<Rightarrow> executor_service_builder \<Rightarrow> executor_service_builder" where
  "set_thread_name_prefix prefix b = b\<lparr>builder_thread_name_prefix := prefix\<rparr>"

definition set_stack_size :: "usize \<Rightarrow> executor_service_builder \<Rightarrow> executor_service_builder" where
  "set_stack_size n b = b\<lparr>builder_stack_size := Some n\<rparr>"

definition set_task_capacity :: "usize \<Rightarrow> executor_service_builder \<Rightarrow> executor_service_builder" where
  "set_task_capacity n b = b\<lparr>builder_task_capacity := n\<rparr>"

text \<open>\<open>format!\<close> of an unsigned number: its decimal digits.\<close>

definition decimal_digit :: "nat \<Rightarrow> char" where
  "decimal_digit d = char_of (48 + d)"

fun decimal :: "nat \<Rightarrow> string" where
  "decimal n =
     (if n < 10 then [decimal_digit n] else decimal (n div 10) @ [decimal_digit (n mod 10)])"

declare decimal.simps [simp del]

definition worker_name :: "string \<Rightarrow> usize \<Rightarrow> string" where
  "worker_name prefix index = prefix @ ''-'' @ decimal (unat index)"

definition build ::
  "('pool, 'err) rayon_api \<Rightarrow> executor_service_builder \<Rightarrow>
     'err build_error + 'pool \<times> 'job rayon_executor_service_inner" where
  "build rayon b =
     (if builder_num_threads b = 0 then Inl ZeroThreadCount
      else if builder_stack_size b = Some 0 then Inl ZeroStackSize
      else if builder_task_capacity b = 0 then Inl ZeroTaskCapacity
      else
        case pool_build rayon (builder_num_threads b) (worker_name (builder_thread_name_prefix b))
            (builder_stack_size b) of
          Inl source \<Rightarrow> Inl (BuildFailed source)
        | Inr pool \<Rightarrow> Inr (pool, new_state (builder_task_capacity b) (current_num_threads rayon pool)))"

definition default_rayon_thread_count :: "usize option \<Rightarrow> usize" where
  "default_rayon_thread_count parallelism = (case parallelism of Some n \<Rightarrow> n | None \<Rightarrow> 1)"

definition default_thread_name_prefix :: string where
  "default_thread_name_prefix = ''qubit-rayon-executor''"

definition default_builder :: "usize option \<Rightarrow> executor_service_builder" where
  "default_builder parallelism =
     \<lparr>builder_num_threads = default_rayon_thread_count parallelism,
      builder_thread_name_prefix = default_thread_name_prefix,
      builder_stack_size = None,
      builder_task_capacity = 1024\<rparr>"

text \<open>\<open>RayonExecutorService::builder\<close> and \<open>RayonExecutorService::new\<close>.\<close>

definition service_builder :: "usize option \<Rightarrow> executor_service_builder" where
  "service_builder parallelism = default_builder parallelism"

definition new_service ::
  "('pool, 'err) rayon_api \<Rightarrow> usize option \<Rightarrow>
     'err build_error + 'pool \<times> 'job rayon_executor_service_inner" where
  "new_service rayon parallelism = build rayon (service_builder parallelism)"

fun display_build_error :: "('err \<Rightarrow> string) \<Rightarrow> 'err build_error \<Rightarrow> string" where
  "display_build_error show_source ZeroThreadCount =
     ''rayon executor service thread count must be greater than zero''"
| "display_build_error show_source ZeroStackSize =
     ''rayon executor service stack size must be greater than zero''"
| "display_build_error show_source ZeroTaskCapacity =
     ''rayon executor service task capacity must be greater than zero''"
| "display_build_error show_source (BuildFailed source) =
     ''failed to build rayon executor service: '' @ show_source source"

section \<open>Decimal numbers are injective\<close>

definition undecimal :: "string \<Rightarrow> nat" where
  "undecimal = foldl (\<lambda>n c. 10 * n + (of_char c - 48)) 0"

lemma of_char_decimal_digit: "d < 10 \<Longrightarrow> (of_char (decimal_digit d) :: nat) = 48 + d"
  by (simp add: decimal_digit_def)

lemma undecimal_decimal: "undecimal (decimal n) = n"
proof (induction n rule: decimal.induct)
  case (1 n)
  show ?case
  proof (cases "n < 10")
    case True
    then show ?thesis
      by (simp add: decimal.simps [of n] undecimal_def of_char_decimal_digit)
  next
    case False
    with 1 have "undecimal (decimal (n div 10)) = n div 10"
      by simp
    then have "undecimal (decimal (n div 10) @ [decimal_digit (n mod 10)]) =
        10 * (n div 10) + n mod 10"
      by (simp add: undecimal_def of_char_decimal_digit)
    with False show ?thesis
      by (simp add: decimal.simps [of n])
  qed
qed

lemma decimal_inject: "decimal m = decimal n \<longleftrightarrow> m = n"
  by (metis undecimal_decimal)

section \<open>Worker names can be read back\<close>

text \<open>
  The reader of a worker name: what follows the last hyphen is the index, what precedes it the
  prefix. Prefixes may contain hyphens and digits themselves.
\<close>

definition parse_worker_name :: "string \<Rightarrow> string \<times> usize" where
  "parse_worker_name name =
     (let digits = rev (takeWhile (\<lambda>c. c \<noteq> CHR ''-'') (rev name))
      in (take (length name - Suc (length digits)) name, of_nat (undecimal digits)))"

lemma decimal_no_hyphen: "CHR ''-'' \<notin> set (decimal n)"
proof (induction n rule: decimal.induct)
  case (1 n)
  have "decimal_digit d \<noteq> CHR ''-''" if "d < 10" for d
  proof
    assume "decimal_digit d = CHR ''-''"
    then have "(of_char (decimal_digit d) :: nat) = of_char CHR ''-''"
      by simp
    with that show False
      by (simp add: of_char_decimal_digit)
  qed
  with 1 show ?case
    by (auto simp: decimal.simps [of n] dest: sym)
qed

lemma parse_worker_name: "parse_worker_name (worker_name prefix index) = (prefix, index)"
proof -
  have "\<forall>c \<in> set (decimal (unat index)). c \<noteq> CHR ''-''"
    using decimal_no_hyphen by metis
  then have "takeWhile (\<lambda>c. c \<noteq> CHR ''-'') (rev (worker_name prefix index)) =
      rev (decimal (unat index))"
    by (simp add: worker_name_def takeWhile_append2 takeWhile_tail)
  then show ?thesis
    by (simp add: parse_worker_name_def worker_name_def undecimal_decimal)
qed

end
