(* ===== verification/Spec2Isabelle.thy ===== *)
theory Spec2Isabelle
  imports Wait_Scenarios Service_Builder
begin

text \<open>
  A verification development of \<open>qubit-rayon-executor\<close>, a bounded executor service on a Rayon thread
  pool; file names below are relative to the crate's \<open>src/\<close>.

  The program. A client submits tasks to a \<open>RayonExecutorService\<close>. One mutex guards the record
  \<open>RayonExecutorServiceInner\<close>: lifecycle, capacity, identifier counter, the queue of pending jobs,
  the tasks being run and being cancelled, and the number of worker closures reserved. Admission
  queues a job and reserves closures, which the service passes to Rayon's \<open>spawn_fifo\<close>; a closure
  (\<open>run_one\<close>) takes the oldest job, runs it outside the lock inside a panic boundary, and hands its
  reservation to a successor or gives it back. \<open>stop\<close> and task handles claim queued jobs, cancel them
  outside the lock, and release their capacity afterwards. Termination (not running, nothing queued,
  running or cancelling) is announced through a condition variable and, with the feature
  \<open>async-wait\<close>, through two \<open>tokio::sync::watch\<close> channels that are written after the unlock.

  The theories, and the source they model:
    \<^item> \<open>RE_Prelude\<close>: \<open>usize\<close> and \<open>u64\<close> as 64-bit words, \<open>saturating_sub\<close>, \<open>checked_add\<close>, lengths as
      machine words, and the lemmas that read them as natural numbers.
    \<^item> \<open>Btree_Queue\<close>: the standard library's \<open>BTreeMap\<close> as the queue uses it; the locale
      \<open>ordered_queue\<close> is its contract with the scheduler.
    \<^item> \<open>Unwind\<close>: panics, payloads whose destructors are code, aborts, and
      \<open>internal/panic_payload.rs\<close>; the locale \<open>panic_boundary\<close> is the contract of a contained call.
    \<^item> \<open>Service_State\<close>: \<open>internal/rayon_executor_service_inner.rs\<close>, \<open>internal/admission.rs\<close>,
      \<open>internal/cancel_disposition.rs\<close>, \<open>rayon_executor_service_stats.rs\<close>, and the locked part of each
      method of \<open>rayon_executor_service_state.rs\<close>, with the invariant \<open>inner_ok\<close>.
    \<^item> \<open>Notifications\<close>: \<open>notify_async_changes\<close> and \<open>subscribe_termination\<close> of the same file, what they
      write and which receivers they notify.
    \<^item> \<open>Queued_Jobs\<close>: \<open>queued_job.rs\<close>, \<open>internal/callable_job.rs\<close>, \<open>internal/runnable_job.rs\<close>; the closure
      a job hands to the task runner with its captured value and its destructor, and that whichever
      method consumes a job destroys the user's task exactly once.
    \<^item> \<open>Executor_Service\<close>: the methods of \<open>rayon_executor_service.rs\<close> and \<open>run_one\<close>, each as one
      function over the record, the outside state and the closures spawned so far.
    \<^item> \<open>Task_Handle\<close>: \<open>rayon_task_handle.rs\<close>, the inherent methods and the trait methods.
    \<^item> \<open>Wakers\<close>: \<open>internal/panic_isolating_wake.rs\<close>, \<open>internal/waker_panic_isolation.rs\<close>,
      \<open>capacity_changes.rs\<close>, \<open>capacity_changes_changed.rs\<close>, and \<open>await_termination\<close> as the state
      machine of its \<open>async fn\<close>.
    \<^item> \<open>Service_Builder\<close>: \<open>rayon_executor_service_builder.rs\<close>, \<open>rayon_executor_service_build_error.rs\<close>.
    \<^item> \<open>Interleaving\<close>: the service under concurrency. A thread is a list of actions, an action is one
      critical section, one call of user code, or one publication; any thread may move at any time.
      Client calls are submissions, cancellations through a handle or a detached endpoint,
      \<open>shutdown\<close>, \<open>stop\<close> and termination subscriptions.
    \<^item> \<open>System_Invariant\<close>: safety of all interleavings (\<open>sys_ok\<close>: the counters are what the threads
      hold, and every accepted task is in exactly one place), over the locale \<open>invariant_system\<close>.
      Its extension \<open>simulation_system\<close> carries a simulation from single steps to runs; it is
      interpreted for the phase of a task, the observed lifecycle, the account of capacity, and the
      service inside each system of waiters.
      \<open>perform_effects\<close> is the case rule of a single action: the table of what it does in every
      branch, over which the lemmas of the later theories run.
    \<^item> \<open>Progress\<close>: the locale \<open>progress_system\<close> extends \<open>invariant_system\<close> by a measure; the threads of the service
      always finish.
    \<^item> \<open>Channels\<close>: the lifecycle only moves forward, releases are published, the termination channel
      agrees with the record (\<open>chan_ok\<close>).
    \<^item> \<open>Capacity_Account\<close>: the capacity generation counts the releases of capacity exactly.
    \<^item> \<open>Phases\<close>: the automaton of one task, which the system refines.
    \<^item> \<open>Bounded_Bypass\<close>: a queued task is overtaken by nothing that stood behind it.
    \<^item> \<open>Executor_Spec\<close>: the abstract bounded executor, an automaton over events, what it promises
      (\<open>spec_ok\<close>), and the simulation: the events of every interleaving are one of its runs.
    \<^item> \<open>Task_Histories\<close>: the events of one task are a beginning of one of two lives.
    \<^item> \<open>Endpoint\<close>: what the three actions of a detached cancellation endpoint may rely on while
      other threads move between them.
    \<^item> \<open>Termination_Wait\<close>: the blocking waits, and waiters beside the system: no lost wake-up.
    \<^item> \<open>Wait_Progress\<close>: liveness of the waits: after shutdown or stop every waiter returns.
    \<^item> \<open>Timed_Wait\<close>: callers of \<open>wait_for_termination_timeout\<close> beside the system and a moving clock:
      no early give-up, no lost wake-up, and every caller answered once its time is over.
    \<^item> \<open>Async_Wait\<close>: tasks that await termination beside the system, with every poll of
      \<open>await_termination\<close> as the code does it. Each has a receiver that has or has not looked at the
      latest version; a parked one is woken only by a write whose closure reports a modification.
      No lost wake-up, and all complete after shutdown or stop.
    \<^item> \<open>Backpressure\<close>: clients of \<open>capacity_changes\<close> that follow the documented protocol (subscribe,
      submit, wait for \<open>changed\<close>, submit again) beside the system: no signal is lost (\<open>signal_ok\<close>).
    \<^item> \<open>Job_Custody\<close>: no interleaving leaks a job or destroys one twice, counted for each task on its
      own.
    \<^item> \<open>Sequential_Refinement\<close>: each method of \<open>Executor_Service\<close> and \<open>Task_Handle\<close> is a run of the
      interleaved system.
    \<^item> \<open>Scheduler\<close>, \<open>Wait_Scenarios\<close>: executable schedules, and the concrete environments and states
      of the witnesses.

  Code outside the crate is a parameter. Rayon appears only as the closures it is given: the model
  assumes no order among them and no bound on how many run at once, so what is proved holds for any
  pool. User tasks, the result slots and runners of \<open>qubit_executor\<close> (\<open>task_api\<close>), its tracked tasks
  (\<open>tracked_api\<close>), tokio's channels (\<open>watch_api\<close>, \<open>await_api\<close>, \<open>receiver_api\<close>) and the pool builder
  (\<open>rayon_api\<close>) are functions on an unknown state \<open>'x\<close> that may return, unwind, or abort. The hypotheses on them are
  named: \<open>watch_laws\<close> (what \<open>send_modify\<close> and \<open>send_if_modified\<close> do to the channel's value),
  \<open>exec_safe\<close> (the code does not abort the process, nor do destructors of its panic payloads),
  \<open>env_ok\<close> (the environment of the progress theorems), \<open>private_channels\<close> (user code has no
  access to the senders, which are private fields), \<open>notify_laws\<close> (a \<open>send_if_modified\<close> notifies the
  receivers exactly when the closure returns true), \<open>subscribes_fresh\<close>, \<open>wait_for_sound\<close> and
  \<open>wait_for_prompt\<close> (a new receiver has a version to look at, and when \<open>wait_for\<close> is ready),
  \<open>wait_for_laws\<close> (subscribing gives a new receiver; a poll is ready or pending as the value and what
  the receiver has looked at decide, and leaves other receivers alone), \<open>private_waits\<close> (user code
  leaves the receivers of the crate's futures alone), \<open>receiver_laws\<close> and \<open>private_receivers\<close> (a
  receiver has news after a write to the capacity channel until its owner takes it; on a closed channel
  a poll of \<open>changed\<close> does not stay pending), \<open>task_laws\<close> and \<open>counts_task\<close> (what destroys a task: its
  own destructor, run by nobody but the owner of the job or of the closure; the runner may drop a
  closure without calling it). Polls are those outside tokio's cooperative budget, which may make a
  future pending and wake it at once, and a write to a channel is one action with its notification.
  The mutex is what makes an action one step; \<open>parking_lot\<close> does not poison, so an \<open>accept\<close> that
  panics under the lock releases it.

  Bounds. Nothing is bounded: capacities, worker counts, the number of threads, tasks and waiters are
  arbitrary. The words wrap as in Rust; \<open>inner_ok\<close> shows that no counter ever does. An exhausted
  identifier counter is a branch of \<open>admit\<close>. Progress uses the measure \<open>potential\<close> instead of fuel.

  Not modelled: how Rayon distributes closures over threads, \<open>Clone\<close> and \<open>Debug\<close> implementations,
  the re-exports of \<open>lib.rs\<close> and \<open>internal/mod.rs\<close>, reference counting, the unit test at the end of
  \<open>rayon_task_handle.rs\<close>, destructors of task results, time other than for the timed waits, and fairness
  among clients that wait for capacity (the crate promises none).
  A job that never returns is a thread that never takes its next step.
\<close>

section \<open>Every interleaving\<close>

text \<open>
  C1. Exactly once. In every reachable state, whatever the interleaving, each accepted task is in
  exactly one place: in the queue, owned by the one thread that is to run or to cancel it, or ended;
  and no identifier is given out twice. No task is lost, duplicated, or both run and cancelled.
\<close>

theorem exactly_once:
  assumes "reachable env (initial_system capacity workers x) s"
  shows "mset (map fst (queue (sys_inner s))) + total owned_ids (threads s) + ended (history s) =
      accepted (history s) \<and>
    (\<forall>n. count (accepted (history s)) n \<le> 1)"
  using reachable_ok [OF assms] by (simp add: sys_ok_def ledger_def)

lemma exactly_once_witness:
  "mset (map fst (queue (sys_inner demo_busy))) + total owned_ids (threads demo_busy) +
     ended (history demo_busy) = accepted (history demo_busy) \<and>
   (\<forall>n. count (accepted (history demo_busy)) n \<le> 1)"
  by (rule exactly_once [OF demo_reach(1)])

text \<open>
  C2. The service is a bounded executor. The events of any interleaving, in the order they
  happened, are a run of the abstract automaton: tasks are accepted only while the service is open
  and below its capacity, with ascending identifiers; workers take the oldest waiting task and at
  most \<open>workers\<close> are active; a task's code runs once, between its claim and its release; and room
  is given back only after the code has ended. The automaton ends in the state the record and the
  threads show.
\<close>

theorem trace_refinement:
  assumes "reachable env (initial_system capacity workers x) s"
  shows "\<exists>sp. spec_run (unat capacity) (unat workers) (history s) spec_initial = Some sp \<and>
    (spec_open sp \<longleftrightarrow> lifecycle (sys_inner s) = Running) \<and>
    spec_waiting sp = map fst (queue (sys_inner s)) \<and>
    spec_active sp = running_tasks (sys_inner s) \<and>
    spec_claimed sp = cancelling (sys_inner s) \<and>
    mset_set (spec_pending sp) = total owned_ids (threads s)"
  using reachable_refines [OF assms] reachable_config(1,2) [OF assms]
  by (auto simp: refines_def simulates_def)

lemma trace_refinement_witness:
  "\<exists>sp. spec_run (unat (2 :: usize)) (unat (1 :: usize))
     [Accepted 0, Started 0, Accepted 1, Closed, Claimed 1, CancelRan 1, Released 1, Executed 0,
      Released 0] spec_initial = Some sp \<and> spec_waiting sp = [] \<and> \<not> spec_open sp"
  using trace_refinement [OF demo_reach(2)] by (auto simp: demo_owing_def simp del: spec_run.simps)

text \<open>
  C3. No interleaving leaks a task or destroys one twice. Count, for each task \<open>u\<close> on its own, the
  runs of its destructor. In any run, what has been counted for \<open>u\<close> and the jobs alive that hold \<open>u\<close>
  (about to be admitted, refused and not yet dropped, queued, about to be run or cancelled) add up to
  the submissions of \<open>u\<close>; and when all threads are done, with at least one worker, every task has been
  destroyed exactly as often as it was submitted, whether it ran, panicked, was cancelled or was
  refused. A task that leaks cannot be made up for by another that is destroyed twice.
\<close>

theorem job_custody:
  assumes "\<forall>u. counts_task (drops u) u api" and "env_jobs env = queued_job_methods api"
    and "\<forall>u n. exec_adds (drops u) 0 (env_tracked_cancel env n)"
    and "\<forall>u c t. exec_adds (drops u) 0 (notify_async_changes (env_watch env) c t)"
    and "custody_run drops env ({#}, initial_system capacity workers x) (J, s)"
  shows "(\<forall>u. drops u (sys_ext s) + tally_of task_of (jobs_alive s) u =
      drops u x + tally_of task_of J u) \<and>
    (threads s = {#} \<and> workers \<noteq> 0 \<longrightarrow>
      (\<forall>u. drops u (sys_ext s) = drops u x + tally_of task_of J u))"
proof -
  note ok = custody_run_ok [OF queued_jobs_custody [OF assms(1-4)] assms(5)]
  with custody_over [OF ok(1)] reachable_config(2) [OF ok(2)] show ?thesis
    by auto
qed

lemma job_custody_witness:
  "sys_ext demo_settled (Inl True) = 1 \<and> sys_ext demo_settled (Inr False) = 1 \<and>
     sys_ext demo_settled (Inl False) = 0 \<and>
   (\<forall>u. sys_ext demo_settled u = 0 + tally_of task_of {#CallableJob True (), RunnableJob False#} u)"
proof -
  have "\<forall>u. counts_task (\<lambda>x. x u) u tally_tasks"
    by (simp add: tally_tasks_count)
  from job_custody [OF this _ _ _ demo_settled_run]
  have "\<forall>u. sys_ext demo_settled u = 0 + tally_of task_of {#CallableJob True (), RunnableJob False#} u"
    by (simp add: demo_task_env_def notify_async_changes_def) (simp add: demo_settled_def)
  then show ?thesis
    by simp
qed

text \<open>
  C4. Every task has one of two lives. In every interleaving the events of a task are a beginning of
  accepted, started, executed, released, or of accepted, claimed, cancelled, released: a task whose
  cancellation was claimed never runs, a task a worker took is never cancelled, each of the two ends at
  most once and in this order. Where the record has the task says how far its life has got.
\<close>

theorem two_lives:
  assumes "reachable env (initial_system capacity workers x) s"
    and "es = filter (\<lambda>e. event_task e = Some n) (history s)"
  shows "(es = take (length es) [Accepted n, Started n, Executed n, Released n] \<or>
     es = take (length es) [Accepted n, Claimed n, CancelRan n, Released n]) \<and>
    (n \<in> btree_keys (queue (sys_inner s)) \<longrightarrow> es = [Accepted n]) \<and>
    (n \<in> running_tasks (sys_inner s) \<longrightarrow>
       es = [Accepted n, Started n] \<or> es = [Accepted n, Started n, Executed n]) \<and>
    (n \<in> cancelling (sys_inner s) \<longrightarrow>
       es = [Accepted n, Claimed n] \<or> es = [Accepted n, Claimed n, CancelRan n])"
proof -
  obtain sp where sim: "simulates (sys_inner s) (total owned_ids (threads s)) (history s) sp"
    and ok: "spec_ok (unat (task_capacity (sys_inner s))) (unat (num_threads (sys_inner s))) sp"
    and "life_so_far sp n (task_events n (history s))"
    by (rule reachable_life [OF assms(1)])
  then have life: "life_so_far sp n es"
    by (simp add: assms(2) task_events_def)
  from life_so_far_take [OF life] life_so_far_places [OF ok life] sim show ?thesis
    by (simp add: simulates_def run_life_def cancel_life_def btree_keys_def)
qed

lemma two_lives_witness:
  "filter (\<lambda>e. event_task e = Some 1) (history demo_busy) = [Accepted 1] \<and>
   1 \<in> btree_keys (queue (sys_inner demo_busy))"
  using two_lives [OF demo_reach(1) refl, of 1] by (simp add: demo_busy_def btree_keys_def)

text \<open>
  C5. Progress. With at least one worker and user code that returns or unwinds, the threads can
  always move on until all of them are done, and however they move, when none can move any more no
  thread is left: every accepted task has ended exactly once, nothing is queued, running or
  cancelling, no worker reservation is held, and the service reports \<open>Terminated\<close> if shutdown or
  stop was requested.
\<close>

theorem all_accepted_tasks_end:
  assumes "env_ok env" and "workers \<noteq> 0"
    and "reachable env (initial_system capacity workers x) s"
  shows "(\<exists>s'. internal_run env s s' \<and> (\<nexists>w s''. internal_step env s' w s'')) \<and>
    (\<forall>s'. internal_run env s s' \<and> (\<nexists>w s''. internal_step env s' w s'') \<longrightarrow>
       threads s' = {#} \<and> ended (history s') = accepted (history s') \<and>
       occupied (sys_inner s') = 0 \<and> scheduled (sys_inner s') = 0 \<and>
       (lifecycle (sys_inner s') \<noteq> Running \<longrightarrow> observed_lifecycle (sys_inner s') = Terminated))"
proof (rule conjI, goal_cases)
  case 1
  obtain s' where "internal_run env s s'" and "threads s' = {#}"
    using work.reaches_final [of env s] assms(1) reachable_ok [OF assms(3)]
    unfolding internal_run_def by blast
  then show ?case
    by (auto elim!: internal_stepE)
next
  case 2
  show ?case
  proof (intro allI impI, elim conjE)
    fix s'
    assume run: "internal_run env s s'" and stuck: "\<nexists>w s''. internal_step env s' w s''"
    have idle: "threads s' = {#}"
      using internal_enabled [OF assms(1), of s'] stuck by blast
    have ok: "sys_ok s'"
      by (rule internal_run_ok [OF run reachable_ok [OF assms(3)]])
    have "num_threads (sys_inner s') \<noteq> 0"
      using internal_run_config [OF run] reachable_config(2) [OF assms(3)] assms(2) by simp
    note empty = idle_system_empty [OF ok idle this]
    have inner: "inner_ok (sys_inner s')" and "balanced (sys_inner s') {#}"
      using ok idle by (simp_all add: sys_ok_def)
    then have "scheduled (sys_inner s') = 0"
      by (simp add: balanced_def usize_eq_0_iff)
    moreover have "occupied (sys_inner s') = 0"
      using empty by (simp add: occupied_zero [OF inner])
    ultimately show "threads s' = {#} \<and> ended (history s') = accepted (history s') \<and>
        occupied (sys_inner s') = 0 \<and> scheduled (sys_inner s') = 0 \<and>
        (lifecycle (sys_inner s') \<noteq> Running \<longrightarrow> observed_lifecycle (sys_inner s') = Terminated)"
      using idle empty(4) by (simp add: observed_lifecycle_def)
  qed
qed

lemma all_accepted_tasks_end_witness:
  "\<exists>s'. internal_run demo_env demo_busy s' \<and> (\<nexists>w s''. internal_step demo_env s' w s'')"
  using all_accepted_tasks_end [OF demo_env_ok _ demo_reach(1)] by simp

text \<open>
  C6. Every blocking wait returns. After shutdown or stop, with at least one worker and user code
  that returns or unwinds, the threads of the service and the callers of \<open>wait_termination\<close> can
  always move on until none can; and however they moved, then no caller is awake or blocked any
  more: all that had called have returned. No fairness and no further call or wake-up is needed.
\<close>

theorem blocking_waits_return:
  assumes "env_ok env" and "workers \<noteq> 0"
    and "wait_reachable env (wait_initial (initial_system capacity workers x)) ws"
    and "is_not_running (sys_inner (service ws))"
  shows "(\<exists>ws'. wait_run env ws ws' \<and> (\<nexists>ws''. wait_move env ws' ws'')) \<and>
    (\<forall>ws'. wait_run env ws ws' \<and> (\<nexists>ws''. wait_move env ws' ws'') \<longrightarrow>
       awake ws' = 0 \<and> blocked ws' = 0 \<and>
       returned ws' = returned ws + awake ws + blocked ws)"
proof (rule conjI)
  obtain ws' where run: "wait_run env ws ws'" and "threads (service ws') = {#}" "awake ws' = 0"
    using waits.reaches_final [of env ws] assms(1) wait_reachable_ok [OF assms(3)]
    unfolding wait_run_moves by blast
  then have "\<nexists>ws''. wait_move env ws' ws''"
    by (auto elim!: wait_moveE internal_stepE)
  with run show "\<exists>ws'. wait_run env ws ws' \<and> (\<nexists>ws''. wait_move env ws' ws'')"
    by blast
next
  show "\<forall>ws'. wait_run env ws ws' \<and> (\<nexists>ws''. wait_move env ws' ws'') \<longrightarrow>
      awake ws' = 0 \<and> blocked ws' = 0 \<and> returned ws' = returned ws + awake ws + blocked ws"
    using stuck_waits_returned [OF assms(1,2,3)] assms(4) by (auto simp: is_not_running_def)
qed

lemma blocking_waits_return_witness:
  "\<exists>ws'. wait_run demo_env ((wait_initial demo_owing)\<lparr>awake := 1\<rparr>) ws' \<and>
     awake ws' = 0 \<and> blocked ws' = 0 \<and> returned ws' = 1"
proof -
  from wait_reachable.step [OF reachable_without_waiters [OF demo_reach(2)] wait_step.enter]
  have "wait_reachable demo_env (wait_initial (initial_system 2 1 (0, False, 0)))
      ((wait_initial demo_owing)\<lparr>awake := 1\<rparr>)"
    by (simp add: wait_initial_def)
  from blocking_waits_return [OF demo_env_ok _ this] show ?thesis
    by (force simp: wait_initial_def demo_owing_def is_not_running_def)
qed

text \<open>
  C7. Termination. The threads that exist make at most \<open>potential s\<close> moves before all of them are
  done: no worker closure respawns itself for ever, and no cancellation loops.
\<close>

theorem internal_runs_bounded:
  assumes "env_ok env" and "reachable env (initial_system capacity workers x) s"
    and "((\<lambda>s s'. \<exists>w. internal_step env s w s') ^^ n) s s'"
  shows "n + potential s' \<le> potential s"
  using work.moves_bounded [OF assms(3)] assms(1) reachable_ok [OF assms(2)] by blast

lemma internal_runs_bounded_witness:
  "1 + potential (demo_busy\<lparr>threads := mset [[], [RunJob 0 True, FinishRunning 0], [Dispatch 0]]\<rparr>)
     \<le> potential demo_busy"
  using demo_dispatch_step by (intro internal_runs_bounded [OF demo_env_ok demo_reach(1)]) auto

text \<open>
  C8. The accepted-task limit. At every moment the tasks queued, running and being cancelled number
  at most the configured capacity, and the machine sum \<open>occupied\<close>, against which admission is
  decided, is that number: it never wraps.
\<close>

theorem capacity_respected:
  assumes "reachable env (initial_system capacity workers x) s"
  shows "unat (occupied (sys_inner s)) =
      length (queue (sys_inner s)) + card (running_tasks (sys_inner s)) +
      card (cancelling (sys_inner s)) \<and>
    occupied (sys_inner s) \<le> capacity"
proof -
  have ok: "inner_ok (sys_inner s)"
    using reachable_ok [OF assms] by (simp add: sys_ok_def)
  from unat_occupied [OF ok] inner_okD(4,5) [OF ok] reachable_config(1) [OF assms] show ?thesis
    by (simp add: word_le_nat_alt)
qed

lemma capacity_respected_witness:
  "unat (occupied (sys_inner demo_busy)) =
      length (queue (sys_inner demo_busy)) + card (running_tasks (sys_inner demo_busy)) +
      card (cancelling (sys_inner demo_busy)) \<and>
    occupied (sys_inner demo_busy) \<le> 2"
  by (rule capacity_respected [OF demo_reach(1)])

text \<open>
  C9. The worker limit. The worker closures that are still to be spawned, waiting to start, or
  running a job are exactly \<open>scheduled\<close>, they never exceed the number of Rayon threads, and the
  tasks marked running are exactly those of the closures that still have to finish one.
\<close>

theorem workers_respected:
  assumes "reachable env (initial_system capacity workers x) s"
  shows "total reserved (threads s) = unat (scheduled (sys_inner s)) \<and>
    scheduled (sys_inner s) \<le> workers \<and>
    total running_ids (threads s) = mset_set (running_tasks (sys_inner s)) \<and>
    card (running_tasks (sys_inner s)) \<le> unat (scheduled (sys_inner s))"
proof -
  have ok: "inner_ok (sys_inner s)" and "balanced (sys_inner s) (threads s)"
    using reachable_ok [OF assms] by (simp_all add: sys_ok_def)
  with inner_okD(7) [OF ok] reachable_config(2) [OF assms] show ?thesis
    by (simp add: balanced_def counters_ok_def word_le_nat_alt)
qed

lemma workers_respected_witness:
  "total reserved (threads demo_busy) = unat (scheduled (sys_inner demo_busy)) \<and>
    scheduled (sys_inner demo_busy) \<le> 1 \<and>
    total running_ids (threads demo_busy) = mset_set (running_tasks (sys_inner demo_busy)) \<and>
    card (running_tasks (sys_inner demo_busy)) \<le> unat (scheduled (sys_inner demo_busy))"
  by (rule workers_respected [OF demo_reach(1)])

text \<open>
  C10. The cancellation endpoint's race. The endpoint first finds its task absent from the queue,
  then looks in a second critical section whether it is running, and only if not asks the tracked
  task to cancel. Whatever other threads do between the three actions, once a thread is to ask the
  tracked task the service is done with it for good: the task is neither queued nor running nor
  being cancelled, and if it was ever accepted its code has ended. So the endpoint never cancels a
  task that a worker has claimed but not finished.
\<close>

theorem endpoint_cancels_late:
  assumes "reachable env (initial_system capacity workers x) s"
    and "k \<in># threads s" and "TrackedCancel n \<in> set k"
    and "reachable env s s'"
  shows "n \<notin> btree_keys (queue (sys_inner s')) \<and> n \<notin> running_tasks (sys_inner s') \<and>
    n \<notin> cancelling (sys_inner s') \<and>
    count (ended (history s')) n = count (accepted (history s')) n"
proof -
  have "task_phase (sys_inner s) n = Finished"
    using reachable_endpoints_ok [OF assms(1)] assms(2,3)
    by (auto simp: endpoints_ok_def list_all_iff dest!: bspec)
  with run_phases [OF assms(4) reachable_ok [OF assms(1)], of n]
  have "task_phase (sys_inner s') n = Finished"
    using phase_steps_claimed by force
  with finished_has_ended [OF reachable_refines [OF reachable_trans [OF assms(4,1)]]] show ?thesis
    by (auto simp: task_phase_def split: if_splits)
qed

lemma endpoint_cancels_late_witness:
  "(0 :: usize) \<notin> btree_keys (queue (sys_inner demo_late)) \<and>
    0 \<notin> running_tasks (sys_inner demo_late) \<and> 0 \<notin> cancelling (sys_inner demo_late) \<and>
    count (ended (history demo_late)) 0 = count (accepted (history demo_late)) 0"
  by (rule endpoint_cancels_late [OF demo_reach(4), of "[TrackedCancel 0]"])
    (simp_all add: reachable.initial, simp add: demo_late_def)

text \<open>
  C11. No lost wake-up. Among any number of callers of \<open>wait_termination\<close> beside any interleaving,
  none is blocked on the condition variable while the service is terminated, and none has returned
  while it is not: the critical section that completes termination always notifies.
\<close>

theorem no_lost_wakeup:
  assumes "wait_reachable env (wait_initial (initial_system capacity workers x)) ws"
  shows "(observed_lifecycle (sys_inner (service ws)) = Terminated \<longrightarrow> blocked ws = 0) \<and>
    (observed_lifecycle (sys_inner (service ws)) \<noteq> Terminated \<longrightarrow> returned ws = 0)"
proof -
  have "wait_ok ws"
    by (rule wait_reachable_ok [OF assms])
  moreover have "lifecycle (sys_inner (service ws)) \<noteq> Terminated"
    by (rule wait_reachable_raw [OF assms])
  ultimately show ?thesis
    by (auto simp: wait_ok_def must_wait_iff observed_lifecycle_eq)
qed

lemma no_lost_wakeup_witness:
  "observed_lifecycle (sys_inner demo_initial) \<noteq> Terminated \<and>
   returned ((wait_initial demo_initial)\<lparr>awake := 0, blocked := 1\<rparr>) = 0"
proof -
  let ?w0 = "wait_initial (initial_system 2 1 (0, False, 0)) :: (bool, demo_state) wait_system"
  have "wait_reachable demo_env ?w0 (?w0\<lparr>awake := Suc (awake ?w0)\<rparr>)"
    by (rule wait_reachable.step [OF wait_reachable.initial wait_step.enter])
  from wait_reachable.step [OF this wait_step.block [of _ 0]]
  have "wait_reachable demo_env ?w0 (?w0\<lparr>awake := 0, blocked := 1\<rparr>)"
    by (simp add: wait_initial_def initial_system_def new_state_def must_wait_def)
  from no_lost_wakeup [OF this] show ?thesis
    by (simp add: demo_initial_def wait_initial_def)
qed

text \<open>
  C12. Timed waits, however they interleave with the service and with the clock. No caller sleeps
  while the service is terminated; no sleep is due to end before the caller's deadline; an answer
  \<open>true\<close> is given only when the service is terminated; and an answer \<open>false\<close> never comes before the
  full timeout has passed since the call.
\<close>

theorem timed_waits_exact:
  assumes "timed_reachable env (timed_initial (initial_system capacity workers x) now) ts"
  shows "(sleeping ts \<noteq> {#} \<longrightarrow> observed_lifecycle (sys_inner (timed_service ts)) \<noteq> Terminated) \<and>
    (\<forall>(since, timeout, until) \<in># sleeping ts. since + timeout \<le> until) \<and>
    (\<forall>(since, timeout, at, result) \<in># answered ts. since \<le> at \<and> at \<le> clock ts \<and>
       (if result then observed_lifecycle (sys_inner (timed_service ts)) = Terminated
        else since + timeout \<le> at))"
proof -
  have "observed_lifecycle (sys_inner (timed_service ts)) = Terminated \<longleftrightarrow>
      drained (sys_inner (timed_service ts))"
    using reachable_config(3) [OF timed_service_reachable [OF assms]]
    by (simp add: observed_lifecycle_eq)
  with timed_reachable_ok [OF assms] show ?thesis
    unfolding timed_ok_def must_wait_iff by fastforce
qed

lemma timed_waits_exact_witness: "(7 :: nat) + 5 \<le> 12 \<and> 12 \<le> clock demo_timed"
  using timed_waits_exact [OF demo_timed_reachable] by (simp add: demo_timed_def)

text \<open>
  C13. Timed waits return. Between two ticks of the clock the threads of the service and the callers
  can make only finitely many moves, however they are ordered; when no more is possible, every caller
  has its answer except those that sleep until a later instant, and if shutdown or stop was requested
  no caller sleeps at all. No caller is forgotten.
\<close>

theorem timed_waits_return:
  assumes "env_ok env" and "workers \<noteq> 0"
    and "timed_reachable env (timed_initial (initial_system capacity workers x) now) ts"
  shows "(\<exists>ts'. timed_run env ts ts' \<and> (\<nexists>ts''. timed_move env ts' ts'')) \<and>
    (\<forall>n ts'. (timed_move env ^^ n) ts ts' \<longrightarrow> n \<le> timed_potential ts) \<and>
    (\<forall>ts'. timed_run env ts ts' \<and> (\<nexists>ts''. timed_move env ts' ts'') \<longrightarrow>
       looking ts' = {#} \<and> (\<forall>(since, timeout, until) \<in># sleeping ts'. clock ts < until) \<and>
       size (sleeping ts') + size (answered ts') = callers ts + size (answered ts) \<and>
       (is_not_running (sys_inner (timed_service ts)) \<longrightarrow> sleeping ts' = {#}))"
proof (intro conjI)
  note ok = timed_reachable_ok [OF assms(3)]
  show "\<exists>ts'. timed_run env ts ts' \<and> (\<nexists>ts''. timed_move env ts' ts'')"
    by (rule timed_run_exists [OF assms(1) ok])
  show "\<forall>n ts'. (timed_move env ^^ n) ts ts' \<longrightarrow> n \<le> timed_potential ts"
    using timed_moves_bounded [OF assms(1) ok] by blast
  show "\<forall>ts'. timed_run env ts ts' \<and> (\<nexists>ts''. timed_move env ts' ts'') \<longrightarrow>
       looking ts' = {#} \<and> (\<forall>(since, timeout, until) \<in># sleeping ts'. clock ts < until) \<and>
       size (sleeping ts') + size (answered ts') = callers ts + size (answered ts) \<and>
       (is_not_running (sys_inner (timed_service ts)) \<longrightarrow> sleeping ts' = {#})"
    unfolding is_not_running_def using stuck_timed_waits [OF assms] by blast
qed

lemma timed_waits_return_witness:
  "\<exists>ts'. timed_run demo_env demo_entered ts' \<and> looking ts' = {#} \<and> sleeping ts' = {#} \<and>
     size (answered ts') = 1"
proof -
  have "callers demo_entered = 1" "answered demo_entered = {#}"
    and "is_not_running (sys_inner (timed_service demo_entered))"
    by (simp_all add: demo_entered_def timed_initial_def callers_def is_not_running_def demo_owing_def)
  note facts = this
  note returns = timed_waits_return [OF demo_env_ok _ demo_entered_reachable, simplified]
  obtain ts' where run: "timed_run demo_env demo_entered ts'"
    and stuck: "\<nexists>ts''. timed_move demo_env ts' ts''"
    using returns by blast
  with returns facts(3) have "looking ts' = {#}" "sleeping ts' = {#}"
    and "size (sleeping ts') + size (answered ts') =
      callers demo_entered + size (answered demo_entered)"
    by blast+
  with facts run show ?thesis
    by auto
qed

text \<open>
  C14. The termination channel. With job code that has no access to the two senders, the channel
  says \<open>true\<close> only when the service is terminated; and when it is terminated the channel says so,
  unless some thread still has that publication before it.
\<close>

theorem termination_channel_exact:
  assumes "private_channels env w" and "\<not> termination_value w x"
    and "reachable env (initial_system capacity workers x) s"
  shows "(termination_value w (sys_ext s) \<longrightarrow> observed_lifecycle (sys_inner s) = Terminated) \<and>
    (observed_lifecycle (sys_inner s) = Terminated \<longrightarrow>
       termination_value w (sys_ext s) \<or> owes_termination (threads s))"
  using reachable_chan_ok [OF assms] reachable_config(3) [OF assms(3)]
  by (auto simp: chan_ok_def observed_lifecycle_eq)

lemma termination_channel_exact_witness:
  "termination_value demo_watch (sys_ext demo_owing) \<or> owes_termination (threads demo_owing)"
  using termination_channel_exact [OF demo_private _ demo_reach(2)]
  by (simp add: demo_owing_def observed_lifecycle_def occupied_def list_len_def set_len_def)

text \<open>
  C15. Tasks that await termination, however they interleave with the service. With any number of
  them entering, polling, parking, being woken without reason and being dropped, one is told to go on
  only when the service is terminated; nobody is parked once the flag of the channel is up; and if a
  task is parked beside a terminated service, some thread still has the publication before it that
  will wake it. No wake-up is lost, although tokio wakes the receivers only when the closure that
  writes the flag reports a modification.
\<close>

theorem awaiting_tasks_exact:
  assumes "async_laws env t" and "\<not> aw_value t x"
    and "async_reachable env t (async_initial (initial_system capacity workers x)) ws"
  shows "(completed ws \<noteq> 0 \<longrightarrow> observed_lifecycle (sys_inner (async_service ws)) = Terminated) \<and>
    (parked ws \<noteq> {} \<longrightarrow> \<not> aw_value t (async_ext ws)) \<and>
    (parked ws \<noteq> {} \<and> observed_lifecycle (sys_inner (async_service ws)) = Terminated \<longrightarrow>
      owes_termination (threads (async_service ws)))"
proof -
  note ok = async_okD [OF async_reachable_ok [OF assms]]
  have "observed_lifecycle (sys_inner (async_service ws)) = Terminated \<longleftrightarrow>
      drained (sys_inner (async_service ws))"
    using reachable_config(3) [OF async_service_reachable [OF assms]]
    by (simp add: observed_lifecycle_eq)
  with ok(2,4) parked_flag_down [OF ok(3)] show ?thesis
    unfolding chan_ok_def by blast
qed

lemma awaiting_tasks_exact_witness:
  "parked demo_awaiting = {0} \<and> \<not> aw_value flag_api (async_ext demo_awaiting) \<and>
     owes_termination (threads (async_service demo_awaiting))"
  using awaiting_tasks_exact [OF flag_async_laws _ demo_awaiting_reachable]
  by (simp add: demo_awaiting_def observed_lifecycle_def occupied_def list_len_def set_len_def
      new_state_def)

text \<open>
  C16. Awaiting termination ends. The threads of the service and the tasks that await can make only
  finitely many moves (spurious wake-ups and new callers aside), however they are ordered. When no
  more is possible every task has completed or is parked, none is lost; and if shutdown or stop had
  been requested, every one of them has completed: each has been notified of the flag, because the
  closure that raises it reports the modification.
\<close>

theorem awaiting_tasks_complete:
  assumes "async_laws env t" and "env_ok env" and "workers \<noteq> 0" and "\<not> aw_value t x"
    and "async_reachable env t (async_initial (initial_system capacity workers x)) ws"
  shows "(\<exists>ws'. async_run env t ws ws' \<and> (\<nexists>ws''. async_move env t ws' ws'')) \<and>
    (\<forall>n ws'. (async_move env t ^^ n) ws ws' \<longrightarrow> n \<le> async_potential ws) \<and>
    (\<forall>ws'. async_run env t ws ws' \<and> (\<nexists>ws''. async_move env t ws' ws'') \<longrightarrow>
       unresumed ws' = 0 \<and> polling ws' = {} \<and>
       card (parked ws') + completed ws' = async_callers ws + completed ws \<and>
       (is_not_running (sys_inner (async_service ws)) \<longrightarrow> parked ws' = {}))"
proof (intro conjI)
  note ok = async_reachable_ok [OF assms(1,4,5)]
  show "\<exists>ws'. async_run env t ws ws' \<and> (\<nexists>ws''. async_move env t ws' ws'')"
    by (rule async_run_exists [OF assms(1,2) ok])
  show "\<forall>n ws'. (async_move env t ^^ n) ws ws' \<longrightarrow> n \<le> async_potential ws"
    using async_moves_bounded [OF assms(1,2) ok] by blast
  show "\<forall>ws'. async_run env t ws ws' \<and> (\<nexists>ws''. async_move env t ws' ws'') \<longrightarrow>
       unresumed ws' = 0 \<and> polling ws' = {} \<and>
       card (parked ws') + completed ws' = async_callers ws + completed ws \<and>
       (is_not_running (sys_inner (async_service ws)) \<longrightarrow> parked ws' = {})"
    unfolding is_not_running_def using stuck_async_waits [OF assms] by blast
qed

lemma awaiting_tasks_complete_witness:
  "\<exists>ws'. async_run flag_env flag_api demo_awaiting ws' \<and> completed ws' = 1 \<and> parked ws' = {}"
proof -
  have closed: "is_not_running (sys_inner (async_service demo_awaiting))"
    and facts: "async_callers demo_awaiting = 1" "completed demo_awaiting = 0"
    by (simp_all add: demo_awaiting_def async_callers_def is_not_running_def)
  have "\<not> aw_value flag_api (0, False, 0, {})"
    by simp
  note ends = awaiting_tasks_complete [OF flag_async_laws flag_env_ok one_neq_zero this
      demo_awaiting_reachable]
  obtain ws' where run: "async_run flag_env flag_api demo_awaiting ws'"
    and stuck: "\<nexists>ws''. async_move flag_env flag_api ws' ws''"
    using ends by blast
  with ends closed have "parked ws' = {}"
    and "card (parked ws') + completed ws' = async_callers demo_awaiting + completed demo_awaiting"
    by blast+
  with facts run show ?thesis
    by auto
qed

text \<open>
  C17. The asynchronous wait. With senders that other code has no access to, a poll of
  \<open>await_termination\<close>, the first one or a later one, is ready only when the service is terminated;
  and the first poll of a wait that begins on a terminated service is ready at once (outside
  tokio's cooperative budget), even if termination was published before anybody subscribed or its
  publication is still to be made. A poll reads the record and the channel in one step here.
\<close>

theorem async_wait_exact:
  assumes "private_channels env w" and "\<not> termination_value w x"
    and "reachable env (initial_system capacity workers x) s"
    and "wait_for_sound w wait_for"
    and "exec_keeps (termination_value w) subscribe" and "subscribe (sys_ext s) = (Returns rx, x1)"
  shows "(\<forall>st st' x'.
      await_termination w subscribe wait_for (sys_inner s) st waker (sys_ext s) =
        (Returns (st', PollReady ()), x') \<longrightarrow>
      observed_lifecycle (sys_inner s) = Terminated) \<and>
    (\<forall>seen. notify_laws w seen \<and> subscribes_fresh seen subscribe \<and> wait_for_prompt w seen wait_for \<and>
      observed_lifecycle (sys_inner s) = Terminated \<longrightarrow>
      (\<exists>x'. await_termination w subscribe wait_for (sys_inner s) AwaitUnresumed waker (sys_ext s) =
        (Returns (AwaitReturned, PollReady ()), x')))"
proof -
  have behind: "termination_value w (sys_ext s) \<Longrightarrow> drained (sys_inner s)"
    using reachable_chan_ok [OF assms(1-3)] by (simp add: chan_ok_def)
  have lifecycle: "observed_lifecycle (sys_inner s) = Terminated \<longleftrightarrow> drained (sys_inner s)"
    using reachable_config(3) [OF assms(3)] by (simp add: observed_lifecycle_eq)
  have laws: "watch_laws w"
    using assms(1) by (simp add: private_channels_def)
  show ?thesis
    unfolding lifecycle
    using await_termination_ready [OF laws assms(5,6,4) behind]
      await_termination_at_once [OF laws assms(5,6)] by blast
qed

lemma async_wait_exact_witness:
  "\<exists>x'. await_termination flag_watch (aw_subscribe flag_api) flag_wait_for
     (sys_inner (async_service demo_awaiting)) AwaitUnresumed (exec_return ())
     (sys_ext (async_service demo_awaiting)) = (Returns (AwaitReturned, PollReady ()), x')"
proof -
  have over: "observed_lifecycle (sys_inner (async_service demo_awaiting)) = Terminated"
    by (simp add: demo_awaiting_def observed_lifecycle_def occupied_def list_len_def set_len_def
        new_state_def)
  have "exec_keeps (termination_value flag_watch) (aw_subscribe flag_api)"
    by (auto simp: exec_keeps_def)
  moreover have "aw_subscribe flag_api (async_ext demo_awaiting) = (Returns 1, (0, False, 2, {0}))"
    by (simp add: demo_awaiting_def)
  moreover have "\<not> termination_value flag_watch (0, False, 0, {})"
    by simp
  ultimately show ?thesis
    using async_wait_exact [OF flag_private _ demo_awaiting_service flag_polls(1)] over flag_polls(2,3)
      flag_notify_laws
    by blast
qed

text \<open>
  C18. No capacity change is missed. Between any two moments of a run the capacity generation,
  counting the publications still owed, has advanced by exactly the number of releases and of
  shutdown or stop requests in between (modulo two to the 64), and at least so many as the accepted
  tasks became fewer. So a client that reads the generation, is refused for lack of room and finds
  the generation unchanged has either no room gained or a publication on its way.
\<close>

theorem capacity_changes_counted:
  assumes "private_channels env w" and "reachable env (initial_system capacity workers x) s"
    and "reachable env s s'"
  shows "capacity_value w (sys_ext s') + of_nat (total capacity_owed (threads s')) =
      capacity_value w (sys_ext s) + of_nat (total capacity_owed (threads s)) +
      of_nat (releases (history s') - releases (history s)) \<and>
    unat (occupied (sys_inner s)) - unat (occupied (sys_inner s'))
      \<le> releases (history s') - releases (history s)"
proof -
  note gives = run_gives_back [OF assms(3) reachable_ok [OF assms(2)]]
  have "capacity_account w (capacity_value w x) s" and "capacity_account w (capacity_value w x) s'"
    using reachable_capacity_account [OF assms(1)] assms(2) reachable_trans [OF assms(3,2)] by blast+
  with gives show ?thesis
    by (auto simp: capacity_account_def of_nat_diff algebra_simps)
qed

lemma capacity_changes_counted_witness:
  "capacity_value demo_watch (sys_ext demo_over) + of_nat (total capacity_owed (threads demo_over)) =
      capacity_value demo_watch (sys_ext demo_busy) +
      of_nat (total capacity_owed (threads demo_busy)) +
      of_nat (releases (history demo_over) - releases (history demo_busy)) \<and>
    unat (occupied (sys_inner demo_busy)) - unat (occupied (sys_inner demo_over))
      \<le> releases (history demo_over) - releases (history demo_busy)"
  by (rule capacity_changes_counted [OF demo_private demo_reach(1) demo_busy_over])

text \<open>
  C19. No capacity signal is lost. Clients follow the documented protocol: subscribe, submit, and
  when refused as saturated poll \<open>changed\<close>, sleep while it is pending, and submit again. In every
  interleaving of clients and service, a refused client whose receiver has no news is one for which
  there is no room, or a thread still has the publication before it; a client sleeps only if its
  receiver has no news; and beside a service with nothing left to do (and at least one worker and
  one place) nobody sleeps.
\<close>

theorem capacity_signal_kept:
  assumes "private_receivers env w api R"
    and "client_reachable env w api subscribe R (client_initial (initial_system capacity workers x)) cs"
  shows "(\<forall>cc \<in> refused cs \<union> dormant cs. has_changed api cc (client_ext cs) = Inr True \<or>
      (lifecycle (sys_inner (client_service cs)) = Running \<and>
        capacity \<le> occupied (sys_inner (client_service cs))) \<or>
      total capacity_owed (threads (client_service cs)) \<noteq> 0) \<and>
    (\<forall>cc \<in> dormant cs. has_changed api cc (client_ext cs) \<noteq> Inr True) \<and>
    (threads (client_service cs) = {#} \<and> workers \<noteq> 0 \<and> capacity \<noteq> 0 \<longrightarrow> dormant cs = {})"
proof -
  have "task_capacity (sys_inner (client_service cs)) = capacity"
    by (rule reachable_config(1) [OF client_service_reachable [OF assms]])
  with client_reachable_ok [OF assms] idle_nobody_dormant [OF assms(1) _ _ assms(2)] show ?thesis
    by (auto simp: signal_ok_def signalled_def no_room_def)
qed

lemma capacity_signal_kept_witness:
  "room_client \<in> dormant demo_dormant \<and> 1 \<le> occupied (sys_inner (client_service demo_dormant))"
proof -
  have "room_client \<in> dormant demo_dormant" "total capacity_owed (threads (client_service demo_dormant)) = 0"
    by (simp_all add: demo_dormant_def)
  with capacity_signal_kept [OF room_private demo_dormant_reachable] show ?thesis
    by blast
qed

text \<open>
  C20. Refused clients are woken. Let clients have been refused and asleep, at any moment of any run.
  The service's own threads make at most \<open>potential\<close> moves, and when they have made all they can no
  client sleeps any more: every one of them has news and will submit again. No further call of
  anybody is needed for it, and no client is lost on the way.
\<close>

theorem refused_clients_wake:
  assumes "env_ok env" and "private_receivers env w api R" and "workers \<noteq> 0" and "capacity \<noteq> 0"
    and "client_reachable env w api subscribe R (client_initial (initial_system capacity workers x)) cs"
  shows "(\<exists>cs'. serve_run env api cs cs' \<and> (\<nexists>cs''. serve env api cs' cs'')) \<and>
    (\<forall>n cs'. (serve env api ^^ n) cs cs' \<longrightarrow> n \<le> potential (client_service cs)) \<and>
    (\<forall>cs'. serve_run env api cs cs' \<and> (\<nexists>cs''. serve env api cs' cs'') \<longrightarrow>
       dormant cs' = {} \<and> submitting cs' = submitting cs \<and> clients cs' = clients cs \<and>
       (\<forall>cc \<in> refused cs'. has_changed api cc (client_ext cs') = Inr True))"
proof (intro conjI)
  note ok = client_reachable_ok [OF assms(2,5)]
  show "\<exists>cs'. serve_run env api cs cs' \<and> (\<nexists>cs''. serve env api cs' cs'')"
    using serve_run_exists [OF assms(1,2) ok] by (auto elim!: serveE internal_stepE)
  show "\<forall>n cs'. (serve env api ^^ n) cs cs' \<longrightarrow> n \<le> potential (client_service cs)"
    using serve_moves_bounded [OF assms(1,2) ok] by blast
  show "\<forall>cs'. serve_run env api cs cs' \<and> (\<nexists>cs''. serve env api cs' cs'') \<longrightarrow>
       dormant cs' = {} \<and> submitting cs' = submitting cs \<and> clients cs' = clients cs \<and>
       (\<forall>cc \<in> refused cs'. has_changed api cc (client_ext cs') = Inr True)"
    using stuck_serving [OF assms] by blast
qed

lemma refused_clients_wake_witness:
  "\<exists>cs'. serve_run room_env room_api demo_dormant cs' \<and> refused cs' = {room_client} \<and>
     has_changed room_api room_client (client_ext cs') = Inr True"
proof -
  note wake = refused_clients_wake [OF room_env_ok room_private one_neq_zero one_neq_zero
      demo_dormant_reachable]
  obtain cs' where run: "serve_run room_env room_api demo_dormant cs'"
    and stuck: "\<nexists>cs''. serve room_env room_api cs' cs''"
    using wake by blast
  with wake have "dormant cs' = {}" "submitting cs' = submitting demo_dormant"
    "clients cs' = clients demo_dormant"
    "\<forall>cc \<in> refused cs'. has_changed room_api cc (client_ext cs') = Inr True"
    by blast+
  moreover from this have "refused cs' = {room_client}"
    by (auto simp: clients_def demo_dormant_def)
  ultimately show ?thesis
    using run by auto
qed

text \<open>
  C21. First in, first out. The tasks that workers have taken were taken in ascending order of their
  identifiers, which is the order of admission, and every one of them before the tasks now queued.
\<close>

theorem started_in_order:
  assumes "reachable env (initial_system capacity workers x) s"
  shows "sorted_wrt (<) (started (history s)) \<and>
    (\<forall>n \<in> set (started (history s)). \<forall>m \<in> btree_keys (queue (sys_inner s)). n < m)"
  using reachable_ok [OF assms] by (auto simp: sys_ok_def fifo_def)

lemma started_in_order_witness:
  "sorted_wrt (<) (started (history demo_busy)) \<and> (0 :: usize) < 1"
  using started_in_order [OF demo_reach(1)] by (simp add: demo_busy_def started_def)

text \<open>
  C22. Bounded waiting. From the moment a queued task is looked at, and for as long as it stays
  queued, workers start at most as many tasks as stood ahead of it at that moment. Later submissions
  never overtake it, however threads interleave and however many workers there are.
\<close>

theorem bounded_bypass:
  assumes "reachable env (initial_system capacity workers x) s" and "reachable env s s'"
    and "n \<in> btree_keys (queue (sys_inner s))" and "n \<in> btree_keys (queue (sys_inner s'))"
  shows "length (started (history s')) \<le> length (started (history s)) + ahead_of n (sys_inner s)"
  by (rule bypass_bounded [OF reachable_ok [OF assms(1)] assms(2-4)])

lemma bounded_bypass_witness:
  "length (started (history demo_late)) \<le> length (started (history demo_busy)) +
     ahead_of 1 (sys_inner demo_busy)"
  by (rule bounded_bypass [OF demo_reach(1) demo_busy_late])
    (simp_all add: demo_busy_def demo_late_def btree_keys_def)

text \<open>
  C23. The lifecycle reported to clients moves only forward, from \<open>Running\<close> through
  \<open>ShuttingDown\<close> and \<open>Stopping\<close> to \<open>Terminated\<close>, over any continuation of any run; in particular
  a service that was observed to be terminated stays so.
\<close>

theorem lifecycle_moves_forward:
  assumes "reachable env (initial_system capacity workers x) s" and "reachable env s s'"
  shows "observed_lifecycle (sys_inner s) \<le> observed_lifecycle (sys_inner s')"
  by (rule run_observed(1) [OF assms])

lemma lifecycle_moves_forward_witness:
  "observed_lifecycle (sys_inner demo_busy) \<le> observed_lifecycle (sys_inner demo_over)"
  by (rule lifecycle_moves_forward [OF demo_reach(1) demo_busy_over])

text \<open>
  C24. Admission closes for good. Once shutdown or stop has been requested, no continuation of the
  run accepts another task, whatever submissions are in flight.
\<close>

theorem admission_closed:
  assumes "reachable env (initial_system capacity workers x) s" and "reachable env s s'"
    and "is_not_running (sys_inner s)"
  shows "accepted (history s') = accepted (history s) \<and> is_not_running (sys_inner s')"
  using run_observed(2) [OF assms] by simp

lemma admission_closed_witness:
  "accepted (history demo_over) = accepted (history demo_owing) \<and>
   is_not_running (sys_inner demo_over)"
  by (rule admission_closed [OF demo_reach(2) demo_owing_over])
    (simp add: demo_owing_def is_not_running_def)

text \<open>
  C25. Well-formedness. In every reachable state the locked record has the shape its fields promise:
  the queue's keys are ascending and hence distinct, no task is in two of queue, running set and
  cancelling set, all identifiers in use are below the next one, the running counter is the size of
  the running set, and running, reserved and pool size are ordered.
\<close>

theorem record_well_formed:
  assumes "reachable env (initial_system capacity workers x) s"
  shows "let i = sys_inner s in
    sorted_wrt (<) (map fst (queue i)) \<and> finite (running_tasks i) \<and> finite (cancelling i) \<and>
    btree_keys (queue i) \<inter> (running_tasks i \<union> cancelling i) = {} \<and>
    running_tasks i \<inter> cancelling i = {} \<and>
    btree_keys (queue i) \<union> running_tasks i \<union> cancelling i \<subseteq> {n. n < next_task_id i} \<and>
    unat (running i) = card (running_tasks i) \<and>
    running i \<le> scheduled i \<and> scheduled i \<le> num_threads i \<and>
    task_capacity i = capacity \<and> num_threads i = workers \<and> lifecycle i \<noteq> Terminated"
proof -
  have ok: "inner_ok (sys_inner s)"
    using reachable_ok [OF assms] by (simp add: sys_ok_def)
  show ?thesis
    using inner_okD [OF ok] reachable_config [OF assms]
    by (auto simp: Let_def tasks_ok_def counters_ok_def btree_ok_def word_le_nat_alt)
qed

lemma record_well_formed_witness:
  "let i = sys_inner demo_busy in
    sorted_wrt (<) (map fst (queue i)) \<and> finite (running_tasks i) \<and> finite (cancelling i) \<and>
    btree_keys (queue i) \<inter> (running_tasks i \<union> cancelling i) = {} \<and>
    running_tasks i \<inter> cancelling i = {} \<and>
    btree_keys (queue i) \<union> running_tasks i \<union> cancelling i \<subseteq> {n. n < next_task_id i} \<and>
    unat (running i) = card (running_tasks i) \<and>
    running i \<le> scheduled i \<and> scheduled i \<le> num_threads i \<and>
    task_capacity i = 2 \<and> num_threads i = 1 \<and> lifecycle i \<noteq> Terminated"
  by (rule record_well_formed [OF demo_reach(1)])

section \<open>The methods, without interruption\<close>

text \<open>
  C26. \<open>run_one\<close> accounts for a job whatever the job does. A worker closure that finds a job takes
  the oldest one, and whether the job returns or panics, the closure returns normally: the task is no
  longer running, its capacity is free, and the closure either spawned its successor on the same
  reservation or gave the reservation back.
\<close>

theorem run_one_accounts:
  assumes "watch_ok watch" and "exec_safe (job_run jobs job)"
    and "inner_ok (inner st)" and "queue (inner st) = (n, job) # q"
    and "running (inner st) < scheduled (inner st)"
  shows "\<exists>x'. run_one jobs watch st =
    (Returns (),
     st\<lparr>inner := (inner st)
          \<lparr>queue := q,
           scheduled := (if q = [] then scheduled (inner st) - 1 else scheduled (inner st))\<rparr>,
        ext := x',
        spawned := spawned st + (if q = [] then 0 else 1)\<rparr>)"
  by (rule run_one_effect [OF assms])

lemma run_one_accounts_witness:
  "\<exists>x'. run_one demo_jobs None
      \<lparr>inner = \<lparr>lifecycle = Running, task_capacity = 2, num_threads = 1, next_task_id = 1,
         running = 0, running_tasks = {}, scheduled = 1, queue = [(0, True)], cancelling = {}\<rparr>,
       ext = (0, False, 0), spawned = 0\<rparr> =
    (Returns (),
     \<lparr>inner = \<lparr>lifecycle = Running, task_capacity = 2, num_threads = 1, next_task_id = 1,
         running = 0, running_tasks = {}, scheduled = 0, queue = [], cancelling = {}\<rparr>,
      ext = x', spawned = 0\<rparr>)"
  using run_one_accounts [of None demo_jobs True "\<lparr>inner = \<lparr>lifecycle = Running, task_capacity = 2,
      num_threads = 1, next_task_id = 1, running = 0, running_tasks = {}, scheduled = 1,
      queue = [(0, True)], cancelling = {}\<rparr>, ext = (0, False, 0), spawned = 0\<rparr>" 0 "[]"]
  by (simp add: watch_ok_def demo_job_safe inner_ok_defs btree_ok_def word_less_nat_alt)

text \<open>
  C27. The worker closure of the sequential model is a run of the interleaved one: taking the actions
  of a \<open>TakeNext\<close> thread one after another, beside any other threads, gives exactly the state that
  \<open>run_one\<close> computes, with the spawned successor as a new thread.
\<close>

theorem run_one_refines:
  assumes "run_one (env_jobs env) (env_watch env) st = (Returns (), st')"
  shows "\<exists>ev. internal_run env (as_system st (add_mset [TakeNext] others) h)
    (as_system st' others (h @ ev))"
  by (rule run_one_run [OF assms])

lemma run_one_refines_witness:
  "\<exists>ev. internal_run demo_env
     (as_system \<lparr>inner = new_state 2 1, ext = (0, False, 0), spawned = 0\<rparr> (add_mset [TakeNext] {#}) [])
     (as_system \<lparr>inner = new_state 2 1, ext = (0, False, 0), spawned = 0\<rparr> {#} ([] @ ev))"
  by (rule run_one_refines)
    (simp add: run_one_def locked_def new_state_def publish_signals_def on_ext_def drive_simps)

text \<open>
  C28. \<open>stop\<close> cancels every queued task and leaves nothing behind. Whatever the cancellations do,
  short of aborting, the method returns: admission is closed, the queue is empty, the claimed tasks
  have all left the cancelling set again, running tasks and earlier cancellations are untouched, and
  the report counts the tasks found queued, running, and cancelled.
\<close>

theorem stop_cancels_queue:
  assumes "watch_ok watch" and "\<And>n job. (n, job) \<in> set (queue (inner st)) \<Longrightarrow> exec_safe (job_cancel jobs job)"
    and "inner_ok (inner st)"
  shows "\<exists>x'. stop_service jobs watch st =
    (Returns
       \<lparr>report_queued = list_len (queue (inner st)), report_running = running (inner st),
        report_cancelled = list_len (queue (inner st))\<rparr>,
     st\<lparr>inner := (inner st)\<lparr>lifecycle := Stopping, queue := []\<rparr>, ext := x'\<rparr>)"
  by (rule stop_service_effect [OF assms])

lemma stop_cancels_queue_witness:
  "\<exists>x'. stop_service demo_jobs (Some demo_watch)
      \<lparr>inner = sys_inner demo_busy, ext = (0, False, 0), spawned = 0\<rparr> =
    (Returns \<lparr>report_queued = 1, report_running = 1, report_cancelled = 1\<rparr>,
     \<lparr>inner = (sys_inner demo_busy)\<lparr>lifecycle := Stopping, queue := []\<rparr>, ext = x', spawned = 0\<rparr>)"
  using stop_cancels_queue [of "Some demo_watch"
      "\<lparr>inner = sys_inner demo_busy, ext = (0, False, 0), spawned = 0\<rparr>" demo_jobs]
    reachable_ok [OF demo_reach(1)]
  by (simp add: watch_ok_def demo_watch_laws demo_job_safe sys_ok_def demo_busy_def list_len_def)

text \<open>
  C29. \<open>stop\<close> of the sequential model is a run of the interleaved one: the actions of a
  \<open>StopService\<close> thread, taken without interruption, reach the state the method computes, having
  run the cancellation of each task that was queued, in order.
\<close>

theorem stop_refines:
  assumes "stop_service (env_jobs env) (env_watch env) st = (Returns report, st')"
  shows "internal_run env (as_system st (add_mset [StopService] others) h)
    (let ids = map fst (queue (inner st)) in
       as_system st' others
         (h @ Closed # map Claimed ids @ concat (map (\<lambda>n. [CancelRan n, Released n]) ids)))"
  using stop_run [OF assms, of others h]
  by (simp add: stop_events_def cancel_events_def comp_def)

lemma stop_refines_witness:
  "\<exists>st'. internal_run demo_env
     (as_system \<lparr>inner = sys_inner demo_busy, ext = (0, False, 0), spawned = 0\<rparr>
        (add_mset [StopService] {#}) [])
     (as_system st' {#} [Closed, Claimed 1, CancelRan 1, Released 1])"
proof -
  let ?st = "\<lparr>inner = sys_inner demo_busy, ext = (0, False, 0), spawned = 0\<rparr>"
  obtain report st' where
    "stop_service (env_jobs demo_env) (env_watch demo_env) ?st = (Returns report, st')"
    using stop_service_effect [of "Some demo_watch" ?st demo_jobs] reachable_ok [OF demo_reach(1)]
    by (auto simp: watch_ok_def demo_watch_laws demo_job_safe sys_ok_def)
  from stop_refines [OF this, of "{#}" "[]"] show ?thesis
    by (auto simp: demo_busy_def)
qed

text \<open>
  C30. Cancellation through a handle or its endpoint. A queued task is removed, its job cancelled
  outside the lock, and its capacity released: the outcome is \<open>Cancelled\<close>. A task whose cancellation
  is in progress elsewhere gives \<open>Cancelled\<close> at once. Otherwise nothing changes and the fallback
  decides.
\<close>

theorem cancel_task_outcomes:
  assumes "watch_ok watch" and "inner_ok (inner st)"
    and "\<And>job. map_of (queue (inner st)) n = Some job \<Longrightarrow> exec_safe (job_cancel jobs job)"
  shows "if n \<in> btree_keys (queue (inner st))
    then \<exists>x'. cancel_task jobs watch n absent st =
      (Returns Cancelled,
       st\<lparr>inner := (inner st)\<lparr>queue := filter (\<lambda>p. fst p \<noteq> n) (queue (inner st))\<rparr>, ext := x'\<rparr>)
    else cancel_task jobs watch n absent st =
      (if n \<in> cancelling (inner st) then (Returns Cancelled, st) else absent st)"
  using cancel_task_effect [OF assms] by simp

lemma cancel_task_outcomes_witness:
  "\<exists>x'. cancel_task demo_jobs (Some demo_watch) 1 (exec_return AlreadyFinished)
      \<lparr>inner = sys_inner demo_busy, ext = (0, False, 0), spawned = 0\<rparr> =
    (Returns Cancelled,
     \<lparr>inner = (sys_inner demo_busy)\<lparr>queue := []\<rparr>, ext = x', spawned = 0\<rparr>)"
  using cancel_task_outcomes [of "Some demo_watch"
      "\<lparr>inner = sys_inner demo_busy, ext = (0, False, 0), spawned = 0\<rparr>" 1 demo_jobs
      "exec_return AlreadyFinished"]
    reachable_ok [OF demo_reach(1)]
  by (simp add: watch_ok_def demo_watch_laws demo_job_safe sys_ok_def demo_busy_def)

text \<open>
  C31. The detached endpoint of the sequential model is a run of the interleaved one, whichever way
  it goes: a queued task claimed and cancelled, a claim already in progress, a task found running,
  or the tracked task asked.
\<close>

theorem endpoint_refines:
  assumes "endpoint_cancel api (env_jobs env) (env_watch env) hdl st = (Returns result, st')"
    and "env_tracked_cancel env (handle_task_id hdl) =
      exec_bind (tracked_cancel api (tracked hdl)) (\<lambda>_. exec_return ())"
  shows "\<exists>ev. internal_run env
    (as_system st (add_mset [EndpointCancel (handle_task_id hdl)] others) h)
    (as_system st' others (h @ ev))"
  by (rule endpoint_cancel_run [OF assms])

lemma endpoint_refines_witness:
  "\<exists>ev. internal_run demo_env
    (as_system \<lparr>inner = sys_inner demo_over, ext = sys_ext demo_over, spawned = 0\<rparr>
      (add_mset [EndpointCancel 0] {#}) [])
    (as_system \<lparr>inner = sys_inner demo_over, ext = sys_ext demo_over, spawned = 0\<rparr> {#} ([] @ ev))"
  using endpoint_refines [of demo_tracked demo_env "\<lparr>tracked = (), handle_task_id = 0\<rparr>"
      "\<lparr>inner = sys_inner demo_over, ext = sys_ext demo_over, spawned = 0\<rparr>" AlreadyFinished
      "\<lparr>inner = sys_inner demo_over, ext = sys_ext demo_over, spawned = 0\<rparr>" "{#}" "[]"]
  by (simp add: endpoint_cancel_def cancel_task_def cancel_pending_task_def btree_remove_def
      endpoint_absent_def is_running_task_def on_ext_def demo_tracked_def demo_over_def demo_owing_def
      exec_bind_def exec_return_def)

text \<open>
  C32. The submission of a runnable, in full: after shutdown, or when the accepted tasks fill the
  capacity, the error says which, the service is unchanged, nothing is spawned, and the task is
  dropped; otherwise the task is queued under a fresh identifier behind all others, and one worker
  closure is spawned for every queued job that a free reservation exists for.
\<close>

theorem submit_runnable_contract:
  assumes "inner_ok (inner st)" and "next_task_id (inner st) \<noteq> - 1"
    and "runnable_drop api task (ext st) = (Returns (), x')"
  shows "submit api task st =
    (if lifecycle (inner st) \<noteq> Running then (Returns (Inl Shutdown), st\<lparr>ext := x'\<rparr>)
     else if occupied (inner st) \<ge> task_capacity (inner st)
     then (Returns (Inl Saturated), st\<lparr>ext := x'\<rparr>)
     else
       let count = min (list_len (queue (inner st)) + 1)
                       (saturating_sub (num_threads (inner st)) (scheduled (inner st)))
       in (Returns (Inr ()),
           st\<lparr>inner := (inner st)
                \<lparr>next_task_id := next_task_id (inner st) + 1,
                 queue := queue (inner st) @ [(next_task_id (inner st), RunnableJob task)],
                 scheduled := scheduled (inner st) + count\<rparr>,
              spawned := spawned st + unat count\<rparr>))"
  unfolding submit_def by (rule submit_runnable_effect [OF assms])

lemma submit_runnable_contract_witness:
  "submit demo_tasks True \<lparr>inner = new_state 3 2, ext = 0, spawned = 0\<rparr> =
     (Returns (Inr ()),
      \<lparr>inner = \<lparr>lifecycle = Running, task_capacity = 3, num_threads = 2, next_task_id = 1,
         running = 0, running_tasks = {}, scheduled = 1, queue = [(0, RunnableJob True)],
         cancelling = {}\<rparr>, ext = 0, spawned = 1\<rparr>)"
  using submit_runnable_contract [of "\<lparr>inner = new_state 3 2, ext = 0, spawned = 0\<rparr>" demo_tasks True 1]
  by (simp add: new_state_ok demo_tasks_def) (simp add: new_state_def occupied_def list_len_def
      set_len_def saturating_sub_def)

text \<open>
  C33. A submission of the sequential model is a run of the interleaved one, whether the runnable is
  accepted, refused, or its destructor runs: admission, then the spawning of the worker closures
  the admission asked for.
\<close>

theorem submit_refines:
  assumes "env_jobs env = queued_job_methods api"
    and "submit api task st = (Returns r, st')"
  shows "\<exists>ev. internal_run env (as_system st (add_mset [Admit (RunnableJob task)] others) h)
    (as_system st' others (h @ ev))"
  by (rule submit_runnable_run [OF assms [unfolded submit_def]])

lemma submit_refines_witness:
  "\<exists>ev. internal_run \<lparr>env_jobs = queued_job_methods demo_tasks, env_watch = None,
       env_tracked_cancel = (\<lambda>n. exec_return ())\<rparr>
     (as_system \<lparr>inner = new_state 0 1, ext = 0, spawned = 0\<rparr>
        (add_mset [Admit (RunnableJob False)] {#}) [])
     (as_system \<lparr>inner = new_state 0 1, ext = 1, spawned = 0\<rparr> {#} ([] @ ev))"
  by (rule submit_refines [where api = demo_tasks and r = "Inl Saturated"])
    (simp_all add: submit_def submit_runnable_def admit_job_def queued_job_methods_def demo_tasks_def on_ext_def
      drive_simps)

text \<open>
  C34. The two submissions of a callable are one: \<open>submit_tracked_callable\<close>, which the source writes
  out a second time, does exactly what \<open>submit_callable_with\<close> does, on every branch (success,
  refusal, a panic of the endpoint conversion, of \<open>accept\<close> or of a destructor, an abort), and adds
  to the handle the identifier under which the task was admitted.
\<close>

theorem tracked_submission_equivalent:
  "submit_tracked_callable api split handle_drop task st =
     exec_bind (submit_callable_with api split handle_drop task)
       (\<lambda>r. exec_return
          (case r of
             Inl e \<Rightarrow> Inl e
           | Inr h \<Rightarrow> Inr \<lparr>tracked = h, handle_task_id = next_task_id (inner st)\<rparr>)) st"
proof -
  have "tracked_result n r = (case r of Inl e \<Rightarrow> Inl e | Inr h \<Rightarrow> Inr \<lparr>tracked = h, handle_task_id = n\<rparr>)"
    for n and r :: "submission_error + 'a"
    by (cases r) (simp_all add: tracked_result_def rayon_task_handle_new_def)
  then show ?thesis
    by (simp add: tracked_submission_eq)
qed

text \<open>
  C35. A refused callable leaves no trace in the service: the locked record and the spawned closures
  are as before, the error is \<open>Shutdown\<close> exactly when the service is not running, and what runs of the
  user's code is the creation of the endpoint pair, then the destructors of the callable, of its
  slot and of the handle, in that order.
\<close>

theorem refused_callable_dropped:
  assumes "submit_callable api split handle_drop task st = (Returns (Inl e), st')"
  shows "inner st' = inner st \<and> spawned st' = spawned st \<and>
    (e = Shutdown \<longleftrightarrow> lifecycle (inner st) \<noteq> Running) \<and>
    (\<exists>handle slot x1 x2. split (ext st) = (Returns (handle, slot), x1) \<and>
       drop_after (callable_drop api task) (slot_drop api slot) x1 = (Returns (), x2) \<and>
       handle_drop handle x2 = (Returns (), ext st'))"
  by (rule submit_callable_refused [OF assms [unfolded submit_callable_def]])

lemma refused_callable_dropped_witness:
  "\<exists>handle slot x1 x2. (Returns ((), ()), 5 :: nat) = (Returns (handle :: unit, slot :: unit), x1) \<and>
     drop_after (callable_drop demo_tasks True) (slot_drop demo_tasks slot) x1 =
       (Returns (), x2) \<and>
     exec_return () x2 = (Returns (), 6)"
  using refused_callable_dropped [of demo_tasks "exec_return ((), ())" "\<lambda>h. exec_return ()" True
      "\<lparr>inner = new_state 0 1, ext = 5, spawned = 0\<rparr>" Saturated
      "\<lparr>inner = new_state 0 1, ext = 6, spawned = 0\<rparr>"]
  by (simp add: submit_callable_def submit_callable_with_def admit_job_def queued_job_methods_def demo_tasks_def on_ext_def
      drop_on_unwind_def drop_after_def drive_simps)

section \<open>The operations under the lock\<close>

text \<open>
  C36. Admission, on every branch. A service that is not running answers \<open>Shutdown\<close>, a full one
  \<open>Saturated\<close>, and neither changes anything; an exhausted identifier counter panics before anything
  is written. Success means that the job has accepted, stands last in the queue under the identifier
  that is returned, and that as many worker closures are reserved as there are queued jobs and free
  reservations. If accepting panics, the queue, the reservations and the accepted-task count are as
  before. The record's invariant survives every branch.
\<close>

theorem admit_contract:
  assumes "inner_ok s" and "admit accept job s x = (r, s', x')"
  shows "inner_ok s' \<and>
    (lifecycle s \<noteq> Running \<longrightarrow> r = Returns (Inl Shutdown) \<and> s' = s \<and> x' = x) \<and>
    (lifecycle s = Running \<and> task_capacity s \<le> occupied s \<longrightarrow>
       r = Returns (Inl Saturated) \<and> s' = s \<and> x' = x) \<and>
    (lifecycle s = Running \<and> occupied s < task_capacity s \<and> next_task_id s = - 1 \<longrightarrow>
       r = Unwinds message_payload \<and> s' = s \<and> x' = x) \<and>
    (\<forall>a. r = Returns (Inr a) \<longrightarrow>
       lifecycle s = Running \<and> occupied s < task_capacity s \<and>
       accept job x = (Returns (), x') \<and> admitted_task_id a = next_task_id s \<and>
       queue s' = queue s @ [(next_task_id s, job)] \<and>
       unat (next_task_id s') = Suc (unat (next_task_id s)) \<and>
       unat (dispatch_count a) =
         min (Suc (length (queue s))) (unat (num_threads s) - unat (scheduled s)) \<and>
       unat (scheduled s') = unat (scheduled s) + unat (dispatch_count a)) \<and>
    ((\<forall>a. r \<noteq> Returns a) \<longrightarrow>
       queue s' = queue s \<and> scheduled s' = scheduled s \<and> occupied s' = occupied s)"
  using admit_effect [OF assms] admit_ok [OF assms] by blast

lemma admit_contract_witness:
  "inner_ok (\<lparr>lifecycle = Running, task_capacity = 2, num_threads = 1, next_task_id = 1, running = 0,
     running_tasks = {}, scheduled = 1, queue = [(0, True)], cancelling = {}\<rparr>)"
  using admit_contract [OF new_state_ok, of "job_accept demo_jobs" True 2 1 "(0, False, 0)"]
  by (simp add: drive_simps)

text \<open>
  C37. A statistics snapshot is consistent: its lifecycle is the one \<open>lifecycle\<close> reports, its three
  counts are the true sizes and fit the capacity it reports, and it says \<open>Terminated\<close> exactly when
  the service is no longer running and all three counts are zero.
\<close>

theorem stats_consistent:
  assumes "reachable env (initial_system capacity workers x) s"
  shows "let st = stats (sys_inner s) in
    stats_lifecycle st = observed_lifecycle (sys_inner s) \<and> stats_task_capacity st = capacity \<and>
    unat (stats_queued st) = length (queue (sys_inner s)) \<and>
    unat (stats_running st) = card (running_tasks (sys_inner s)) \<and>
    unat (stats_cancelling st) = card (cancelling (sys_inner s)) \<and>
    unat (stats_queued st) + unat (stats_running st) + unat (stats_cancelling st) \<le> unat capacity \<and>
    (stats_lifecycle st = Terminated \<longleftrightarrow>
       is_not_running (sys_inner s) \<and>
       stats_queued st = 0 \<and> stats_running st = 0 \<and> stats_cancelling st = 0)"
proof -
  have ok: "inner_ok (sys_inner s)"
    using reachable_ok [OF assms] by (simp add: sys_ok_def)
  note bounds = inner_okD(4,5) [OF ok] reachable_config(1,3) [OF assms]
  have q: "unat (list_len (queue (sys_inner s))) = length (queue (sys_inner s))"
    using bounds by (intro unat_list_len [of _ capacity]) simp
  have c: "unat (set_len (cancelling (sys_inner s))) = card (cancelling (sys_inner s))"
    using bounds by (intro unat_set_len [of _ capacity]) simp
  have zero: "occupied (sys_inner s) = 0 \<longleftrightarrow> list_len (queue (sys_inner s)) = 0 \<and>
      running (sys_inner s) = 0 \<and> set_len (cancelling (sys_inner s)) = 0"
    using unat_occupied [OF ok] q c by (simp add: usize_eq_0_iff)
  show ?thesis
    using bounds q c
    by (simp add: Let_def stats_def observed_lifecycle_def is_not_running_def zero)
qed

lemma stats_consistent_witness:
  "let st = stats (sys_inner demo_over) in
    stats_lifecycle st = observed_lifecycle (sys_inner demo_over) \<and> stats_task_capacity st = 2 \<and>
    unat (stats_queued st) = length (queue (sys_inner demo_over)) \<and>
    unat (stats_running st) = card (running_tasks (sys_inner demo_over)) \<and>
    unat (stats_cancelling st) = card (cancelling (sys_inner demo_over)) \<and>
    unat (stats_queued st) + unat (stats_running st) + unat (stats_cancelling st) \<le> unat (2 :: usize) \<and>
    (stats_lifecycle st = Terminated \<longleftrightarrow>
       is_not_running (sys_inner demo_over) \<and>
       stats_queued st = 0 \<and> stats_running st = 0 \<and> stats_cancelling st = 0)"
  by (rule stats_consistent [OF demo_reach(3)])

section \<open>Jobs and panics\<close>

text \<open>
  C38. A task is destroyed exactly once by whichever method consumes its job. Running a job, cancelling
  it, and dropping it unaccepted each run the destructor of the user's callable or runnable exactly
  once, unless the process is aborted: when the task panics, when the runner drops the closure it was
  given without calling it, and when endpoints panic as well. Accepting a job destroys nothing.
\<close>

theorem job_consumed_once:
  assumes "task_laws drops api" and "m \<in> {run_queued_job, cancel_queued_job, drop_queued_job}"
  shows "(fst (m api job x) \<noteq> Aborts \<longrightarrow> drops (snd (m api job x)) = Suc (drops x)) \<and>
    (fst (accept_queued_job api job x) \<noteq> Aborts \<longrightarrow>
       drops (snd (accept_queued_job api job x)) = drops x)"
  using assms(2) job_consumed_adds [OF assms(1) [unfolded task_laws_def], of job]
    job_accepted_adds [OF assms(1) [unfolded task_laws_def], of job]
  by (auto simp: exec_adds_def)

lemma job_consumed_once_witness:
  "snd (run_queued_job demo_tasks (CallableJob True ()) 5) = Suc 5"
  using job_consumed_once [OF demo_task_laws, of run_queued_job "CallableJob True ()" 5]
  by (simp add: demo_tasks_def demo_runner_def safe_task_closure_def safe_task_eq
      callable_job_run_def callable_once_def drop_after_def drop_while_unwinding_def drive_simps
      del: safe_task.simps)

section \<open>Building a service\<close>

text \<open>
  C39. A service that was built works: all parameters were positive, it reports \<open>Running\<close>, nothing
  accepted and the configured capacity, and it accepts its first task under the identifier zero,
  asking Rayon for one worker closure if the pool has a worker.
\<close>

theorem built_service_accepts:
  assumes "build rayon b = Inr (pool, i)" and "accept job x = (Returns (), x')"
  shows "builder_num_threads b \<noteq> 0 \<and> builder_stack_size b \<noteq> Some 0 \<and>
    stats i = \<lparr>stats_lifecycle = Running, stats_task_capacity = builder_task_capacity b,
      stats_queued = 0, stats_running = 0, stats_cancelling = 0\<rparr> \<and>
    builder_task_capacity b \<noteq> 0 \<and>
    fst (admit accept job i x) = Returns (Inr \<lparr>admitted_task_id = 0,
      dispatch_count = min 1 (current_num_threads rayon pool)\<rparr>)"
proof -
  have i: "i = new_state (builder_task_capacity b) (current_num_threads rayon pool)"
    and positive: "builder_num_threads b \<noteq> 0" "builder_stack_size b \<noteq> Some 0"
      "builder_task_capacity b \<noteq> 0"
    using assms(1) by (auto simp: build_def split: if_splits sum.splits)
  have "stats i = \<lparr>stats_lifecycle = Running, stats_task_capacity = builder_task_capacity b,
      stats_queued = 0, stats_running = 0, stats_cancelling = 0\<rparr>"
    by (simp add: i stats_def new_state_def occupied_def list_len_def set_len_def)
  moreover have "fst (admit accept job i x) = Returns (Inr \<lparr>admitted_task_id = 0,
      dispatch_count = min 1 (current_num_threads rayon pool)\<rparr>)"
    using assms(2) positive(3)
    by (auto simp: i admit_def new_state_def occupied_def list_len_def set_len_def checked_add_def
        saturating_sub_def Let_def)
  ultimately show ?thesis
    using positive by simp
qed

lemma built_service_accepts_witness:
  "fst (admit (\<lambda>job. exec_return ()) False (new_state 8 4) ()) =
     Returns (Inr \<lparr>admitted_task_id = 0, dispatch_count = min 1 4\<rparr>)"
  using built_service_accepts [of
      "\<lparr>pool_build = (\<lambda>n name stack. Inr n), current_num_threads = (\<lambda>pool. pool)\<rparr> ::
        (usize, unit) rayon_api"
      "\<lparr>builder_num_threads = 4, builder_thread_name_prefix = ''w'', builder_stack_size = None,
        builder_task_capacity = 8\<rparr>" 4 "new_state 8 4" "\<lambda>job. exec_return ()" False "()" "()"]
  by (simp add: build_def)

text \<open>
  C40. Worker names identify their workers: from the name that \<open>build\<close> gives Rayon for a worker, the
  configured prefix and the index can be read back, whatever the prefix, hyphens and digits
  included.
\<close>

theorem worker_name_roundtrip: "parse_worker_name (worker_name prefix index) = (prefix, index)"
  by (rule parse_worker_name)

section \<open>Further facts\<close>

text \<open>
  A task that a worker has claimed cannot be cancelled through either path: the handle answers
  with the outcome for the observed status, the endpoint with \<open>AlreadyRunning\<close>, and both leave the
  service and all code outside it untouched.
\<close>

theorem claimed_task_not_cancelled:
  assumes "inner_ok (inner st)" and "handle_task_id h \<in> running_tasks (inner st)"
  shows "handle_cancel api jobs watch h st =
      (Returns (if tracked_status api (tracked h) (ext st) \<in> {StatusPending, StatusRunning}
         then AlreadyRunning else AlreadyFinished), st) \<and>
    endpoint_cancel api jobs watch h st = (Returns AlreadyRunning, st)"
proof -
  have "handle_task_id h \<notin> btree_keys (queue (inner st))"
    "handle_task_id h \<notin> cancelling (inner st)"
    using inner_okD(6) [OF assms(1)] assms(2) by (auto simp: tasks_ok_def)
  then have "cancel_pending_task (handle_task_id h) (inner st) = (Absent, inner st)"
    by (simp add: cancel_pending_task_def btree_remove_def map_of_btree_None)
  moreover have "cancellation_result_for_status (tracked_status api (tracked h) (ext st)) =
      (if tracked_status api (tracked h) (ext st) \<in> {StatusPending, StatusRunning}
       then AlreadyRunning else AlreadyFinished)"
    by (cases "tracked_status api (tracked h) (ext st)") auto
  ultimately show ?thesis
    using assms(2)
    by (simp add: handle_cancel_def endpoint_cancel_def endpoint_absent_def cancel_task_def
        handle_status_def is_running_task_def)
qed

lemma claimed_task_not_cancelled_witness:
  "handle_cancel demo_tracked demo_jobs None \<lparr>tracked = (), handle_task_id = 0\<rparr>
      \<lparr>inner = sys_inner demo_busy, ext = (0, False, 0), spawned = 0\<rparr> =
     (Returns AlreadyRunning, \<lparr>inner = sys_inner demo_busy, ext = (0, False, 0), spawned = 0\<rparr>) \<and>
   endpoint_cancel demo_tracked demo_jobs None \<lparr>tracked = (), handle_task_id = 0\<rparr>
      \<lparr>inner = sys_inner demo_busy, ext = (0, False, 0), spawned = 0\<rparr> =
     (Returns AlreadyRunning, \<lparr>inner = sys_inner demo_busy, ext = (0, False, 0), spawned = 0\<rparr>)"
  using claimed_task_not_cancelled [of
      "\<lparr>inner = sys_inner demo_busy, ext = (0, False, 0), spawned = 0\<rparr>"
      "\<lparr>tracked = (), handle_task_id = 0\<rparr>" demo_tracked demo_jobs None]
    reachable_ok [OF demo_reach(1)]
  by (simp add: sys_ok_def demo_busy_def demo_tracked_def)

text \<open>
  A callable is released exactly once, and a panic of it is replaced. The closure given to the
  task runner drops the callable exactly once, whether the call returns, panics, or the destructor
  itself panics; and if the closure unwinds, then with the static message, never with a payload of
  the user's whose destructor could run in the runner.
\<close>

theorem callable_released_once:
  assumes "exec_adds drops 0 (callable_call api c)" and "exec_adds drops 1 (callable_drop api c)"
    and "fst (safe_task api (Some c) x) \<noteq> Aborts"
  shows "drops (snd (safe_task api (Some c) x)) = Suc (drops x) \<and>
    (\<forall>p. fst (safe_task api (Some c) x) = Unwinds p \<longrightarrow> p = message_payload)"
  using exec_addsD(1) [OF safe_task_adds [OF assms(1,2)] _ assms(3)]
  by (cases "safe_task api (Some c) x")
    (auto simp: safe_task_eq simp del: safe_task.simps split: outcome.splits prod.splits if_splits)

lemma callable_released_once_witness:
  "snd (safe_task demo_tasks (Some True) 5) = Suc 5"
  using callable_released_once [of "\<lambda>n. n" demo_tasks True 5]
  by (simp add: demo_tasks_def exec_adds_def safe_task_eq callable_once_def drop_after_def
      drop_while_unwinding_def message_payload_def del: safe_task.simps)

text \<open>
  \<open>wait_termination_timeout\<close> answers \<open>true\<close> exactly when termination is observed before a check
  that finds the time used up, and \<open>false\<close> exactly when a check finds the service unterminated with
  the timeout elapsed; a terminated service is reported as such even when the time is used up.
\<close>

theorem timed_wait_result:
  "wait_termination_timeout timeout seen = Some b \<longleftrightarrow>
    (\<exists>before i elapsed after. seen = before @ (i, elapsed) # after \<and>
       (if b then drained i else \<not> drained i \<and> timeout \<le> elapsed) \<and>
       list_all (\<lambda>(j, t). \<not> drained j \<and> t < timeout) before)"
  by (auto simp: wait_termination_timeout_def wait_timeout_returns first_at_def must_wait_iff list_all_iff)

text \<open>
  No idle worker beside queued work. The reserved closures that are not running a job suffice
  for the queue, or for every worker that is not running one.
\<close>

theorem work_conservation:
  assumes "reachable env (initial_system capacity workers x) s"
  shows "min (length (queue (sys_inner s))) (unat workers - card (running_tasks (sys_inner s)))
    \<le> total reserved (threads s) - card (running_tasks (sys_inner s))"
proof -
  have ok: "inner_ok (sys_inner s)" and "balanced (sys_inner s) (threads s)"
    using reachable_ok [OF assms] by (simp_all add: sys_ok_def)
  with inner_okD(4,8) [OF ok] reachable_config(2) [OF assms] show ?thesis
    by (auto simp: balanced_def work_conserving_def)
qed

lemma work_conservation_witness:
  "min (length (queue (sys_inner demo_busy))) (unat (1 :: usize) - card (running_tasks (sys_inner demo_busy)))
    \<le> total reserved (threads demo_busy) - card (running_tasks (sys_inner demo_busy))"
  by (rule work_conservation [OF demo_reach(1)])

text \<open>
  One panicking waker does not starve the others. When a notifier wakes the proxies registered
  by the polled futures one after another, every underlying waker is called, in order, and the loop
  returns, whatever wakers unwind.
\<close>

theorem all_wakers_reached:
  assumes "\<forall>w \<in> set ws. exec_safe w"
  shows "foldr (\<lambda>w rest. exec_bind (proxy_wake \<lparr>proxied_waker = w\<rparr>) (\<lambda>_. rest)) ws (exec_return ()) x =
    (Returns (), fold (\<lambda>w x. snd (contain w x)) ws x)"
  using wake_all_isolated [OF assms] by (simp add: proxy_wake_def)

lemma all_wakers_reached_witness:
  "foldr (\<lambda>w rest. exec_bind (proxy_wake \<lparr>proxied_waker = w\<rparr>) (\<lambda>_. rest))
     [\<lambda>n. (Unwinds message_payload, n + 1), \<lambda>n. (Returns (), n + 2)] (exec_return ()) (0 :: nat) =
   (Returns (), 3)"
  by (subst all_wakers_reached)
    (auto simp: exec_safe_def demo_payload contain_eq discard_panic_payload_eq)

text \<open>
  Discarding a panic payload runs its destructor, once, and nothing after it: the discard never
  unwinds, and if the destructor panics the secondary payload is forgotten, so that the state is the
  one the destructor left and none of the secondary payload's code has run.
\<close>

theorem discarded_payload:
  "snd (discard_panic_payload p x) = snd (drop_payload p x) \<and>
   fst (discard_panic_payload p x) =
     (case fst (drop_payload p x) of Aborts \<Rightarrow> Aborts | _ \<Rightarrow> Returns ())"
  by (auto simp: discard_panic_payload_eq split: outcome.split)

text \<open>
  A worker takes the oldest task: the identifier it gets is the least in the queue, the job is
  the one queued under it, nothing else leaves the queue, and the worker finds nothing only when the
  queue is empty.
\<close>

theorem take_next_oldest:
  assumes "inner_ok s" and "take_next s = (r, sg, s')"
  shows "case r of
      None \<Rightarrow> queue s = [] \<and> queue s' = []
    | Some (n, job) \<Rightarrow>
        map_of (queue s) n = Some job \<and> (\<forall>m \<in> btree_keys (queue s). n \<le> m) \<and>
        map_of (queue s') = (map_of (queue s))(n := None) \<and> is_running_task n s' \<and>
        \<not> is_running_task n s"
proof (cases r)
  case None
  with assms(2) show ?thesis
    by (simp add: take_next_None)
next
  case (Some p)
  obtain n job where p: "p = (n, job)"
    by fastforce
  then obtain q where q: "queue s = (n, job) # q"
    and s': "s' = s\<lparr>queue := q, running := running s + 1,
      running_tasks := insert n (running_tasks s)\<rparr>"
    using assms(2) Some by (auto simp: take_next_Some)
  have ok: "btree_ok (queue s)" and pop: "btree_pop_first (queue s) = Some ((n, job), q)"
    using inner_okD(1) [OF assms(1)] q by simp_all
  have "n \<notin> running_tasks s"
    using inner_okD(6) [OF assms(1)] q by (auto simp: tasks_ok_def)
  with btq.pop_lookup [OF ok pop] btq.pop_least [OF ok pop] btq.lookup_pop [OF ok pop]
  show ?thesis
    by (auto simp: Some p s' is_running_task_def dom_map_of_btree)
qed

lemma take_next_oldest_witness:
  "map_of (queue (sys_inner demo_busy)) 1 = Some False \<and>
   Map.empty = (map_of (queue (sys_inner demo_busy)))(1 := None)"
  using take_next_oldest [of "sys_inner demo_busy" "Some (1, False)"]
    reachable_ok [OF demo_reach(1)]
  by (simp add: sys_ok_def demo_busy_def take_next_def)

text \<open>
  No overtaking. If a task is next, it stays next when another job is admitted, and when a
  cancellation claims any other task.
\<close>

theorem next_task_stays_next:
  assumes "inner_ok s" and "fst (take_next s) = Some (n, job)"
    and "admit accept job' s x = (r, s', x')" and "m \<noteq> n"
  shows "fst (take_next s') = Some (n, job) \<and>
    fst (take_next (snd (cancel_pending_task m s))) = Some (n, job)"
proof -
  obtain q where q: "queue s = (n, job) # q"
    using assms(2) by (cases "take_next s") (auto simp: take_next_Some)
  have ok: "btree_ok (queue s)" and pop: "btree_pop_first (queue s) = Some ((n, job), q)"
    using inner_okD(1) [OF assms(1)] q by simp_all
  have "n < next_task_id s"
    using inner_okD(6) [OF assms(1)] q by (auto simp: tasks_ok_def)
  from btq.pop_ins_later [OF ok pop this]
  have ins: "\<exists>q'. btree_insert (next_task_id s) job' (queue s) = (n, job) # q'"
    by (simp add: btree_pop_first_Some)
  from btq.pop_rem_other [OF ok pop assms(4)]
  have rem: "\<exists>q'. snd (btree_remove m (queue s)) = (n, job) # q'"
    by (simp add: btree_pop_first_Some)
  have "\<exists>q'. queue s' = (n, job) # q'"
    using assms(3) by (cases rule: admit_cases) (use q ins in auto)
  moreover have "\<exists>q'. queue (snd (cancel_pending_task m s)) = (n, job) # q'"
    using q rem by (auto simp: cancel_pending_task_def split: prod.splits option.splits)
  ultimately show ?thesis
    by (auto simp: take_next_def)
qed

lemma next_task_stays_next_witness:
  "fst (take_next (sys_inner demo_busy)) = Some (1, False) \<and>
   fst (take_next (snd (cancel_pending_task 0 (sys_inner demo_busy)))) = Some (1, False)"
  using next_task_stays_next [of "sys_inner demo_busy" 1 False "job_accept demo_jobs" True
      "(0, False, 0)" "Returns (Inl Saturated)" "sys_inner demo_busy" "(0, False, 0)" 0]
    reachable_ok [OF demo_reach(1)]
  by (simp add: sys_ok_def demo_busy_def drive_simps)

text \<open>
  Cancelling a queued callable drops it exactly once and does not call it: the only user code
  that runs is the endpoint's cancellation and then the callable's destructor, also when the
  endpoint's cancellation panics.
\<close>

theorem cancelled_callable_dropped_once:
  assumes "exec_adds drops 0 (slot_cancel_unstarted api slot)"
    and "exec_adds drops 1 (callable_drop api c)"
    and "fst (callable_job_cancel api c slot x) \<noteq> Aborts"
  shows "drops (snd (callable_job_cancel api c slot x)) = Suc (drops x) \<and>
    snd (callable_job_cancel api c slot x) =
      snd (callable_drop api c (snd (slot_cancel_unstarted api slot x)))"
proof -
  obtain r x1 where s: "slot_cancel_unstarted api slot x = (r, x1)"
    by fastforce
  obtain r2 x2 where d: "callable_drop api c x1 = (r2, x2)"
    by fastforce
  have "r \<noteq> Aborts" "r2 \<noteq> Aborts"
    using assms(3) s d by (auto simp: callable_job_cancel_def drop_after_def exec_bind_def
        drop_while_unwinding_def split: outcome.splits)
  moreover have "drops x1 = drops x" "drops x2 = Suc (drops x1)"
    using exec_addsD(1) [OF assms(1) s] exec_addsD(1) [OF assms(2) d] calculation by simp_all
  ultimately show ?thesis
    using s d by (cases r; cases r2)
      (auto simp: callable_job_cancel_def drop_after_def exec_bind_def drop_while_unwinding_def)
qed

lemma cancelled_callable_dropped_once_witness:
  "snd (callable_job_cancel demo_tasks True () 5) = Suc 5 \<and>
   snd (callable_job_cancel demo_tasks True () 5) =
     snd (callable_drop demo_tasks True (snd (slot_cancel_unstarted demo_tasks () 5)))"
  using cancelled_callable_dropped_once [of "\<lambda>n. n" demo_tasks "()" True 5]
  by (simp add: demo_tasks_def exec_adds_def callable_job_cancel_def drop_after_def exec_bind_def)

text \<open>
  A publication changes the channels as it says, and nothing can stop it: the capacity
  generation is advanced (modulo two to the 64) if capacity changed, the termination flag is raised
  if the service terminated and never lowered, and the call returns even when wakers panic.
\<close>

theorem publication_effect:
  assumes "watch_laws w"
  shows "let (r, x') = notify_async_changes (Some w) capacity_changed terminated x in
    r = Returns () \<and>
    capacity_value w x' = (if capacity_changed then capacity_value w x + 1 else capacity_value w x) \<and>
    (termination_value w x' \<longleftrightarrow> terminated \<or> termination_value w x)"
proof -
  obtain r x' where n: "notify_async_changes (Some w) capacity_changed terminated x = (r, x')"
    by fastforce
  from notify_async_changes_effect [OF assms n] n show ?thesis
    by simp
qed

lemma publication_effect_witness:
  "let (r, x') = notify_async_changes (Some demo_watch) True True (- 1, False, 0) in
    r = Returns () \<and>
    capacity_value demo_watch x' =
      (if True then capacity_value demo_watch (- 1, False, 0) + 1
       else capacity_value demo_watch (- 1, False, 0)) \<and>
    (termination_value demo_watch x' \<longleftrightarrow> True \<or> termination_value demo_watch (- 1, False, 0))"
  by (rule publication_effect [OF demo_watch_laws])

text \<open>
  Every release is announced. When a critical section lowers the number of accepted tasks or
  changes the lifecycle, the thread that made it publishes a new capacity generation as its very
  next action, so a subscriber waiting for room or for shutdown is notified.
\<close>

theorem releases_published:
  assumes "reachable env (initial_system capacity workers x) s"
    and "threads s = add_mset (a # rest) others"
    and "perform env a (sys_inner s) (sys_ext s) = Some e"
    and "occupied (eff_inner e) < occupied (sys_inner s) \<or>
      lifecycle (eff_inner e) \<noteq> lifecycle (sys_inner s)"
  shows "\<exists>terminated. Publish True terminated \<in> set (eff_next e)"
proof -
  have ok: "sys_ok s"
    by (rule reachable_ok [OF assms(1)])
  with act_sys_ok [OF ok assms(2,3)] show ?thesis
    using perform_release_publishes [OF assms(3) _ _ assms(4)]
    by (simp add: sys_ok_def apply_effect_def)
qed

lemma releases_published_witness:
  "\<exists>terminated. Publish True terminated \<in>
     set (eff_next (perform_stop (sys_inner demo_busy) (sys_ext demo_busy)))"
proof (rule releases_published)
  show "reachable demo_env (initial_system 2 1 (0, False, 0))
      (demo_busy\<lparr>threads := add_mset [StopService] (threads demo_busy)\<rparr>)"
    by (rule reachable.step [OF demo_reach(1) system_step.call])
      simp_all
  show "threads (demo_busy\<lparr>threads := add_mset [StopService] (threads demo_busy)\<rparr>) =
      add_mset (StopService # []) (threads demo_busy)"
    by simp
qed (simp_all add: demo_busy_def perform_stop_def stop_eq Let_def)

text \<open>
  A task ends at most once, and not in two ways: in any history at most one event says that a
  given task was executed or that its cancellation ran, and only for an accepted task.
\<close>

theorem ends_once:
  assumes "reachable env (initial_system capacity workers x) s"
  shows "length (filter (\<lambda>e. e = Executed n \<or> e = CancelRan n) (history s)) \<le>
      length (filter (\<lambda>e. e = Accepted n) (history s)) \<and>
    length (filter (\<lambda>e. e = Accepted n) (history s)) \<le> 1"
proof -
  have "ledger (sys_inner s) (threads s) (history s)"
    using reachable_ok [OF assms] by (simp add: sys_ok_def)
  then have sum: "mset (map fst (queue (sys_inner s))) + total owned_ids (threads s) +
      ended (history s) = accepted (history s)" and "count (accepted (history s)) n \<le> 1"
    by (simp_all add: ledger_def)
  have "count (ended (history s)) n \<le> count (accepted (history s)) n"
    unfolding sum [symmetric] by simp
  with \<open>count (accepted (history s)) n \<le> 1\<close> show ?thesis
    by (simp add: count_ended count_accepted)
qed

lemma ends_once_witness:
  "length (filter (\<lambda>e. e = Executed 0 \<or> e = CancelRan 0) (history demo_over)) \<le>
      length (filter (\<lambda>e. e = Accepted 0) (history demo_over)) \<and>
    length (filter (\<lambda>e. e = Accepted 0) (history demo_over)) \<le> 1"
  by (rule ends_once [OF demo_reach(3)])

text \<open>
  One task's life. Every step of the interleaved system leaves each task where it is or moves
  it along the automaton: admitted, then claimed by a worker or by one cancellation, then finished.
\<close>

theorem task_life_refined:
  assumes "reachable env (initial_system capacity workers x) s" and "system_step env s w s'"
  shows "task_phase (sys_inner s') n = task_phase (sys_inner s) n \<or>
    phase_step (task_phase (sys_inner s) n) (task_phase (sys_inner s') n)"
  by (rule step_phase [OF reachable_ok [OF assms(1)] assms(2)])

lemma task_life_refined_witness:
  "task_phase (sys_inner (demo_busy\<lparr>threads := add_mset [StopService] (threads demo_busy)\<rparr>)) 1 =
      task_phase (sys_inner demo_busy) 1 \<or>
    phase_step (task_phase (sys_inner demo_busy) 1)
      (task_phase (sys_inner (demo_busy\<lparr>threads := add_mset [StopService] (threads demo_busy)\<rparr>)) 1)"
  by (rule task_life_refined [OF demo_reach(1)
        system_step.call [where env = demo_env]]) simp_all

text \<open>
  The cancellation endpoint's race. The endpoint first finds its task absent from the queue,
  then looks in a second critical section whether it is running, and only if not asks the tracked
  task to cancel. Whatever other threads do between the two sections, at that point the task has
  finished: it is neither queued nor running nor being cancelled, and never will be again, so the
  fallback cannot cancel a task that a worker has claimed.
\<close>

theorem endpoint_fallback_is_late:
  assumes "reachable env (initial_system capacity workers x) s"
    and "fst (cancel_pending_task n (sys_inner s)) = Absent"
    and "n < next_task_id (sys_inner s)"
    and "reachable env s s'" and "\<not> is_running_task n (sys_inner s')"
    and "reachable env s' s''"
  shows "n \<notin> btree_keys (queue (sys_inner s'')) \<and> n \<notin> running_tasks (sys_inner s'') \<and>
    n \<notin> cancelling (sys_inner s'')"
proof -
  have ok: "sys_ok s"
    by (rule reachable_ok [OF assms(1)])
  then have inner: "inner_ok (sys_inner s)"
    by (simp add: sys_ok_def)
  have claimed: "task_phase (sys_inner s) n = Active \<or> task_phase (sys_inner s) n = Finished"
    using absent_phase [OF inner, of n] fresh_phase [OF inner, of n] assms(2,3) by auto
  note run = run_phases [OF assms(4) ok, of n]
  have "task_phase (sys_inner s') n = Active \<or> task_phase (sys_inner s') n = Finished"
    using phase_steps_claimed [OF conjunct2 [OF run]] claimed by auto
  then have "task_phase (sys_inner s') n = Finished"
    using assms(5) by (auto simp: task_phase_def is_running_task_def split: if_splits)
  with run_phases [OF assms(6) conjunct1 [OF run], of n]
  have "task_phase (sys_inner s'') n = Finished"
    using phase_steps_claimed by force
  then show ?thesis
    by (auto simp: task_phase_def split: if_splits)
qed

lemma endpoint_fallback_is_late_witness:
  "(0 :: usize) \<notin> btree_keys (queue (sys_inner demo_over)) \<and>
   0 \<notin> running_tasks (sys_inner demo_over) \<and> 0 \<notin> cancelling (sys_inner demo_over)"
  by (rule endpoint_fallback_is_late
      [OF demo_reach(1) _ _ demo_busy_owing _ demo_owing_over])
    (simp_all add: demo_busy_def demo_owing_def cancel_pending_task_def btree_remove_def
      is_running_task_def word_less_nat_alt)

text \<open>
  A termination subscription taken late is repaired: when the service is found terminated after
  the subscription, the channel says so from then on and the call returns the receiver, even if the
  publication was made before anyone subscribed; a service that is not terminated is left alone.
\<close>

theorem late_subscription_repaired:
  assumes "watch_laws w" and "subscribe x = (Returns rx, x1)"
  shows "let (r, x') = subscribe_termination w subscribe i x in
    r = Returns rx \<and>
    (if drained i then termination_value w x' \<and> capacity_value w x' = capacity_value w x1
     else x' = x1)"
proof -
  note sent = contain_termination_send [OF assms(1), of raise_once x1]
  show ?thesis
    using assms(2) sent
    by (cases "contain (termination_send_if_modified w raise_once) x1")
      (auto simp: subscribe_termination_def exec_bind_def drained_def)
qed

lemma late_subscription_repaired_witness:
  "let (r, x') = subscribe_termination demo_watch (exec_return ()) (sys_inner demo_owing) (0, False, 0)
   in r = Returns () \<and>
     (if drained (sys_inner demo_owing)
      then termination_value demo_watch x' \<and>
        capacity_value demo_watch x' = capacity_value demo_watch (0, False, 0)
      else x' = (0, False, 0))"
  by (rule late_subscription_repaired [OF demo_watch_laws]) simp

text \<open>
  Every future of the crate hides the caller's waker behind the proxy: the capacity future and
  the termination wait poll tokio's future with a waker that never unwinds and that otherwise does
  what the caller's waker does.
\<close>

theorem futures_poll_with_proxy:
  "changed_poll (changed api rx) w = receiver_changed api (receiver rx) (contain w) \<and>
   await_termination_poll wait_for rx' w =
     exec_bind (wait_for rx' (\<lambda>terminated. terminated) (contain w))
       (\<lambda>r. case r of
          PollPending \<Rightarrow> exec_return PollPending
        | PollReady (Inr _) \<Rightarrow> exec_return (PollReady ())
        | PollReady (Inl _) \<Rightarrow> resume_unwind message_payload) \<and>
   (\<forall>x p. fst (contain w x) \<noteq> Unwinds p) \<and>
   (\<forall>x. contain w x =
      (case w x of
         (Returns _, x') \<Rightarrow> (Returns (), x')
       | (Unwinds p, x') \<Rightarrow> discard_panic_payload p x'
       | (Aborts, x') \<Rightarrow> (Aborts, x')))"
proof (intro conjI allI)
  show "changed_poll (changed api rx) w = receiver_changed api (receiver rx) (contain w)"
    by (simp add: changed_poll_def changed_def poll_isolated)
  show "await_termination_poll wait_for rx' w =
     exec_bind (wait_for rx' (\<lambda>terminated. terminated) (contain w))
       (\<lambda>r. case r of
          PollPending \<Rightarrow> exec_return PollPending
        | PollReady (Inr _) \<Rightarrow> exec_return (PollReady ())
        | PollReady (Inl _) \<Rightarrow> resume_unwind message_payload)"
    unfolding resume_unwind_def
    by (simp add: await_termination_poll_def isolation_poll_def poll_isolated)
  show "fst (contain w x) \<noteq> Unwinds p" for x p
    by (rule guarded.guard_no_unwind)
qed (rule contain_eq)

text \<open>
  The builder's validation order and result: a zero thread count is reported before a zero stack
  size, that before a zero capacity, and only then is Rayon asked; on success the service runs with
  the configured capacity and with as many reservations as the pool really has workers.
\<close>

theorem build_contract:
  "build rayon b =
    (if builder_num_threads b = 0 then Inl ZeroThreadCount
     else if builder_stack_size b = Some 0 then Inl ZeroStackSize
     else if builder_task_capacity b = 0 then Inl ZeroTaskCapacity
     else map_sum BuildFailed
       (\<lambda>pool. (pool, new_state (builder_task_capacity b) (current_num_threads rayon pool)))
       (pool_build rayon (builder_num_threads b) (worker_name (builder_thread_name_prefix b))
         (builder_stack_size b)))"
  by (simp add: build_def split: sum.split)

text \<open>
  The default service can only fail in Rayon: with the detected parallelism (a non-zero number,
  or one when it is unknown) none of the builder's own errors is possible, and the service accepts
  1024 tasks.
\<close>

theorem default_service_builds:
  assumes "parallelism \<noteq> Some 0"
  shows "new_service rayon parallelism =
    map_sum BuildFailed (\<lambda>pool. (pool, new_state 1024 (current_num_threads rayon pool)))
      (pool_build rayon (default_rayon_thread_count parallelism)
        (worker_name ''qubit-rayon-executor'') None)"
  using assms
  by (auto simp: new_service_def service_builder_def default_builder_def default_thread_name_prefix_def default_rayon_thread_count_def build_def
      split: option.splits sum.split)

lemma default_service_builds_witness:
  "new_service \<lparr>pool_build = (\<lambda>n name stack. if n = 4 then Inr (name 3) else Inl ()),
     current_num_threads = (\<lambda>pool. 4)\<rparr> (Some 4) =
   (Inr (''qubit-rayon-executor-3'', new_state 1024 4) ::
      unit build_error + string \<times> bool rayon_executor_service_inner)"
  by (subst default_service_builds)
    (simp_all add: default_rayon_thread_count_def worker_name_def decimal.simps decimal_digit_def
      char_of_def bit_0)

text \<open>
  The names Rayon is given for its workers are distinct: under any prefix, two workers have the
  same name only if they have the same index.
\<close>

theorem worker_names_distinct: "worker_name prefix i = worker_name prefix j \<longleftrightarrow> i = j"
  by (simp add: worker_name_def decimal_inject word_unat_eq_iff)

text \<open>
  \<open>wait_termination\<close> returns at the first moment it holds the lock with the service terminated,
  and not before: every record it saw earlier had tasks left or was still running.
\<close>

theorem wait_returns_when_terminated:
  "wait_termination seen = Some i \<longleftrightarrow>
    (\<exists>before after. seen = before @ i # after \<and>
       lifecycle i \<noteq> Running \<and> occupied i = 0 \<and>
       list_all (\<lambda>j. lifecycle j = Running \<or> occupied j \<noteq> 0) before)"
  by (auto simp: wait_termination_def wait_for_termination_returns first_at_def drained_def must_wait_def list_all_iff)

lemma wait_returns_when_terminated_witness:
  "wait_termination [sys_inner demo_busy, sys_inner demo_owing, sys_inner demo_busy] =
     Some (sys_inner demo_owing)"
  unfolding wait_returns_when_terminated
  by (rule exI [of _ "[sys_inner demo_busy]"], rule exI [of _ "[sys_inner demo_busy]"])
    (simp add: demo_busy_def demo_owing_def occupied_def list_len_def set_len_def)

end
